(* ===== verification/Prelude.thy ===== *)
theory Prelude
  imports Main "HOL-Library.Word" "HOL-Library.List_Lexorder" "HOL-Library.Char_ord"
    "HOL-Library.Product_Lexorder" "HOL-Library.Multiset"
begin

text \<open>
  What the components share: the Go types, the parts of Go's standard library the
  sources call (\<open>strconv.Itoa\<close>, \<open>strconv.Atoi\<close>, \<open>sort.Search\<close>, the contract of
  \<open>sort.Slice\<close>), generic lemmas on lists, and runs of labelled steps.

  A Go string is a sequence of bytes; an Isabelle \<open>string\<close> is a list of 8-bit
  characters, and the lexicographic order on it is Go's order on strings.
\<close>

named_theorems store_defs \<open>unfolding rules of the store operations\<close>
named_theorems ring_defs \<open>unfolding rules of the hash ring operations\<close>

type_synonym uint64 = "64 word"
type_synonym int64 = "64 word"

section \<open>Decimal numbers: strconv\<close>

definition digit_char :: "nat \<Rightarrow> char" where
  "digit_char d = char_of (48 + d)"

definition is_digit :: "char \<Rightarrow> bool" where
  "is_digit c \<longleftrightarrow> 48 \<le> (of_char c :: nat) \<and> (of_char c :: nat) \<le> 57"

definition digit_val :: "char \<Rightarrow> nat" where
  "digit_val c = of_char c - 48"

fun nat_digits :: "nat \<Rightarrow> string" where
  "nat_digits n = (if n < 10 then [digit_char n] else nat_digits (n div 10) @ [digit_char (n mod 10)])"

declare nat_digits.simps [simp del]

text \<open>\<open>strconv.Itoa\<close> and \<open>fmt\<close>'s \<open>%d\<close>.\<close>

definition itoa :: "int \<Rightarrow> string" where
  "itoa i = (if i < 0 then CHR ''-'' # nat_digits (nat (- i)) else nat_digits (nat i))"

datatype num_error = ErrSyntax | ErrRange

text \<open>
  The digit loop of \<open>strconv.ParseUint\<close> in base 10 with 64 bits: a character that is no
  digit is a syntax error, a value past \<open>2^64 - 1\<close> a range error found at that digit.
\<close>

fun parse_uint :: "string \<Rightarrow> nat \<Rightarrow> nat \<times> num_error option" where
  "parse_uint [] n = (n, None)"
| "parse_uint (c # cs) n =
     (if \<not> is_digit c then (0, Some ErrSyntax)
      else let n1 = n * 10 + digit_val c
           in if 2 ^ 64 \<le> n1 then (2 ^ 64 - 1, Some ErrRange) else parse_uint cs n1)"

text \<open>
  \<open>strconv.Atoi\<close> on a 64-bit platform: the value Go returns beside the error is kept,
  because some callers ignore the error.
\<close>

definition atoi :: "string \<Rightarrow> int \<times> num_error option" where
  "atoi s =
     (case s of [] \<Rightarrow> (0, Some ErrSyntax)
      | c # cs \<Rightarrow>
          (let neg = (c = CHR ''-'');
               body = (if c = CHR ''-'' \<or> c = CHR ''+'' then cs else s)
           in if body = [] then (0, Some ErrSyntax)
              else (case parse_uint body 0 of
                  (_, Some ErrSyntax) \<Rightarrow> (0, Some ErrSyntax)
                | (un, _) \<Rightarrow>
                    if \<not> neg \<and> 2 ^ 63 \<le> un then (2 ^ 63 - 1, Some ErrRange)
                    else if neg \<and> 2 ^ 63 < un then (- (2 ^ 63), Some ErrRange)
                    else ((if neg then - int un else int un), None))))"

section \<open>Strings\<close>

definition ascii :: "string \<Rightarrow> bool" where
  "ascii s = list_all (\<lambda>c. (of_char c :: nat) < 128) s"

section \<open>Binary search: sort.Search\<close>

text \<open>
  The loop of \<open>sort.Search\<close>: \<open>f\<close> is expected to be false and then true, the result is
  the first index of \<open>[i, j)\<close> where it is true, or \<open>j\<close>.
\<close>

function search_loop :: "(nat \<Rightarrow> bool) \<Rightarrow> nat \<Rightarrow> nat \<Rightarrow> nat" where
  "search_loop f i j =
     (if i < j
      then let m = (i + j) div 2 in if \<not> f m then search_loop f (m + 1) j else search_loop f i m
      else i)"
  by pat_completeness auto
termination
  by (relation "measure (\<lambda>(f, i, j). j - i)") auto

declare search_loop.simps [simp del]

definition sort_Search :: "nat \<Rightarrow> (nat \<Rightarrow> bool) \<Rightarrow> nat" where
  "sort_Search n f = search_loop f 0 n"

section \<open>Signed 64-bit integers\<close>

lemma sint_eq: "sint (a :: 'a::len word) = sint b \<longleftrightarrow> a = b"
  by (rule word_eq_iff_signed [symmetric])

lemma sint64_bounds: "- (2 ^ 63) \<le> sint (a :: 64 word) \<and> sint (a :: 64 word) < 2 ^ 63"
  using sint_ge [of a] sint_lt [of a] by simp

lemma sint64_inc: "sint (a :: 64 word) < 2 ^ 63 - 1 \<Longrightarrow> sint (a + 1) = sint a + 1"
  using sint64_bounds [of a] by (simp add: sint_word_ariths signed_take_bit_int_eq_self)

section \<open>Unsigned 64-bit integers without overflow\<close>

lemma unat64_less: "unat (a :: 64 word) < 2 ^ 64"
  using unsigned_less [of a, where ?'a = nat] by simp

lemma unat_of_nat64: "n < 2 ^ 64 \<Longrightarrow> unat (of_nat n :: 64 word) = n"
  by (simp add: unsigned_of_nat take_bit_nat_eq_self)

lemma unat_add_small: "unat a + unat b < 2 ^ 64 \<Longrightarrow> unat (a + b :: 64 word) = unat a + unat b"
  by (simp add: unat_word_ariths)

lemma unat_mult_small: "unat a * unat b < 2 ^ 64 \<Longrightarrow> unat (a * b :: 64 word) = unat a * unat b"
  by (simp add: unat_word_ariths)

lemma sint_small:
  assumes "unat (a :: 64 word) < 2 ^ 63"
  shows "sint a = int (unat a)"
proof -
  have "int (unat a) < int (2 ^ 63)" using assms by (simp only: of_nat_less_iff)
  then show ?thesis by (simp add: sint_uint signed_take_bit_int_eq_self order_trans [of _ 0])
qed

section \<open>Lemmas on decimal numbers\<close>

lemma is_digit_digit_char [simp]: "d < 10 \<Longrightarrow> is_digit (digit_char d)"
  by (simp add: is_digit_def digit_char_def)

lemma digit_val_digit_char [simp]: "d < 10 \<Longrightarrow> digit_val (digit_char d) = d"
  by (simp add: digit_val_def digit_char_def)

lemma nat_digits_neq_Nil [simp]: "nat_digits n \<noteq> []"
  by (subst nat_digits.simps) simp

lemma nat_digits_is_digit: "c \<in> set (nat_digits n) \<Longrightarrow> is_digit c"
proof (induction n rule: nat_digits.induct)
  case (1 n)
  show ?case
  proof (cases "n < 10")
    case True
    with "1.prems" show ?thesis by (simp add: nat_digits.simps [of n])
  next
    case False
    with "1.prems" have "c \<in> set (nat_digits (n div 10)) \<or> c = digit_char (n mod 10)"
      by (auto simp: nat_digits.simps [of n])
    with "1.IH" False show ?thesis by auto
  qed
qed

lemma parse_uint_snoc:
  assumes "parse_uint xs n = (m, None)" and "is_digit c" and "m * 10 + digit_val c < 2 ^ 64"
  shows "parse_uint (xs @ [c]) n = (m * 10 + digit_val c, None)"
  using assms
  by (induction xs n rule: parse_uint.induct) (auto simp: Let_def split: if_splits)

lemma parse_uint_nat_digits: "n < 2 ^ 64 \<Longrightarrow> parse_uint (nat_digits n) 0 = (n, None)"
proof (induction n rule: nat_digits.induct)
  case (1 n)
  show ?case
  proof (cases "n < 10")
    case True
    then show ?thesis by (simp add: nat_digits.simps [of n])
  next
    case False
    have less: "n div 10 < 2 ^ 64" and eq: "n div 10 * 10 + n mod 10 = n"
      using "1.prems" by auto
    have "parse_uint (nat_digits (n div 10) @ [digit_char (n mod 10)]) 0 = (n div 10 * 10 + n mod 10, None)"
      using parse_uint_snoc [OF "1.IH" [OF False less], of "digit_char (n mod 10)"] "1.prems" eq
      by simp
    then show ?thesis using False eq by (simp add: nat_digits.simps [of n])
  qed
qed

lemma is_digit_not_sign [simp]: "\<not> is_digit CHR ''-''" "\<not> is_digit CHR ''+''"
  by (simp_all add: is_digit_def)

lemma is_digit_not_newline [simp]: "\<not> is_digit (CHR 0x0A)" "\<not> is_digit (CHR 0x0D)"
  by (simp_all add: is_digit_def)

lemma itoa_no_newline: "CHR 0x0A \<notin> set (itoa i)"
  using nat_digits_is_digit [of "CHR 0x0A"] is_digit_not_newline(1)
  by (auto simp: itoa_def simp del: is_digit_not_newline)

lemma atoi_itoa:
  assumes "- (2 ^ 63) \<le> i" and "i < 2 ^ 63"
  shows "atoi (itoa i) = (i, None)"
proof (cases "i < 0")
  case True
  then have "parse_uint (nat_digits (nat (- i))) 0 = (nat (- i), None)"
    using assms by (intro parse_uint_nat_digits) simp
  then show ?thesis using True assms by (auto simp: atoi_def itoa_def)
next
  case False
  have p: "parse_uint (nat_digits (nat i)) 0 = (nat i, None)"
    using assms False by (intro parse_uint_nat_digits) simp
  obtain c cs where c: "nat_digits (nat i) = c # cs"
    by (meson nat_digits_neq_Nil neq_Nil_conv)
  then have "is_digit c" using nat_digits_is_digit [of c "nat i"] by simp
  then have "c \<noteq> CHR ''-''" "c \<noteq> CHR ''+''" by auto
  then show ?thesis using False assms p c by (auto simp: atoi_def itoa_def)
qed

lemma nat_digits_inj: "m < 2 ^ 64 \<Longrightarrow> n < 2 ^ 64 \<Longrightarrow> nat_digits m = nat_digits n \<Longrightarrow> m = n"
  by (metis Pair_inject parse_uint_nat_digits)

section \<open>Correctness of binary search\<close>

lemma search_loop_bounds: "i \<le> j \<Longrightarrow> i \<le> search_loop f i j \<and> search_loop f i j \<le> j"
proof (induction f i j rule: search_loop.induct)
  case (1 f i j)
  then show ?case by (fastforce simp: search_loop.simps [of f i j] Let_def)
qed

lemma search_loop_least:
  assumes "i \<le> j" and mono: "\<And>a b. a \<le> b \<Longrightarrow> b < n \<Longrightarrow> f a \<Longrightarrow> f b" and "j \<le> n"
    and "\<forall>a < i. \<not> f a" and "\<forall>a. j \<le> a \<and> a < n \<longrightarrow> f a"
  shows "(\<forall>a < search_loop f i j. \<not> f a) \<and> (\<forall>a. search_loop f i j \<le> a \<and> a < n \<longrightarrow> f a)"
  using assms(1,3,4,5)
proof (induction "j - i" arbitrary: i j rule: less_induct)
  case less
  let ?m = "(i + j) div 2"
  show ?case
  proof (cases "i < j")
    case False
    then have "search_loop f i j = i" by (simp add: search_loop.simps [of f i j])
    with False less.prems show ?thesis by auto
  next
    case ij: True
    show ?thesis
    proof (cases "f ?m")
      case True
      have up: "\<forall>a. ?m \<le> a \<and> a < n \<longrightarrow> f a" using mono True by auto
      have "search_loop f i j = search_loop f i ?m"
        using ij True by (simp add: search_loop.simps [of f i j] Let_def)
      moreover have "?m - i < j - i" "i \<le> ?m" "?m \<le> n" using ij less.prems(2) by auto
      ultimately show ?thesis using less.hyps [of ?m i] less.prems(3) up by simp
    next
      case False
      have "?m < n" using ij less.prems(2) by simp
      then have down: "\<forall>a < ?m + 1. \<not> f a" using mono [of _ ?m] False
        by (metis Suc_eq_plus1 less_Suc_eq_le)
      have "search_loop f i j = search_loop f (?m + 1) j"
        using ij False by (simp add: search_loop.simps [of f i j] Let_def)
      moreover have "j - (?m + 1) < j - i" "?m + 1 \<le> j" using ij by auto
      ultimately show ?thesis using less.hyps [of j "?m + 1"] less.prems(2,4) down by simp
    qed
  qed
qed

text \<open>
  The contract of \<open>sort.Search\<close>: on a predicate that stays true once it is true, the
  result splits the indices into those where it fails and those where it holds.
\<close>

lemma sort_Search_spec:
  assumes "\<And>a b. a \<le> b \<Longrightarrow> b < n \<Longrightarrow> f a \<Longrightarrow> f b"
  shows "(\<forall>a < sort_Search n f. \<not> f a) \<and> (\<forall>a. sort_Search n f \<le> a \<and> a < n \<longrightarrow> f a)"
  unfolding sort_Search_def by (rule search_loop_least) (use assms in auto)

lemma sort_Search_le [simp]: "sort_Search n f \<le> n"
  using search_loop_bounds [of 0 n f] by (simp add: sort_Search_def)

section \<open>Association lists\<close>

lemma find_key: "find (\<lambda>x. fst x = k) xs = map_option (Pair k) (map_of xs k)"
  by (induction xs) auto

lemma map_eqI_Some: "(\<And>x v. m x = Some v \<longleftrightarrow> m' x = Some v) \<Longrightarrow> m = m'"
  by (rule ext) (metis not_None_eq)

lemma fold_map_upd: "fold (\<lambda>it m. m(fst it \<mapsto> snd it)) xs m = m ++ map_of (rev xs)"
  by (induction xs arbitrary: m) (auto simp: map_add_def fun_eq_iff split: option.split)

section \<open>Sorted permutations\<close>

lemma sorted_perm_unique:
  assumes "mset xs = mset ys" and "sorted (map key xs)" and "sorted (map key ys)" and "inj_on key (set ys)"
  shows "xs = ys"
proof -
  have "mset (map key xs) = mset (map key ys)" using assms(1) by simp
  then have "map key xs = map key ys" using assms(2,3) by (metis properties_for_sort sorted_sort_id)
  moreover have "set xs = set ys" using assms(1) mset_eq_setD by blast
  ultimately show ?thesis using assms(4) by (simp add: inj_on_map_eq_map)
qed

section \<open>The contract of sort.Slice\<close>

text \<open>
  \<open>sort.Slice\<close> permutes a slice so that it is ordered by the key its comparison reads; it
  promises nothing about the order of elements with equal keys. The sorter is a parameter
  of the operations that call it, and this is all they may rely on.
\<close>

locale slice_sort =
  fixes key :: "'a \<Rightarrow> 'k::linorder" and srt :: "'a list \<Rightarrow> 'a list"
  assumes srt_mset: "mset (srt xs) = mset xs"
    and srt_sorted: "sorted (map key (srt xs))"
begin

lemma srt_set [simp]: "set (srt xs) = set xs"
  using srt_mset mset_eq_setD by blast

lemma srt_length [simp]: "length (srt xs) = length xs"
  using srt_mset mset_eq_length by blast

lemma srt_filter_mset: "mset (filter P (srt xs)) = mset (filter P xs)"
  by (simp add: srt_mset)

lemma srt_distinct_keys: "distinct (map key (srt xs)) = distinct (map key xs)"
  by (metis mset_eq_imp_distinct_iff mset_map srt_mset)

lemma srt_unique:
  assumes "inj_on key (set xs)" and "mset ys = mset xs" and "sorted (map key ys)"
  shows "srt xs = ys"
proof (rule sorted_perm_unique [of _ _ key])
  show "mset (srt xs) = mset ys" by (simp add: srt_mset assms(2))
  show "inj_on key (set ys)" using assms(1,2) mset_eq_setD by metis
qed (use srt_sorted assms(3) in auto)

end

interpretation stable_sort: slice_sort key "sort_key key" for key :: "'a \<Rightarrow> 'k::linorder"
  by unfold_locales simp_all

section \<open>Runs of labelled steps\<close>

text \<open>
  The goroutines of a component are a labelled step relation; a run is a sequence of steps with its labels.
\<close>

inductive lts_run :: "('s \<Rightarrow> 'l \<Rightarrow> 's \<Rightarrow> bool) \<Rightarrow> 's \<Rightarrow> 'l list \<Rightarrow> 's \<Rightarrow> bool" for step where
  run_nil: "lts_run step s [] s"
| run_cons: "step s l s1 \<Longrightarrow> lts_run step s1 ls s' \<Longrightarrow> lts_run step s (l # ls) s'"

inductive_simps lts_run_Nil [simp]: "lts_run step s [] s'"

inductive_simps lts_run_Cons: "lts_run step s (l # ls) s'"

lemma lts_run_invariant:
  assumes "lts_run step s ls s'" and "P s" and "\<And>s l s'. step s l s' \<Longrightarrow> P s \<Longrightarrow> P s'"
  shows "P s'"
  using assms(1,2) by (induction rule: lts_run.induct) (auto intro: assms(3))

lemma lts_run_append: "lts_run step s (ls @ ks) s' \<longleftrightarrow> (\<exists>s1. lts_run step s ls s1 \<and> lts_run step s1 ks s')"
  by (induction ls arbitrary: s) (auto simp: lts_run_Cons)

text \<open>
  A component with a bounded amount of work: each step of its own uses some of it up, and only what the
  outside does adds to it. Then in every run the number of its own steps is bounded.
\<close>

locale bounded_work =
  fixes step :: "'s \<Rightarrow> 'l \<Rightarrow> 's \<Rightarrow> bool" and own :: "'l \<Rightarrow> bool" and work :: "'s \<Rightarrow> nat" and added :: "'l \<Rightarrow> nat"
  assumes own_step: "step s l s' \<Longrightarrow> own l \<Longrightarrow> work s' < work s"
    and outside_step: "step s l s' \<Longrightarrow> \<not> own l \<Longrightarrow> work s' \<le> work s + added l"
begin

lemma own_steps_bounded:
  "lts_run step s ls s' \<Longrightarrow>
    length (filter own ls) + work s' \<le> work s + sum_list (map added (filter (\<lambda>l. \<not> own l) ls))"
proof (induction rule: lts_run.induct)
  case (run_cons s l s1 ls s')
  then show ?case using own_step [of s l s1] outside_step [of s l s1] by (cases "own l") auto
qed simp

lemma own_steps_end: "wfp (\<lambda>s' s. \<exists>l. own l \<and> step s l s')"
  by (rule wfp_if_convertible_to_nat [of _ work]) (auto dest: own_step)

end

end
