(* ===== verification/Store.thy ===== *)
theory Store
  imports Prelude
begin

text \<open>
  The versioned key-value store, \<open>src/pkg/store/store.go\<close>. Each operation holds the
  store's lock from its first statement to its last, so each is one step on the state.

  The ordered tree is \<open>github.com/google/btree\<close>. It is a parameter: the record of its
  operations the store calls, with the documented contract stated by the locale
  \<open>ordered_tree\<close>. The store's own contract towards its clients is the locale
  \<open>lww_replica\<close>: a last-writer-wins map under merging, which converges.
\<close>

section \<open>Entries and their order\<close>

record Entry =
  Value :: string
  Version :: int64
  Origin :: string
  Deleted :: bool

type_synonym item = "string \<times> Entry"

definition zero_entry :: Entry where
  "zero_entry = \<lparr>Value = [], Version = 0, Origin = [], Deleted = False\<rparr>"

definition less_item :: "item \<Rightarrow> item \<Rightarrow> bool" where
  "less_item a b \<longleftrightarrow> fst a < fst b"

definition newer :: "Entry \<Rightarrow> Entry \<Rightarrow> bool" where
  "newer a b =
     (if Version a \<noteq> Version b then sint (Version b) < sint (Version a)
      else if Origin a \<noteq> Origin b then Origin b < Origin a
      else if Deleted a \<noteq> Deleted b then Deleted a
      else Value b < Value a)"

section \<open>The ordered tree the store relies on\<close>

text \<open>
  \<open>bt_get\<close> is \<open>Get\<close>, \<open>bt_replace\<close> is \<open>ReplaceOrInsert\<close>, \<open>bt_ascend\<close> the items in the
  order \<open>Ascend\<close> visits them, \<open>bt_ascend_range\<close> those of \<open>AscendRange(lo, hi)\<close>.
\<close>

record 't btree =
  bt_new :: "nat \<Rightarrow> (item \<Rightarrow> item \<Rightarrow> bool) \<Rightarrow> 't"
  bt_get :: "'t \<Rightarrow> item \<Rightarrow> item option"
  bt_replace :: "'t \<Rightarrow> item \<Rightarrow> 't"
  bt_ascend :: "'t \<Rightarrow> item list"
  bt_ascend_range :: "'t \<Rightarrow> item \<Rightarrow> item \<Rightarrow> item list"

locale ordered_tree =
  fixes B :: "'t btree"
  assumes ascend_new: "bt_ascend B (bt_new B degree less_item) = []"
    and ascend_sorted: "sorted_wrt less_item (bt_ascend B t)"
    and get_ascend: "bt_get B t it = find (\<lambda>x. \<not> less_item x it \<and> \<not> less_item it x) (bt_ascend B t)"
    and replace_ascend: "set (bt_ascend B (bt_replace B t it)) =
      insert it {x \<in> set (bt_ascend B t). less_item x it \<or> less_item it x}"
    and ascend_range: "bt_ascend_range B t lo hi =
      filter (\<lambda>x. \<not> less_item x lo \<and> less_item x hi) (bt_ascend B t)"

section \<open>The store\<close>

record 't Store =
  tree :: 't
  clock :: int64
  len :: int

definition New :: "'t btree \<Rightarrow> 't Store" where
  "New B = \<lparr>tree = bt_new B 32 less_item, clock = 0, len = 0\<rparr>"

abbreviation tree_get :: "'t btree \<Rightarrow> 't Store \<Rightarrow> string \<Rightarrow> item option" where
  "tree_get B s key \<equiv> bt_get B (tree s) (key, zero_entry)"

definition SetFrom :: "'t btree \<Rightarrow> string \<Rightarrow> string \<Rightarrow> string \<Rightarrow> 't Store \<Rightarrow> Entry \<times> 't Store" where
  "SetFrom B key val origin s =
     (let s1 = s\<lparr>clock := clock s + 1\<rparr>;
          entry = \<lparr>Value = val, Version = clock s1, Origin = origin, Deleted = False\<rparr>
      in case tree_get B s1 key of
           None \<Rightarrow> (entry, s1\<lparr>len := len s1 + 1, tree := bt_replace B (tree s1) (key, entry)\<rparr>)
         | Some old \<Rightarrow>
             if newer entry (snd old)
             then (entry, s1\<lparr>len := (if Deleted (snd old) then len s1 + 1 else len s1),
                             tree := bt_replace B (tree s1) (key, entry)\<rparr>)
             else (entry, s1))"

definition Set :: "'t btree \<Rightarrow> string \<Rightarrow> string \<Rightarrow> 't Store \<Rightarrow> int64 \<times> 't Store" where
  "Set B key val s = (case SetFrom B key val [] s of (entry, s') \<Rightarrow> (Version entry, s'))"

definition SetWithVersion :: "'t btree \<Rightarrow> string \<Rightarrow> Entry \<Rightarrow> 't Store \<Rightarrow> bool \<times> 't Store" where
  "SetWithVersion B key entry s =
     (let old = tree_get B s key
      in if (case old of None \<Rightarrow> False | Some o' \<Rightarrow> \<not> newer entry (snd o')) then (False, s)
         else
           let n = (if \<not> Deleted entry \<and> (case old of None \<Rightarrow> True | Some o' \<Rightarrow> Deleted (snd o'))
                    then len s + 1
                    else if Deleted entry \<and> (case old of None \<Rightarrow> False | Some o' \<Rightarrow> \<not> Deleted (snd o'))
                    then len s - 1
                    else len s);
               s1 = s\<lparr>len := n, tree := bt_replace B (tree s) (key, entry)\<rparr>
           in (True, if sint (clock s1) < sint (Version entry) then s1\<lparr>clock := Version entry\<rparr> else s1))"

definition Get :: "'t btree \<Rightarrow> string \<Rightarrow> 't Store \<Rightarrow> string \<times> int64 \<times> bool" where
  "Get B key s =
     (case tree_get B s key of
        None \<Rightarrow> ([], 0, False)
      | Some it \<Rightarrow>
          if Deleted (snd it) then ([], 0, False) else (Value (snd it), Version (snd it), True))"

definition Snapshot :: "'t btree \<Rightarrow> 't Store \<Rightarrow> (string \<rightharpoonup> Entry)" where
  "Snapshot B s = fold (\<lambda>it cp. cp(fst it \<mapsto> snd it)) (bt_ascend B (tree s)) Map.empty"

definition Range :: "'t btree \<Rightarrow> string \<Rightarrow> string \<Rightarrow> 't Store \<Rightarrow> Entry list" where
  "Range B start end' s =
     fold (\<lambda>it out. if \<not> Deleted (snd it) then out @ [snd it] else out)
       (bt_ascend_range B (tree s) (start, zero_entry) (end', zero_entry)) []"

text \<open>
  \<open>Iterate\<close> runs a callback over the live items in key order and stops when it returns
  false. The callback is a state transformer returning its verdict.
\<close>

fun iterate_items :: "(string \<Rightarrow> Entry \<Rightarrow> 'a \<Rightarrow> bool \<times> 'a) \<Rightarrow> item list \<Rightarrow> 'a \<Rightarrow> 'a" where
  "iterate_items fn [] acc = acc"
| "iterate_items fn (it # its) acc =
     (if Deleted (snd it) then iterate_items fn its acc
      else case fn (fst it) (snd it) acc of
             (True, acc') \<Rightarrow> iterate_items fn its acc'
           | (False, acc') \<Rightarrow> acc')"

definition Iterate :: "'t btree \<Rightarrow> (string \<Rightarrow> Entry \<Rightarrow> 'a \<Rightarrow> bool \<times> 'a) \<Rightarrow> 't Store \<Rightarrow> 'a \<Rightarrow> 'a" where
  "Iterate B fn s acc = iterate_items fn (bt_ascend B (tree s)) acc"

definition Len :: "'t Store \<Rightarrow> int" where
  "Len s = len s"

text \<open>The loop of \<open>Del\<close>, with its count and its map of tombstones.\<close>

fun del_loop :: "'t btree \<Rightarrow> string \<Rightarrow> string list \<Rightarrow> int \<Rightarrow> (string \<rightharpoonup> Entry) \<Rightarrow> 't Store
    \<Rightarrow> int \<times> (string \<rightharpoonup> Entry) \<times> 't Store" where
  "del_loop B origin [] n tombstones s = (n, tombstones, s)"
| "del_loop B origin (key # keys) n tombstones s =
     (if tombstones key \<noteq> None then del_loop B origin keys n tombstones s
      else
        let live = (case tree_get B s key of None \<Rightarrow> False | Some old \<Rightarrow> \<not> Deleted (snd old));
            n' = (if live then n + 1 else n);
            s1 = (if live then s\<lparr>len := len s - 1\<rparr> else s);
            s2 = s1\<lparr>clock := clock s1 + 1\<rparr>;
            entry = \<lparr>Value = [], Version = clock s2, Origin = origin, Deleted = True\<rparr>;
            s3 = s2\<lparr>tree := bt_replace B (tree s2) (key, entry)\<rparr>
        in del_loop B origin keys n' (tombstones(key \<mapsto> entry)) s3)"

definition Del :: "'t btree \<Rightarrow> string \<Rightarrow> string list \<Rightarrow> 't Store
    \<Rightarrow> int \<times> (string \<rightharpoonup> Entry) \<times> 't Store" where
  "Del B origin keys s = del_loop B origin keys 0 Map.empty s"

section \<open>Specification: a last-writer-wins map\<close>

text \<open>What a store holds, as a map; a tombstone is an entry.\<close>

definition contents :: "'t btree \<Rightarrow> 't Store \<Rightarrow> (string \<rightharpoonup> Entry)" where
  "contents B s = map_of (bt_ascend B (tree s))"

definition live :: "(string \<rightharpoonup> Entry) \<Rightarrow> string set" where
  "live m = {k. \<exists>e. m k = Some e \<and> \<not> Deleted e}"

text \<open>The rank of an entry: \<open>newer\<close> is the lexicographic order of the four fields.\<close>

definition entry_rank :: "Entry \<Rightarrow> int \<times> string \<times> bool \<times> string" where
  "entry_rank e = (sint (Version e), Origin e, Deleted e, Value e)"

text \<open>Merging one entry into a last-writer-wins map.\<close>

definition lww_put :: "string \<Rightarrow> Entry \<Rightarrow> (string \<rightharpoonup> Entry) \<Rightarrow> (string \<rightharpoonup> Entry)" where
  "lww_put k e m =
     (case m k of None \<Rightarrow> m(k \<mapsto> e) | Some e' \<Rightarrow> if newer e e' then m(k \<mapsto> e) else m)"

text \<open>One map is at least as new as another.\<close>

definition map_newer_eq :: "(string \<rightharpoonup> Entry) \<Rightarrow> (string \<rightharpoonup> Entry) \<Rightarrow> bool" where
  "map_newer_eq m m' \<longleftrightarrow> (\<forall>k e. m k = Some e \<longrightarrow> (\<exists>e'. m' k = Some e' \<and> entry_rank e \<le> entry_rank e'))"

lemma entry_rank_inj [simp]: "entry_rank a = entry_rank b \<longleftrightarrow> a = b"
  by (cases a; cases b) (auto simp: entry_rank_def sint_eq)

lemma newer_iff_rank: "newer a b \<longleftrightarrow> entry_rank b < entry_rank a"
  by (auto simp: newer_def entry_rank_def sint_eq [symmetric])

lemma not_newer_self [simp]: "\<not> newer e e"
  by (simp add: newer_iff_rank)

lemma lww_put_commute: "lww_put k e (lww_put k' e' m) = lww_put k' e' (lww_put k e m)"
proof (rule ext)
  fix x
  show "lww_put k e (lww_put k' e' m) x = lww_put k' e' (lww_put k e m) x"
    by (cases "k = k'"; cases "m k"; cases "m k'")
      (auto simp: lww_put_def newer_iff_rank dest: less_trans)
qed

lemma lww_put_idem: "lww_put k e (lww_put k e m) = lww_put k e m"
  by (auto simp: lww_put_def split: option.split)

lemma lww_put_extensive: "map_newer_eq m (lww_put k e m)"
  by (auto simp: map_newer_eq_def lww_put_def newer_iff_rank split: option.split)

lemma lww_put_covers: "\<exists>e'. lww_put k e m k = Some e' \<and> entry_rank e \<le> entry_rank e'"
  by (auto simp: lww_put_def newer_iff_rank not_less split: option.split)

lemma map_newer_eq_refl [simp]: "map_newer_eq m m"
  by (simp add: map_newer_eq_def)

lemma map_newer_eq_trans: "map_newer_eq a b \<Longrightarrow> map_newer_eq b c \<Longrightarrow> map_newer_eq a c"
  unfolding map_newer_eq_def by (meson order_trans)

lemma map_newer_eq_antisym: "map_newer_eq a b \<Longrightarrow> map_newer_eq b a \<Longrightarrow> a = b"
proof (rule ext)
  fix k
  assume "map_newer_eq a b" and "map_newer_eq b a"
  then show "a k = b k"
    unfolding map_newer_eq_def
    by (cases "a k"; cases "b k") (fastforce dest: antisym)+
qed

interpretation lww: comp_fun_idem "\<lambda>(k, e). lww_put k e"
  by unfold_locales (auto simp: fun_eq_iff lww_put_commute lww_put_idem)

lemma live_upd: "live (m(k \<mapsto> e)) = (if Deleted e then live m - {k} else insert k (live m))"
  by (auto simp: live_def split: if_splits)

lemma card_live_upd:
  assumes "finite (live m)"
  shows "int (card (live (m(k \<mapsto> e)))) = int (card (live m)) +
    (if Deleted e then (if k \<in> live m then - 1 else 0) else (if k \<in> live m then 0 else 1))"
proof (cases "k \<in> live m")
  case True
  then have "0 < card (live m)" using assms by (auto simp: card_gt_0_iff)
  with True show ?thesis by (simp add: live_upd insert_absorb card_Diff_singleton of_nat_diff)
next
  case False
  with assms show ?thesis by (simp add: live_upd)
qed

lemma live_iff: "m k = Some e \<Longrightarrow> k \<in> live m \<longleftrightarrow> \<not> Deleted e"
  by (simp add: live_def)

lemma not_live_None: "m k = None \<Longrightarrow> k \<notin> live m"
  by (simp add: live_def)

section \<open>The interface of a replica, and convergence\<close>

text \<open>
  What the replication layer relies on: merging an entry into a replica's state is merging
  it into the map the replica holds.
\<close>

locale lww_replica =
  fixes view :: "'s \<Rightarrow> (string \<rightharpoonup> Entry)" and merge :: "string \<Rightarrow> Entry \<Rightarrow> 's \<Rightarrow> 's"
  assumes view_merge: "view (merge k e s) = lww_put k e (view s)"
begin

lemma view_fold: "view (fold (\<lambda>(k, e). merge k e) us s) = fold (\<lambda>(k, e). lww_put k e) us (view s)"
  by (induction us arbitrary: s) (auto simp: view_merge)

lemma converges:
  assumes "view s = view s'" and "set us = set vs"
  shows "view (fold (\<lambda>(k, e). merge k e) us s) = view (fold (\<lambda>(k, e). merge k e) vs s')"
proof -
  have "fold (\<lambda>(k, e). lww_put k e) us (view s) = fold (\<lambda>(k, e). lww_put k e) vs (view s')"
    by (simp add: lww.fold_set_fold [symmetric] assms)
  then show ?thesis by (simp add: view_fold)
qed

lemma merge_extensive: "map_newer_eq (view s) (view (merge k e s))"
  by (simp add: view_merge lww_put_extensive)

lemma merge_covers: "\<exists>e'. view (merge k e s) k = Some e' \<and> entry_rank e \<le> entry_rank e'"
  by (simp add: view_merge lww_put_covers)

lemma fold_extensive: "map_newer_eq (view s) (view (fold (\<lambda>(k, e). merge k e) us s))"
proof (induction us arbitrary: s)
  case (Cons u us)
  then show ?case by (cases u) (auto intro: map_newer_eq_trans merge_extensive)
qed simp

end

section \<open>The store implements the specification\<close>

text \<open>
  The invariant that ties the fields together: the length is the number of live keys, and
  no stored version is ahead of the clock.
\<close>

definition len_inv :: "'t btree \<Rightarrow> 't Store \<Rightarrow> bool" where
  "len_inv B s \<longleftrightarrow> len s = int (card (live (contents B s)))"

definition clock_inv :: "'t btree \<Rightarrow> 't Store \<Rightarrow> bool" where
  "clock_inv B s \<longleftrightarrow> (\<forall>k e. contents B s k = Some e \<longrightarrow> sint (Version e) \<le> sint (clock s))"

lemma contents_clock [simp]: "contents B (s\<lparr>clock := c\<rparr>) = contents B s"
  by (simp add: contents_def)

lemma contents_len [simp]: "contents B (s\<lparr>len := n\<rparr>) = contents B s"
  by (simp add: contents_def)

lemma finite_live [simp]: "finite (live (contents B s))"
  by (rule finite_subset [of _ "dom (contents B s)"]) (auto simp: live_def contents_def finite_dom_map_of)

context ordered_tree
begin

lemma ascend_strict: "sorted_wrt (<) (map fst (bt_ascend B t))"
  using ascend_sorted [of t] unfolding sorted_wrt_map less_item_def .

lemma ascend_distinct: "distinct (map fst (bt_ascend B t))"
  using ascend_strict strict_sorted_iff by blast

lemma tree_get_contents: "tree_get B s k = map_option (Pair k) (contents B s k)"
proof -
  have "(\<lambda>x. \<not> less_item x (k, zero_entry) \<and> \<not> less_item (k, zero_entry) x) = (\<lambda>x. fst x = k)"
    by (auto simp: less_item_def)
  then show ?thesis by (simp add: get_ascend contents_def find_key)
qed

lemma replace_map_of: "map_of (bt_ascend B (bt_replace B t (k, e))) = (map_of (bt_ascend B t))(k \<mapsto> e)"
  by (rule map_eqI_Some)
    (auto simp: map_of_eq_Some_iff [OF ascend_distinct] replace_ascend less_item_def)

lemma contents_New: "contents B (New B) = Map.empty"
  by (simp add: contents_def New_def ascend_new)

lemma contents_SetWithVersion:
  "contents B (snd (SetWithVersion B k e s)) = lww_put k e (contents B s)"
  by (cases "contents B s k")
    (simp_all add: SetWithVersion_def tree_get_contents lww_put_def Let_def contents_def replace_map_of)

lemma SetWithVersion_accepts:
  "fst (SetWithVersion B k e s) = (case contents B s k of None \<Rightarrow> True | Some e' \<Rightarrow> newer e e')"
  by (auto simp: SetWithVersion_def tree_get_contents Let_def split: option.split)

lemma contents_SetFrom:
  "contents B (snd (SetFrom B k v orig s)) = lww_put k (fst (SetFrom B k v orig s)) (contents B s)"
  by (cases "contents B s k")
    (simp_all add: SetFrom_def tree_get_contents lww_put_def Let_def contents_def replace_map_of)

lemma SetFrom_entry:
  "fst (SetFrom B k v orig s) = \<lparr>Value = v, Version = clock s + 1, Origin = orig, Deleted = False\<rparr>"
  "clock (snd (SetFrom B k v orig s)) = clock s + 1"
  by (auto simp: SetFrom_def Let_def split: option.split)

lemma len_inv_SetWithVersion: "len_inv B s \<Longrightarrow> len_inv B (snd (SetWithVersion B k e s))"
  unfolding len_inv_def contents_SetWithVersion
  by (cases "contents B s k")
    (simp_all add: SetWithVersion_def tree_get_contents lww_put_def Let_def live_iff
      not_live_None card_live_upd)

lemma len_inv_SetFrom: "len_inv B s \<Longrightarrow> len_inv B (snd (SetFrom B k v orig s))"
  unfolding len_inv_def contents_SetFrom SetFrom_entry
  by (cases "contents B s k")
    (simp_all add: SetFrom_def tree_get_contents lww_put_def Let_def live_iff
      not_live_None card_live_upd)

lemma clock_inv_step:
  assumes "clock_inv B s" and "sint (clock s) \<le> sint (clock s')"
    and "\<And>k e. contents B s' k = Some e \<Longrightarrow>
      contents B s k = Some e \<or> sint (Version e) \<le> sint (clock s')"
  shows "clock_inv B s'"
  using assms unfolding clock_inv_def by (meson order_trans)

lemma SetWithVersion_clock:
  "sint (clock (snd (SetWithVersion B k e s))) =
    (if fst (SetWithVersion B k e s) then max (sint (clock s)) (sint (Version e)) else sint (clock s))"
  by (cases "contents B s k") (simp_all add: SetWithVersion_def tree_get_contents Let_def)

lemma clock_inv_SetWithVersion: "clock_inv B s \<Longrightarrow> clock_inv B (snd (SetWithVersion B k e s))"
  by (rule clock_inv_step [of s])
    (auto simp: SetWithVersion_clock contents_SetWithVersion SetWithVersion_accepts lww_put_def
      split: option.splits if_splits)

lemma clock_inv_SetFrom:
  assumes "clock_inv B s" and "sint (clock s) < 2 ^ 63 - 1"
  shows "clock_inv B (snd (SetFrom B k v orig s))"
  by (rule clock_inv_step [OF assms(1)])
    (use assms(2) in \<open>auto simp: SetFrom_entry sint64_inc contents_SetFrom lww_put_def
      split: option.splits if_splits\<close>)

text \<open>A local write is newer than everything stored, so it takes effect.\<close>

lemma fresh_version_newer:
  assumes "clock_inv B s" and "sint (clock s) < 2 ^ 63 - 1" and "contents B s k = Some e'"
    and "Version e = clock s + 1"
  shows "newer e e'"
proof -
  have "sint (Version e') < sint (Version e)"
    using assms by (auto simp: clock_inv_def sint64_inc)
  then show ?thesis by (simp add: newer_iff_rank entry_rank_def)
qed

lemma SetFrom_stores:
  assumes "clock_inv B s" and "sint (clock s) < 2 ^ 63 - 1"
  shows "contents B (snd (SetFrom B k v orig s)) = (contents B s)(k \<mapsto> fst (SetFrom B k v orig s))"
  using fresh_version_newer [OF assms]
  by (auto simp: contents_SetFrom lww_put_def SetFrom_entry split: option.split)

lemma Get_contents:
  "Get B k s = (case contents B s k of None \<Rightarrow> ([], 0, False)
     | Some e \<Rightarrow> if Deleted e then ([], 0, False) else (Value e, Version e, True))"
  by (auto simp: Get_def tree_get_contents split: option.split)

lemma Snapshot_contents: "Snapshot B s = contents B s"
proof -
  have "map_of (rev (bt_ascend B (tree s))) = map_of (bt_ascend B (tree s))"
    by (metis ascend_distinct distinct_rev map_of_inject_set rev_map set_rev)
  then show ?thesis by (simp add: Snapshot_def contents_def fold_map_upd)
qed

lemma del_loop_skip: "ts k \<noteq> None \<Longrightarrow> del_loop B orig (k # ks) n ts s = del_loop B orig ks n ts s"
  by simp

lemma del_loop_step:
  assumes "ts k = None"
  obtains s1 e where "del_loop B orig (k # ks) n ts s =
      del_loop B orig ks (if k \<in> live (contents B s) then n + 1 else n) (ts(k \<mapsto> e)) s1"
    and "e = \<lparr>Value = [], Version = clock s + 1, Origin = orig, Deleted = True\<rparr>"
    and "contents B s1 = (contents B s)(k \<mapsto> e)" and "clock s1 = clock s + 1"
    and "len s1 = (if k \<in> live (contents B s) then len s - 1 else len s)"
proof -
  let ?live = "k \<in> live (contents B s)"
  let ?e = "\<lparr>Value = [], Version = clock s + 1, Origin = orig, Deleted = True\<rparr>"
  let ?s1 = "s\<lparr>len := if ?live then len s - 1 else len s, clock := clock s + 1,
    tree := bt_replace B (tree s) (k, ?e)\<rparr>"
  have "(case tree_get B s k of None \<Rightarrow> False | Some old \<Rightarrow> \<not> Deleted (snd old)) = ?live"
    by (auto simp: tree_get_contents live_def split: option.split)
  then have "del_loop B orig (k # ks) n ts s =
      del_loop B orig ks (if ?live then n + 1 else n) (ts(k \<mapsto> ?e)) ?s1"
    using assms by (cases ?live) (simp_all add: Let_def)
  moreover have "contents B ?s1 = (contents B s)(k \<mapsto> ?e)"
    by (simp add: contents_def replace_map_of)
  ultimately show ?thesis using that by simp
qed

lemma del_loop_spec:
  assumes "del_loop B orig keys n ts s = (n', ts', s')"
  shows "dom ts' = dom ts \<union> set keys \<and> ts \<subseteq>\<^sub>m ts' \<and>
    (\<forall>k. contents B s' k = (if k \<in> set keys - dom ts then ts' k else contents B s k)) \<and>
    (\<forall>k e. k \<notin> dom ts \<longrightarrow> ts' k = Some e \<longrightarrow> Deleted e \<and> Origin e = orig \<and> Value e = []) \<and>
    n' = n + int (card (live (contents B s) \<inter> (set keys - dom ts))) \<and> len s' - len s = n - n'"
  using assms
proof (induction keys arbitrary: n ts s)
  case Nil
  then show ?case by auto
next
  case (Cons k ks)
  show ?case
  proof (cases "ts k")
    case (Some a)
    then have "set (k # ks) - dom ts = set ks - dom ts" by auto
    with Some Cons.IH [of n ts s] Cons.prems show ?thesis by auto
  next
    case None
    from del_loop_step [of ts k orig ks n s, OF None] obtain s1 e where step:
      "del_loop B orig (k # ks) n ts s =
        del_loop B orig ks (if k \<in> live (contents B s) then n + 1 else n) (ts(k \<mapsto> e)) s1"
      "e = \<lparr>Value = [], Version = clock s + 1, Origin = orig, Deleted = True\<rparr>"
      "contents B s1 = (contents B s)(k \<mapsto> e)" "clock s1 = clock s + 1"
      "len s1 = (if k \<in> live (contents B s) then len s - 1 else len s)" .
    let ?X = "live (contents B s1) \<inter> (set ks - dom (ts(k \<mapsto> e)))"
    have "live (contents B s) \<inter> (set (k # ks) - dom ts) = (if k \<in> live (contents B s) then insert k ?X else ?X)"
      using None step(2,3) by (auto simp: live_upd)
    moreover have "k \<notin> ?X" "finite ?X" by auto
    ultimately have card: "int (card (live (contents B s) \<inter> (set (k # ks) - dom ts))) =
      (if k \<in> live (contents B s) then 1 else 0) + int (card ?X)" by simp
    note IH = Cons.IH [OF Cons.prems [unfolded step(1)]]
    then have "ts(k \<mapsto> e) \<subseteq>\<^sub>m ts'" by blast
    then have ts_k: "ts' k = Some e" by (metis domI fun_upd_same map_le_def)
    show ?thesis
    proof (intro conjI allI impI)
      show "dom ts' = dom ts \<union> set (k # ks)" using IH by auto
      show "ts \<subseteq>\<^sub>m ts'" using IH None by (auto simp: map_le_def dom_def)
      show "contents B s' k' = (if k' \<in> set (k # ks) - dom ts then ts' k' else contents B s k')" for k'
        using IH None ts_k step(3) by (cases "k' = k") auto
      show "n' = n + int (card (live (contents B s) \<inter> (set (k # ks) - dom ts)))"
        using IH card by (simp del: fun_upd_apply)
      show "len s' - len s = n - n'" using IH step(5) by (simp split: if_splits)
      fix k' e'
      assume "k' \<notin> dom ts" and "ts' k' = Some e'"
      then have "Deleted e' \<and> Origin e' = orig \<and> Value e' = []"
        using IH ts_k step(2) by (cases "k' = k") (auto simp del: fun_upd_apply)
      then show "Deleted e'" and "Origin e' = orig" and "Value e' = []" by auto
    qed
  qed
qed

lemma del_loop_clock:
  assumes "del_loop B orig keys n ts s = (n', ts', s')" and "clock_inv B s"
    and "sint (clock s) + int (length keys) < 2 ^ 63"
  shows "clock_inv B s' \<and> sint (clock s) \<le> sint (clock s') \<and>
    (\<forall>k e. k \<notin> dom ts \<longrightarrow> ts' k = Some e \<longrightarrow> sint (clock s) < sint (Version e))"
  using assms
proof (induction keys arbitrary: n ts s)
  case Nil
  then show ?case by auto
next
  case (Cons k ks)
  show ?case
  proof (cases "ts k")
    case (Some a)
    with Cons.IH [of n ts s] Cons.prems show ?thesis by auto
  next
    case None
    from del_loop_step [of ts k orig ks n s, OF None] obtain s1 e where step:
      "del_loop B orig (k # ks) n ts s =
        del_loop B orig ks (if k \<in> live (contents B s) then n + 1 else n) (ts(k \<mapsto> e)) s1"
      "e = \<lparr>Value = [], Version = clock s + 1, Origin = orig, Deleted = True\<rparr>"
      "contents B s1 = (contents B s)(k \<mapsto> e)" "clock s1 = clock s + 1"
      "len s1 = (if k \<in> live (contents B s) then len s - 1 else len s)" .
    have c: "sint (clock s1) = sint (clock s) + 1"
      using Cons.prems(3) step(4) by (simp add: sint64_inc)
    have "clock_inv B s1"
      by (rule clock_inv_step [OF Cons.prems(2)]) (use c step(2,3,4) in \<open>auto split: if_splits\<close>)
    moreover have "sint (clock s1) + int (length ks) < 2 ^ 63" using c Cons.prems(3) by simp
    ultimately have IH: "clock_inv B s' \<and> sint (clock s1) \<le> sint (clock s') \<and>
        (\<forall>k' e'. k' \<notin> dom (ts(k \<mapsto> e)) \<longrightarrow> ts' k' = Some e' \<longrightarrow> sint (clock s1) < sint (Version e'))"
      using Cons.IH Cons.prems(1) step(1) by metis
    moreover have "ts' k = Some e"
      using del_loop_spec [OF Cons.prems(1) [unfolded step(1)]] by (metis domI fun_upd_same map_le_def)
    ultimately have "sint (clock s) < sint (Version e')" if "k' \<notin> dom ts" and "ts' k' = Some e'" for k' e'
      using that c step(2,4) by (cases "k' = k") (force simp del: fun_upd_apply)+
    then show ?thesis using IH c by auto
  qed
qed

lemma Del_spec:
  assumes "Del B orig keys s = (n, ts, s')"
  shows "dom ts = set keys"
    and "contents B s' = contents B s ++ ts"
    and "ts k = Some e \<Longrightarrow> Deleted e \<and> Origin e = orig \<and> Value e = []"
    and "n = int (card (live (contents B s) \<inter> set keys))" and "len s' = len s - n"
proof -
  note spec = del_loop_spec [OF assms [unfolded Del_def]]
  show "dom ts = set keys" using spec by simp
  then have "k \<in> set keys \<longleftrightarrow> ts k \<noteq> None" for k by (auto simp: dom_def)
  then show "contents B s' = contents B s ++ ts"
    using spec by (auto simp: fun_eq_iff map_add_def split: option.splits)
  show "ts k = Some e \<Longrightarrow> Deleted e \<and> Origin e = orig \<and> Value e = []"
    using spec by blast
  show "n = int (card (live (contents B s) \<inter> set keys))" and "len s' = len s - n" using spec by auto
qed

lemma len_inv_Del:
  assumes "Del B orig keys s = (n, ts, s')" and "len_inv B s"
  shows "len_inv B s'"
proof -
  note spec = Del_spec [OF assms(1)]
  have "k \<in> live (contents B s') \<longleftrightarrow> k \<in> live (contents B s) - set keys" for k
    using spec(2) spec(3) [of k] spec(1)
    by (cases "ts k") (auto simp: live_def map_add_def domIff [symmetric])
  then have "live (contents B s') = live (contents B s) - set keys" by blast
  then have "int (card (live (contents B s'))) = int (card (live (contents B s))) - n"
    using spec(4) card_Diff_subset_Int [of "live (contents B s)" "set keys"]
      card_mono [of "live (contents B s)" "live (contents B s) \<inter> set keys"]
    by (simp add: of_nat_diff)
  then show ?thesis using assms(2) spec(5) by (simp add: len_inv_def)
qed

lemma clock_inv_Del:
  assumes "Del B orig keys s = (n, ts, s')" and "clock_inv B s"
    and "sint (clock s) + int (length keys) < 2 ^ 63"
  shows "clock_inv B s'" and "sint (clock s) \<le> sint (clock s')"
    and "ts k = Some e \<Longrightarrow> sint (clock s) < sint (Version e)"
  using del_loop_clock [OF assms(1) [unfolded Del_def] assms(2,3)] by auto

text \<open>The live items in key order, which \<open>Range\<close> and \<open>Iterate\<close> walk.\<close>

lemma Range_items:
  "Range B lo hi s = map snd (filter (\<lambda>it. lo \<le> fst it \<and> fst it < hi \<and> \<not> Deleted (snd it)) (bt_ascend B (tree s)))"
proof -
  have "fold (\<lambda>it out. if \<not> Deleted (snd it) then out @ [snd it] else out) its acc
      = acc @ map snd (filter (\<lambda>it. \<not> Deleted (snd it)) its)" for its :: "item list" and acc
    by (induction its arbitrary: acc) auto
  then show ?thesis
    by (simp add: Range_def ascend_range less_item_def not_less conj_ac)
qed

lemma iterate_items_all:
  "iterate_items (\<lambda>k e acc. (True, f k e acc)) its acc =
    fold (\<lambda>it. f (fst it) (snd it)) (filter (\<lambda>it. \<not> Deleted (snd it)) its) acc"
  by (induction its arbitrary: acc) auto

end

text \<open>A store over any ordered tree is a replica.\<close>

sublocale ordered_tree \<subseteq> replica: lww_replica "contents B" "\<lambda>k e s. snd (SetWithVersion B k e s)"
  by unfold_locales (rule contents_SetWithVersion)

section \<open>A tree with the contract\<close>

text \<open>
  Association lists sorted by key satisfy the contract of \<open>ordered_tree\<close>, so it is
  consistent, and closed instances of the theorems can be evaluated on them.
\<close>

fun ins_item :: "item \<Rightarrow> item list \<Rightarrow> item list" where
  "ins_item it [] = [it]"
| "ins_item it (x # xs) =
     (if less_item it x then it # x # xs else if less_item x it then x # ins_item it xs else it # xs)"

lemma set_ins_item:
  "sorted_wrt less_item xs \<Longrightarrow>
    set (ins_item it xs) = insert it {x \<in> set xs. less_item x it \<or> less_item it x}"
  by (induction xs) (auto simp: less_item_def)

lemma sorted_ins_item: "sorted_wrt less_item xs \<Longrightarrow> sorted_wrt less_item (ins_item it xs)"
  by (induction xs) (auto simp: set_ins_item, auto simp: less_item_def)

typedef alist_tree = "{xs :: item list. sorted_wrt less_item xs}"
  morphisms alist_items Alist_tree
  by (rule exI [of _ "[]"]) simp

definition alist_replace :: "alist_tree \<Rightarrow> item \<Rightarrow> alist_tree" where
  "alist_replace t it = Alist_tree (ins_item it (alist_items t))"

definition alist_btree :: "alist_tree btree" where
  "alist_btree = \<lparr>bt_new = \<lambda>_ _. Alist_tree [],
     bt_get = \<lambda>t it. find (\<lambda>x. \<not> less_item x it \<and> \<not> less_item it x) (alist_items t),
     bt_replace = alist_replace, bt_ascend = alist_items,
     bt_ascend_range = \<lambda>t lo hi. filter (\<lambda>x. \<not> less_item x lo \<and> less_item x hi) (alist_items t)\<rparr>"

lemma alist_items_sorted [simp]: "sorted_wrt less_item (alist_items t)"
  using alist_items by simp

lemma alist_items_new [simp]: "alist_items (Alist_tree []) = []"
  by (simp add: Alist_tree_inverse)

lemma alist_items_replace [simp]: "alist_items (alist_replace t it) = ins_item it (alist_items t)"
  by (simp add: alist_replace_def Alist_tree_inverse sorted_ins_item)

interpretation alist: ordered_tree alist_btree
  by unfold_locales (auto simp: alist_btree_def set_ins_item)

section \<open>Runs of the store\<close>

text \<open>The operations that change a store, in any order: what its goroutines do under the lock.\<close>

datatype store_op =
    Op_SetFrom string string string
  | Op_SetWithVersion string Entry
  | Op_Del string "string list"

fun apply_op :: "'t btree \<Rightarrow> store_op \<Rightarrow> 't Store \<Rightarrow> 't Store" where
  "apply_op B (Op_SetFrom k v orig) s = snd (SetFrom B k v orig s)"
| "apply_op B (Op_SetWithVersion k e) s = snd (SetWithVersion B k e s)"
| "apply_op B (Op_Del orig ks) s = snd (snd (Del B orig ks s))"

text \<open>
  An operation whose clock increments do not pass \<open>math.MaxInt64\<close>, and a run of them.
\<close>

fun op_in_range :: "store_op \<Rightarrow> 't Store \<Rightarrow> bool" where
  "op_in_range (Op_SetFrom k v orig) s \<longleftrightarrow> sint (clock s) < 2 ^ 63 - 1"
| "op_in_range (Op_SetWithVersion k e) s \<longleftrightarrow> True"
| "op_in_range (Op_Del orig ks) s \<longleftrightarrow> sint (clock s) + int (length ks) < 2 ^ 63"

fun run_in_range :: "'t btree \<Rightarrow> store_op list \<Rightarrow> 't Store \<Rightarrow> bool" where
  "run_in_range B [] s \<longleftrightarrow> True"
| "run_in_range B (x # xs) s \<longleftrightarrow> op_in_range x s \<and> run_in_range B xs (apply_op B x s)"

context ordered_tree
begin

lemmas merges_converge = replica.converges

lemma live_Get: "live (contents B s) = {k. snd (snd (Get B k s))}"
  by (auto simp: Get_contents live_def split: option.splits if_splits)

lemma len_inv_New: "len_inv B (New B)"
  by (simp add: len_inv_def contents_New live_def) (simp add: New_def)

lemma clock_inv_New: "clock_inv B (New B)"
  by (simp add: clock_inv_def contents_New)

lemma len_inv_apply_op: "len_inv B s \<Longrightarrow> len_inv B (apply_op B x s)"
  by (cases x) (auto simp: len_inv_SetFrom len_inv_SetWithVersion, metis len_inv_Del prod.collapse)

lemma len_inv_run: "len_inv B s \<Longrightarrow> len_inv B (fold (apply_op B) xs s)"
  by (induction xs arbitrary: s) (auto intro: len_inv_apply_op)

lemma clock_inv_apply_op:
  "clock_inv B s \<Longrightarrow> op_in_range x s \<Longrightarrow>
    clock_inv B (apply_op B x s) \<and> sint (clock s) \<le> sint (clock (apply_op B x s))"
proof (cases x)
  case (Op_Del orig ks)
  assume "clock_inv B s" and "op_in_range x s"
  moreover obtain n ts s' where "Del B orig ks s = (n, ts, s')" by (metis prod.collapse)
  ultimately show ?thesis using Op_Del clock_inv_Del [of orig ks s n ts s'] by auto
qed (auto simp: clock_inv_SetFrom clock_inv_SetWithVersion SetFrom_entry SetWithVersion_clock sint64_inc)

lemma clock_inv_run:
  "clock_inv B s \<Longrightarrow> run_in_range B xs s \<Longrightarrow>
    clock_inv B (fold (apply_op B) xs s) \<and> sint (clock s) \<le> sint (clock (fold (apply_op B) xs s))"
  by (induction xs arbitrary: s) (auto dest: clock_inv_apply_op, meson clock_inv_apply_op order_trans)

lemma apply_op_extensive:
  assumes "clock_inv B s" and "op_in_range x s"
  shows "map_newer_eq (contents B s) (contents B (apply_op B x s))"
proof (cases x)
  case (Op_Del orig ks)
  obtain n ts s' where d: "Del B orig ks s = (n, ts, s')" by (metis prod.collapse)
  have "entry_rank e \<le> entry_rank e'" if "contents B s k = Some e" and "ts k = Some e'" for k e e'
  proof -
    have "sint (Version e) < sint (Version e')"
      using clock_inv_Del(3) [OF d assms(1), of k e'] assms that Op_Del
      by (fastforce simp: clock_inv_def)
    then show ?thesis by (simp add: entry_rank_def)
  qed
  then show ?thesis
    using d Del_spec(2) [OF d] Op_Del by (auto simp: map_newer_eq_def map_add_def split: option.splits)
qed (simp_all add: contents_SetFrom contents_SetWithVersion lww_put_extensive)

lemma apply_op_run_extensive:
  "clock_inv B s \<Longrightarrow> run_in_range B xs s \<Longrightarrow>
    map_newer_eq (contents B s) (contents B (fold (apply_op B) xs s))"
proof (induction xs arbitrary: s)
  case (Cons x xs)
  then have "map_newer_eq (contents B (apply_op B x s)) (contents B (fold (apply_op B) xs (apply_op B x s)))"
    using clock_inv_apply_op by auto
  moreover have "map_newer_eq (contents B s) (contents B (apply_op B x s))"
    using Cons.prems by (auto intro: apply_op_extensive)
  ultimately show ?case by (auto intro: map_newer_eq_trans)
qed simp

lemma Range_sorted_keys:
  "Range B lo hi s =
    map (\<lambda>k. the (contents B s k)) (sorted_list_of_set {k \<in> live (contents B s). lo \<le> k \<and> k < hi})"
proof -
  let ?P = "\<lambda>it. lo \<le> fst it \<and> fst it < hi \<and> \<not> Deleted (snd it)"
  let ?its = "filter ?P (bt_ascend B (tree s))"
  have "it \<in> set ?its \<Longrightarrow> the (contents B s (fst it)) = snd it" for it
    by (cases it) (auto simp: contents_def dest: map_of_is_SomeI [OF ascend_distinct])
  then have "map snd ?its = map (\<lambda>k. the (contents B s k)) (map fst ?its)" by simp
  moreover have "map fst ?its = sorted_list_of_set {k \<in> live (contents B s). lo \<le> k \<and> k < hi}"
  proof -
    have strict: "sorted_wrt (<) (map fst ?its)"
      using ascend_strict [of "tree s"] by (simp add: sorted_wrt_map sorted_wrt_filter)
    have "k \<in> set (map fst ?its) \<longleftrightarrow> k \<in> live (contents B s) \<and> lo \<le> k \<and> k < hi" for k
    proof
      assume "k \<in> set (map fst ?its)"
      then obtain e where "(k, e) \<in> set (bt_ascend B (tree s))" "lo \<le> k" "k < hi" "\<not> Deleted e" by auto
      with map_of_is_SomeI [OF ascend_distinct this(1)] show "k \<in> live (contents B s) \<and> lo \<le> k \<and> k < hi"
        by (simp add: live_def contents_def)
    next
      assume k: "k \<in> live (contents B s) \<and> lo \<le> k \<and> k < hi"
      then obtain e where "map_of (bt_ascend B (tree s)) k = Some e" "\<not> Deleted e"
        by (auto simp: live_def contents_def)
      with k have "(k, e) \<in> set ?its" by (simp add: map_of_SomeD)
      then have "fst (k, e) \<in> fst ` set ?its" by (rule imageI)
      then show "k \<in> set (map fst ?its)" by (simp only: set_map fst_conv)
    qed
    then have "set (map fst ?its) = {k \<in> live (contents B s). lo \<le> k \<and> k < hi}" by blast
    moreover have "sorted (map fst ?its)" "distinct (map fst ?its)"
      using strict strict_sorted_iff by blast+
    ultimately show ?thesis
      using sorted_list_of_set.idem_if_sorted_distinct [of "map fst ?its"] by simp
  qed
  ultimately show ?thesis by (simp add: Range_items)
qed

end

text \<open>Entries for the examples.\<close>

definition ex_entry :: "string \<Rightarrow> int64 \<Rightarrow> string \<Rightarrow> bool \<Rightarrow> Entry" where
  "ex_entry v ver orig del = \<lparr>Value = v, Version = ver, Origin = orig, Deleted = del\<rparr>"

section \<open>Properties\<close>

text \<open>
  C3. Strong eventual consistency of the store: two replicas that start with the same
  snapshot and merge the same set of entries with \<open>SetWithVersion\<close> end with the same
  snapshot, whatever the order of the merges and however often each is repeated.
\<close>

theorem store_converges:
  assumes "ordered_tree B" and "Snapshot B s = Snapshot B s'" and "set us = set vs"
  shows "Snapshot B (fold (\<lambda>(k, e) s. snd (SetWithVersion B k e s)) us s) =
    Snapshot B (fold (\<lambda>(k, e) s. snd (SetWithVersion B k e s)) vs s')"
  unfolding ordered_tree.Snapshot_contents [OF assms(1)]
  by (rule ordered_tree.merges_converge [OF assms(1)])
    (use assms ordered_tree.Snapshot_contents in \<open>metis+\<close>)

theorem store_converges_witness:
  "Snapshot alist_btree (fold (\<lambda>(k, e) s. snd (SetWithVersion alist_btree k e s))
      [(''k'', ex_entry ''x'' 1 ''a'' False), (''k'', ex_entry ''y'' 1 ''b'' False)] (New alist_btree)) =
    Snapshot alist_btree (fold (\<lambda>(k, e) s. snd (SetWithVersion alist_btree k e s))
      [(''k'', ex_entry ''y'' 1 ''b'' False), (''k'', ex_entry ''x'' 1 ''a'' False),
       (''k'', ex_entry ''y'' 1 ''b'' False)] (New alist_btree))"
  by (rule store_converges [OF alist.ordered_tree_axioms]) auto

text \<open>
  \<open>newer\<close> is a strict total order on entries, so two replicas always agree on which of
  two entries wins.
\<close>

theorem newer_strict_total_order:
  "\<not> newer a a \<and> (newer a b \<and> newer b c \<longrightarrow> newer a c) \<and> (a = b \<or> newer a b \<or> newer b a)"
  using linorder_less_linear [of "entry_rank a" "entry_rank b"] by (auto simp: newer_iff_rank)

theorem newer_strict_total_order_witness:
  "newer (ex_entry [] 3 [] True) (ex_entry ''v'' 2 ''n'' False) \<and>
   newer (ex_entry ''v'' 2 ''n'' False) (ex_entry ''v'' 2 ''m'' False) \<and>
   newer (ex_entry [] 3 [] True) (ex_entry ''v'' 2 ''m'' False)"
proof -
  have "newer (ex_entry [] 3 [] True) (ex_entry ''v'' 2 ''n'' False)"
    and "newer (ex_entry ''v'' 2 ''n'' False) (ex_entry ''v'' 2 ''m'' False)"
    by (simp_all add: newer_def ex_entry_def)
  then show ?thesis using newer_strict_total_order by blast
qed

text \<open>
  C16. \<open>SetWithVersion\<close> implements the last-writer-wins merge: it accepts an entry exactly
  when the key is absent or the entry is newer than the stored one, then stores it, and
  otherwise changes nothing; the clock moves up to an accepted version and never back.
\<close>

theorem SetWithVersion_refines_lww:
  assumes "ordered_tree B" and "SetWithVersion B k e s = (ok, s')"
  shows "Snapshot B s' = lww_put k e (Snapshot B s) \<and>
    ok = (case Snapshot B s k of None \<Rightarrow> True | Some e' \<Rightarrow> newer e e') \<and> (\<not> ok \<longrightarrow> s' = s) \<and>
    sint (clock s') = (if ok then max (sint (clock s)) (sint (Version e)) else sint (clock s))"
proof -
  have "\<not> ok \<Longrightarrow> s' = s"
    using assms(2) by (auto simp: SetWithVersion_def Let_def split: if_splits)
  then show ?thesis
    using assms(2) ordered_tree.contents_SetWithVersion [OF assms(1), of k e s]
      ordered_tree.SetWithVersion_accepts [OF assms(1), of k e s]
      ordered_tree.SetWithVersion_clock [OF assms(1), of k e s]
    by (simp add: ordered_tree.Snapshot_contents [OF assms(1)])
qed

theorem SetWithVersion_refines_lww_witness:
  "Snapshot alist_btree (snd (SetWithVersion alist_btree ''k'' (ex_entry ''x'' 7 ''a'' False) (New alist_btree))) =
    lww_put ''k'' (ex_entry ''x'' 7 ''a'' False) (Snapshot alist_btree (New alist_btree))"
  using SetWithVersion_refines_lww [OF alist.ordered_tree_axioms surjective_pairing,
      of "''k''" "ex_entry ''x'' 7 ''a'' False" "New alist_btree"] by blast

text \<open>
  C17. \<open>Len\<close> is exact: after any sequence of the operations that change a store, it is the
  number of keys for which \<open>Get\<close> finds a value.
\<close>

theorem Len_counts_live_keys:
  assumes "ordered_tree B" and "s = fold (apply_op B) xs (New B)"
  shows "Len s = int (card {k. snd (snd (Get B k s))})"
  using ordered_tree.len_inv_run [OF assms(1) ordered_tree.len_inv_New [OF assms(1)], of xs] assms
  by (simp add: Len_def len_inv_def ordered_tree.live_Get [OF assms(1)])

theorem Len_counts_live_keys_witness:
  "Len (fold (apply_op alist_btree)
     [Op_SetFrom ''a'' ''1'' ''n'', Op_SetFrom ''b'' ''2'' ''n'', Op_Del ''n'' [''a'', ''c'', ''a'']] (New alist_btree)) =
   int (card {k. snd (snd (Get alist_btree k (fold (apply_op alist_btree)
     [Op_SetFrom ''a'' ''1'' ''n'', Op_SetFrom ''b'' ''2'' ''n'', Op_Del ''n'' [''a'', ''c'', ''a'']] (New alist_btree))))})"
  by (rule Len_counts_live_keys [OF alist.ordered_tree_axioms refl])

text \<open>
  C18. In every run from the empty store whose clock does not overflow, the clock stays at
  or above every stored version and never moves back, and no key ever moves to an older
  entry.
\<close>

theorem store_run_monotone:
  assumes "ordered_tree B" and "run_in_range B (xs @ ys) (New B)"
    and "s = fold (apply_op B) xs (New B)" and "s' = fold (apply_op B) ys s"
  shows "(\<forall>k e. Snapshot B s' k = Some e \<longrightarrow> sint (Version e) \<le> sint (clock s')) \<and>
    sint (clock s) \<le> sint (clock s') \<and> map_newer_eq (Snapshot B s) (Snapshot B s')"
proof -
  have split: "run_in_range B (us @ vs) t \<longleftrightarrow>
      run_in_range B us t \<and> run_in_range B vs (fold (apply_op B) us t)" for us vs t
    by (induction us arbitrary: t) auto
  have s: "clock_inv B s"
    using ordered_tree.clock_inv_run [OF assms(1) ordered_tree.clock_inv_New [OF assms(1)]] assms(2,3) split
    by blast
  have ys: "run_in_range B ys s" using assms(2,3) split by blast
  have "clock_inv B s' \<and> sint (clock s) \<le> sint (clock s')"
    using ordered_tree.clock_inv_run [OF assms(1) s ys] assms(4) by simp
  then show ?thesis
    using ordered_tree.apply_op_run_extensive [OF assms(1) s ys] assms(4)
    by (simp add: clock_inv_def ordered_tree.Snapshot_contents [OF assms(1)])
qed

theorem store_run_monotone_witness:
  "map_newer_eq (Snapshot alist_btree (fold (apply_op alist_btree) [Op_SetFrom ''a'' ''1'' ''n''] (New alist_btree)))
    (Snapshot alist_btree (fold (apply_op alist_btree) [Op_Del ''n'' [''a'']]
      (fold (apply_op alist_btree) [Op_SetFrom ''a'' ''1'' ''n''] (New alist_btree))))"
proof -
  have "run_in_range alist_btree ([Op_SetFrom ''a'' ''1'' ''n''] @ [Op_Del ''n'' [''a'']]) (New alist_btree)"
    by (simp add: alist.SetFrom_entry New_def)
  from store_run_monotone [OF alist.ordered_tree_axioms this refl refl] show ?thesis by blast
qed

text \<open>
  Read your writes: when the clock is at or above every stored version and does not
  overflow, \<open>SetFrom\<close> takes effect. \<open>Get\<close> then returns the value with the version it was
  given, which is above every version stored before, and every other key reads as before.
\<close>

theorem SetFrom_read_back:
  assumes "ordered_tree B" and "\<forall>k e. Snapshot B s k = Some e \<longrightarrow> sint (Version e) \<le> sint (clock s)"
    and "sint (clock s) < 2 ^ 63 - 1" and "SetFrom B k v orig s = (e, s')"
  shows "Get B k s' = (v, Version e, True) \<and> (\<forall>k'. k' \<noteq> k \<longrightarrow> Get B k' s' = Get B k' s) \<and>
    (\<forall>k' e'. Snapshot B s k' = Some e' \<longrightarrow> sint (Version e') < sint (Version e))"
proof -
  have inv: "clock_inv B s"
    using assms(2) by (simp add: clock_inv_def ordered_tree.Snapshot_contents [OF assms(1)])
  have e: "e = \<lparr>Value = v, Version = clock s + 1, Origin = orig, Deleted = False\<rparr>"
    using ordered_tree.SetFrom_entry(1) [OF assms(1), of k v orig s] assms(4) by simp
  have c: "contents B s' = (contents B s)(k \<mapsto> e)"
    using ordered_tree.SetFrom_stores [OF assms(1) inv assms(3), of k v orig] assms(4) by simp
  have ver: "sint (Version e) = sint (clock s) + 1" using e assms(3) by (simp add: sint64_inc)
  show ?thesis
    unfolding ordered_tree.Get_contents [OF assms(1)] c
    using e ver assms(2) by (force intro: order.strict_trans1)
qed

theorem SetFrom_read_back_witness:
  "Get alist_btree ''k'' (snd (SetFrom alist_btree ''k'' ''v'' ''n'' (New alist_btree))) = (''v'', 1, True)"
proof -
  have e: "Version (fst (SetFrom alist_btree ''k'' ''v'' ''n'' (New alist_btree))) = 1"
    by (simp add: alist.SetFrom_entry New_def)
  have "\<forall>k e. Snapshot alist_btree (New alist_btree) k = Some e \<longrightarrow>
      sint (Version e) \<le> sint (clock (New alist_btree))"
    by (simp add: alist.Snapshot_contents alist.contents_New)
  moreover have "sint (clock (New alist_btree)) < 2 ^ 63 - 1" by (simp add: New_def)
  ultimately show ?thesis
    using SetFrom_read_back [OF alist.ordered_tree_axioms _ _ surjective_pairing] e by metis
qed

text \<open>
  C19. The clock takes any version a peer sends. After a merge of an entry with version
  \<open>math.MaxInt64\<close>, the next local write of that key gets the version \<open>math.MinInt64\<close>, loses
  to the stored entry and is not stored: \<open>Get\<close> still returns what it returned before.
\<close>

theorem SetFrom_lost_after_max_version:
  assumes "ordered_tree B" and "SetWithVersion B k e s = (True, s1)"
    and "sint (Version e) = 2 ^ 63 - 1" and "SetFrom B k v orig s1 = (e', s2)"
  shows "sint (Version e') = - (2 ^ 63) \<and> Snapshot B s2 = Snapshot B s1 \<and> Get B k s2 = Get B k s1"
proof -
  have "sint (clock s1) = 2 ^ 63 - 1"
    using ordered_tree.SetWithVersion_clock [OF assms(1), of k e s] assms(2,3) sint64_bounds [of "clock s"]
    by simp
  then have clk: "clock s1 = 0x7FFFFFFFFFFFFFFF" by (simp add: sint_eq [symmetric])
  have e': "e' = \<lparr>Value = v, Version = clock s1 + 1, Origin = orig, Deleted = False\<rparr>"
    using ordered_tree.SetFrom_entry(1) [OF assms(1), of k v orig s1] assms(4) by simp
  then have ver: "sint (Version e') = - (2 ^ 63)" using clk by simp
  have "contents B s1 k = Some e"
    using ordered_tree.contents_SetWithVersion [OF assms(1), of k e s]
      ordered_tree.SetWithVersion_accepts [OF assms(1), of k e s] assms(2)
    by (auto simp: lww_put_def split: option.splits)
  moreover have "\<not> newer e' e" using ver assms(3) by (auto simp: newer_def)
  ultimately have "contents B s2 = contents B s1"
    using ordered_tree.contents_SetFrom [OF assms(1), of k v orig s1] assms(4) by (simp add: lww_put_def)
  then show ?thesis
    using ver by (simp add: ordered_tree.Snapshot_contents [OF assms(1)] ordered_tree.Get_contents [OF assms(1)])
qed

theorem SetFrom_lost_after_max_version_witness:
  "Get alist_btree ''k'' (snd (SetFrom alist_btree ''k'' ''new'' ''n''
     (snd (SetWithVersion alist_btree ''k'' (ex_entry ''old'' 0x7FFFFFFFFFFFFFFF ''m'' False) (New alist_btree))))) =
   Get alist_btree ''k''
     (snd (SetWithVersion alist_btree ''k'' (ex_entry ''old'' 0x7FFFFFFFFFFFFFFF ''m'' False) (New alist_btree)))"
proof -
  let ?e = "ex_entry ''old'' 0x7FFFFFFFFFFFFFFF ''m'' False"
  have "fst (SetWithVersion alist_btree ''k'' ?e (New alist_btree))"
    by (simp add: alist.SetWithVersion_accepts alist.contents_New)
  then have "SetWithVersion alist_btree ''k'' ?e (New alist_btree) =
      (True, snd (SetWithVersion alist_btree ''k'' ?e (New alist_btree)))"
    by (metis (full_types) prod.collapse)
  moreover have "sint (Version ?e) = 2 ^ 63 - 1" by (simp add: ex_entry_def)
  ultimately show ?thesis
    using SetFrom_lost_after_max_version [OF alist.ordered_tree_axioms _ _ surjective_pairing] by blast
qed

text \<open>
  C20. \<open>Del\<close> on a store whose versions are within its clock, and whose clock does not overflow while it
  runs, counts each requested key that was live once, leaves every requested key unreadable and every other key as it
  was, and returns for exactly the requested keys the tombstones it stored. Each tombstone is newer than every
  entry with a version up to the clock before the call, the one it replaced among them, so that any store whose entry
  for the key is no newer than that clock also stops showing the key when the tombstone is merged into it. A replica
  that holds an entry of a higher version keeps it.
\<close>

theorem Del_deletes_and_returns_tombstones:
  assumes "ordered_tree B" and "Del B orig keys s = (n, tombstones, s')"
    and "\<forall>k e. Snapshot B s k = Some e \<longrightarrow> sint (Version e) \<le> sint (clock s)"
    and "sint (clock s) + int (length keys) < 2 ^ 63"
  shows "n = int (card {k \<in> set keys. snd (snd (Get B k s))}) \<and> dom tombstones = set keys \<and>
    (\<forall>k \<in> set keys. Get B k s' = ([], 0, False) \<and> Snapshot B s' k = tombstones k) \<and>
    (\<forall>k. k \<notin> set keys \<longrightarrow> Snapshot B s' k = Snapshot B s k) \<and>
    (\<forall>k e e'. tombstones k = Some e \<and> (Snapshot B s k = Some e' \<or> sint (Version e') \<le> sint (clock s)) \<longrightarrow> newer e e') \<and>
    (\<forall>k e r. tombstones k = Some e \<and> (\<forall>e'. Snapshot B r k = Some e' \<longrightarrow> sint (Version e') \<le> sint (clock s)) \<longrightarrow>
      Get B k (snd (SetWithVersion B k e r)) = ([], 0, False))"
proof -
  note spec = ordered_tree.Del_spec [OF assms(1,2)] and snap = ordered_tree.Snapshot_contents [OF assms(1)]
  have inv: "clock_inv B s" using assms(3) by (simp add: clock_inv_def snap)
  have count: "live (contents B s) \<inter> set keys = {k \<in> set keys. snd (snd (Get B k s))}"
    using ordered_tree.live_Get [OF assms(1), of s] by auto
  have in_keys: "k \<in> set keys \<longleftrightarrow> tombstones k \<noteq> None" for k using spec(1) by (auto simp: dom_def)
  have new: "newer e e'" if "tombstones k = Some e" and "sint (Version e') \<le> sint (clock s)" for k e e'
    using ordered_tree.clock_inv_Del(3) [OF assms(1,2) inv assms(4) that(1)] that(2) by (simp add: newer_iff_rank entry_rank_def)
  have "Get B k (snd (SetWithVersion B k e r)) = ([], 0, False)"
    if "tombstones k = Some e" and "\<forall>e'. contents B r k = Some e' \<longrightarrow> sint (Version e') \<le> sint (clock s)" for k e r
    using that new [OF that(1)] spec(3) [OF that(1)]
    by (auto simp: ordered_tree.Get_contents [OF assms(1)] ordered_tree.contents_SetWithVersion [OF assms(1)] lww_put_def
        split: option.splits)
  moreover have "Get B k s' = ([], 0, False) \<and> contents B s' k = tombstones k" if "k \<in> set keys" for k
    using that spec(2) spec(3) in_keys
    by (auto simp: ordered_tree.Get_contents [OF assms(1)] map_add_def split: option.splits)
  moreover have "contents B s' k = contents B s k" if "k \<notin> set keys" for k
    using that spec(2) in_keys by (auto simp: map_add_def)
  ultimately show ?thesis
    using spec(1,4) count new assms(3) unfolding snap by auto
qed

theorem Del_deletes_and_returns_tombstones_witness:
  "fst (Del alist_btree ''n'' [''a'', ''b'', ''a''] (snd (SetFrom alist_btree ''a'' ''1'' ''n'' (New alist_btree)))) =
    int (card {k \<in> set [''a'', ''b'', ''a'']. snd (snd (Get alist_btree k
      (snd (SetFrom alist_btree ''a'' ''1'' ''n'' (New alist_btree)))))})"
proof -
  let ?s = "snd (SetFrom alist_btree ''a'' ''1'' ''n'' (New alist_btree))"
  let ?d = "Del alist_btree ''n'' [''a'', ''b'', ''a''] ?s"
  have "?d = (fst ?d, fst (snd ?d), snd (snd ?d))" by simp
  moreover have "clock_inv alist_btree ?s"
    by (rule alist.clock_inv_SetFrom [OF alist.clock_inv_New]) (simp add: New_def)
  then have "\<forall>k e. Snapshot alist_btree ?s k = Some e \<longrightarrow> sint (Version e) \<le> sint (clock ?s)"
    by (simp add: alist.Snapshot_contents clock_inv_def)
  moreover have "sint (clock ?s) + int (length [''a'', ''b'', ''a'']) < 2 ^ 63"
    by (simp add: alist.SetFrom_entry New_def)
  ultimately show ?thesis
    using Del_deletes_and_returns_tombstones [OF alist.ordered_tree_axioms] by blast
qed

text \<open>
  C21. \<open>Range(start, end)\<close> returns the entries of exactly the live keys of the half-open
  interval, in ascending order of their keys.
\<close>

theorem Range_live_keys_in_order:
  assumes "ordered_tree B"
  shows "Range B start end' s =
    map (\<lambda>k. the (Snapshot B s k))
      (sorted_list_of_set {k. snd (snd (Get B k s)) \<and> start \<le> k \<and> k < end'})"
proof -
  have "{k \<in> live (contents B s). start \<le> k \<and> k < end'} = {k. snd (snd (Get B k s)) \<and> start \<le> k \<and> k < end'}"
    using ordered_tree.live_Get [OF assms, of s] by auto
  then show ?thesis
    by (simp add: ordered_tree.Range_sorted_keys [OF assms] ordered_tree.Snapshot_contents [OF assms])
qed

theorem Range_live_keys_in_order_witness:
  "Range alist_btree ''a'' ''b'' (snd (SetFrom alist_btree ''ab'' ''1'' ''n'' (New alist_btree))) =
    map (\<lambda>k. the (Snapshot alist_btree (snd (SetFrom alist_btree ''ab'' ''1'' ''n'' (New alist_btree))) k))
      (sorted_list_of_set {k. snd (snd (Get alist_btree k (snd (SetFrom alist_btree ''ab'' ''1'' ''n'' (New alist_btree))))) \<and> ''a'' \<le> k \<and> k < ''b''})"
  by (rule Range_live_keys_in_order [OF alist.ordered_tree_axioms])

end
