(* ===== verification/Hashring.thy ===== *)
theory Hashring
  imports Prelude "HOL-Library.Sublist"
begin

text \<open>
  The consistent hash ring, \<open>src/internal/hashring/hashring.go\<close>. The hash of keys and
  virtual nodes is \<open>github.com/cespare/xxhash\<close>, a parameter \<open>h\<close> of the operations; the
  order of \<open>sort.Slice\<close> is the parameter \<open>srt\<close>, of which only the contract \<open>slice_sort\<close> is
  used. Every operation holds the ring's lock throughout.

  The reference for lookups is \<open>clockwise\<close>: the entries in the order in which a walk
  from a hash value meets them.
\<close>

section \<open>Data\<close>

record Replica =
  NodeID :: string
  Address :: string

record RingEntryInfo =
  info_Hash :: uint64
  info_NodeID :: string
  info_Address :: string

record SlotRange =
  Start :: nat
  End :: nat
  Node :: Replica

record ringEntry =
  re_hash :: uint64
  re_nodeID :: string
  re_address :: string

record consistentHashring =
  localNodeID :: string
  replicas :: int
  entries :: "ringEntry list"
  nodeReplicas :: "string \<rightharpoonup> int"
  nodes :: "string set"

type_synonym hasher = "string \<Rightarrow> uint64"
type_synonym ring_sorter = "ringEntry list \<Rightarrow> ringEntry list"

section \<open>Operations\<close>

definition New :: "string \<Rightarrow> consistentHashring" where
  "New nodeID = \<lparr>localNodeID = nodeID, replicas = 5, entries = [],
     nodeReplicas = Map.empty, nodes = {}\<rparr>"

definition removeNodeLocked :: "string \<Rightarrow> consistentHashring \<Rightarrow> consistentHashring" where
  "removeNodeLocked nodeID r =
     r\<lparr>nodes := nodes r - {nodeID}, nodeReplicas := (nodeReplicas r)(nodeID := None),
       entries := filter (\<lambda>e. re_nodeID e \<noteq> nodeID) (entries r)\<rparr>"

text \<open>The virtual nodes the loop of \<open>AddNode\<close> appends.\<close>

definition vnodes :: "hasher \<Rightarrow> string \<Rightarrow> string \<Rightarrow> int \<Rightarrow> ringEntry list" where
  "vnodes h nodeID address n =
     map (\<lambda>i. \<lparr>re_hash = h (nodeID @ '':'' @ itoa (int i)), re_nodeID = nodeID, re_address = address\<rparr>)
       [0..<nat n]"

definition AddNode :: "hasher \<Rightarrow> ring_sorter \<Rightarrow> string \<Rightarrow> string \<Rightarrow> int
    \<Rightarrow> consistentHashring \<Rightarrow> consistentHashring" where
  "AddNode h srt nodeID address reps r =
     (let n = (if reps \<le> 0 then replicas r else reps);
          r1 = removeNodeLocked nodeID r;
          r2 = r1\<lparr>nodes := insert nodeID (nodes r1), nodeReplicas := (nodeReplicas r1)(nodeID \<mapsto> n)\<rparr>
      in r2\<lparr>entries := srt (entries r2 @ vnodes h nodeID address n)\<rparr>)"

definition RemoveNode :: "string \<Rightarrow> consistentHashring \<Rightarrow> consistentHashring" where
  "RemoveNode nodeID r = removeNodeLocked nodeID r"

text \<open>
  The search every lookup starts with: the index of the first entry whose hash is at least
  the given one, wrapped to 0 past the end.
\<close>

definition owner_index :: "ringEntry list \<Rightarrow> uint64 \<Rightarrow> nat" where
  "owner_index es hv =
     (let idx = sort_Search (length es) (\<lambda>i. hv \<le> re_hash (es ! i))
      in if idx = length es then 0 else idx)"

definition GetNode :: "hasher \<Rightarrow> string \<Rightarrow> consistentHashring \<Rightarrow> string \<times> string" where
  "GetNode h key r =
     (if entries r = [] then ([], [])
      else let e = entries r ! owner_index (entries r) (h key) in (re_nodeID e, re_address e))"

fun replicas_loop :: "ringEntry list \<Rightarrow> nat \<Rightarrow> int \<Rightarrow> nat list \<Rightarrow> string set \<Rightarrow> Replica list \<Rightarrow> Replica list" where
  "replicas_loop es idx cnt [] seen reps = reps"
| "replicas_loop es idx cnt (i # is) seen reps =
     (let e = es ! ((idx + i) mod length es)
      in if re_nodeID e \<in> seen then replicas_loop es idx cnt is seen reps
         else let reps' = reps @ [\<lparr>NodeID = re_nodeID e, Address = re_address e\<rparr>]
              in if cnt \<le> int (length reps') then reps'
                 else replicas_loop es idx cnt is (insert (re_nodeID e) seen) reps')"

definition GetReplicas :: "hasher \<Rightarrow> string \<Rightarrow> int \<Rightarrow> consistentHashring \<Rightarrow> Replica list" where
  "GetReplicas h key cnt r =
     (if entries r = [] \<or> cnt \<le> 0 then []
      else replicas_loop (entries r) (owner_index (entries r) (h key)) cnt
             [0..<length (entries r)] {} [])"

definition numSlots :: nat where
  "numSlots = 16384"

text \<open>The address map of \<open>GetSlotRanges\<close>: the first address seen per node.\<close>

fun node_addrs :: "ringEntry list \<Rightarrow> (string \<rightharpoonup> string) \<Rightarrow> (string \<rightharpoonup> string)" where
  "node_addrs [] m = m"
| "node_addrs (e # es) m =
     node_addrs es (if m (re_nodeID e) = None then m(re_nodeID e \<mapsto> re_address e) else m)"

definition getSlotOwner :: "hasher \<Rightarrow> ringEntry list \<Rightarrow> nat \<Rightarrow> Replica" where
  "getSlotOwner h es slot =
     (let e = es ! owner_index es (h (''SLOT:'' @ itoa (int slot)))
      in \<lparr>NodeID = re_nodeID e,
          Address = (case node_addrs es Map.empty (re_nodeID e) of None \<Rightarrow> [] | Some a \<Rightarrow> a)\<rparr>)"

fun slot_loop :: "(nat \<Rightarrow> Replica) \<Rightarrow> nat list \<Rightarrow> nat \<Rightarrow> Replica \<Rightarrow> SlotRange list \<Rightarrow> SlotRange list" where
  "slot_loop own [] currentStart currentOwner ranges =
     ranges @ [\<lparr>Start = currentStart, End = numSlots - 1, Node = currentOwner\<rparr>]"
| "slot_loop own (slot # slots) currentStart currentOwner ranges =
     (let owner = own slot
      in if NodeID owner \<noteq> NodeID currentOwner
         then slot_loop own slots slot owner
                (ranges @ [\<lparr>Start = currentStart, End = slot - 1, Node = currentOwner\<rparr>])
         else slot_loop own slots currentStart currentOwner ranges)"

definition GetSlotRanges :: "hasher \<Rightarrow> consistentHashring \<Rightarrow> SlotRange list" where
  "GetSlotRanges h r =
     (if entries r = [] then []
      else slot_loop (getSlotOwner h (entries r)) [1..<numSlots] 0 (getSlotOwner h (entries r) 0) [])"

definition Nodes :: "consistentHashring \<Rightarrow> string list" where
  "Nodes r = sorted_list_of_set (nodes r)"

definition RingSnapshot :: "consistentHashring \<Rightarrow> RingEntryInfo list" where
  "RingSnapshot r =
     map (\<lambda>e. \<lparr>info_Hash = re_hash e, info_NodeID = re_nodeID e, info_Address = re_address e\<rparr>) (entries r)"

section \<open>Specification of lookups\<close>

definition clockwise :: "uint64 \<Rightarrow> ringEntry list \<Rightarrow> ringEntry list" where
  "clockwise hv es = dropWhile (\<lambda>e. re_hash e < hv) es @ takeWhile (\<lambda>e. re_hash e < hv) es"

text \<open>The first entry of each physical node that is not in \<open>seen\<close>.\<close>

fun first_per_node :: "string set \<Rightarrow> ringEntry list \<Rightarrow> ringEntry list" where
  "first_per_node seen [] = []"
| "first_per_node seen (e # es) =
     (if re_nodeID e \<in> seen then first_per_node seen es
      else e # first_per_node (insert (re_nodeID e) seen) es)"

definition to_replica :: "ringEntry \<Rightarrow> Replica" where
  "to_replica e = \<lparr>NodeID = re_nodeID e, Address = re_address e\<rparr>"

definition ring_sorted :: "consistentHashring \<Rightarrow> bool" where
  "ring_sorted r \<longleftrightarrow> sorted (map re_hash (entries r))"

text \<open>
  The invariant: the entries are ordered by hash, the bookkeeping maps agree, and the
  entries of a node are its virtual nodes at one address.
\<close>

definition node_entries :: "string \<Rightarrow> ringEntry list \<Rightarrow> ringEntry list" where
  "node_entries n es = filter (\<lambda>e. re_nodeID e = n) es"

definition ring_inv :: "hasher \<Rightarrow> consistentHashring \<Rightarrow> bool" where
  "ring_inv h r \<longleftrightarrow> ring_sorted r \<and> finite (nodes r) \<and> dom (nodeReplicas r) = nodes r \<and> 0 < replicas r \<and>
     (\<forall>n. n \<notin> nodes r \<longrightarrow> node_entries n (entries r) = []) \<and>
     (\<forall>n c. nodeReplicas r n = Some c \<longrightarrow> 0 < c \<and>
        (\<exists>a. mset (node_entries n (entries r)) = mset (vnodes h n a c)))"

section \<open>Lemmas on lookups\<close>

lemma owner_index_less: "es \<noteq> [] \<Longrightarrow> owner_index es hv < length es"
  using sort_Search_le [of "length es" "\<lambda>i. hv \<le> re_hash (es ! i)"]
  by (simp add: owner_index_def Let_def le_neq_implies_less)

text \<open>Binary search finds the boundary that \<open>takeWhile\<close> finds by scanning.\<close>

lemma sort_Search_takeWhile:
  assumes "sorted (map re_hash es)"
  shows "sort_Search (length es) (\<lambda>i. hv \<le> re_hash (es ! i)) = length (takeWhile (\<lambda>e. re_hash e < hv) es)"
    (is "?n = ?t")
proof -
  have mono: "hv \<le> re_hash (es ! b)" if "a \<le> b" and "b < length es" and "hv \<le> re_hash (es ! a)" for a b
    using that sorted_nth_mono [OF assms, of a b] by simp
  have spec: "(\<forall>a < ?n. \<not> hv \<le> re_hash (es ! a)) \<and> (\<forall>a. ?n \<le> a \<and> a < length es \<longrightarrow> hv \<le> re_hash (es ! a))"
    by (rule sort_Search_spec) (rule mono)
  have tw: "\<forall>i < ?t. re_hash (es ! i) < hv" by (metis nth_mem set_takeWhileD takeWhile_nth)
  have "\<not> ?t < ?n"
  proof
    assume lt: "?t < ?n"
    then have "?t < length es" using sort_Search_le order.strict_trans2 by blast
    then have "\<not> re_hash (es ! ?t) < hv" by (rule nth_length_takeWhile)
    moreover have "\<not> hv \<le> re_hash (es ! ?t)" using spec lt by blast
    ultimately show False by simp
  qed
  moreover have "\<not> ?n < ?t"
  proof
    assume lt: "?n < ?t"
    moreover have "?t \<le> length es" by (rule length_takeWhile_le)
    ultimately have "hv \<le> re_hash (es ! ?n)" using spec by (meson le_refl order.strict_trans2)
    with tw lt show False by fastforce
  qed
  ultimately show ?thesis by simp
qed

lemma rotate_owner_index:
  assumes "sorted (map re_hash es)"
  shows "rotate (owner_index es hv) es = clockwise hv es"
proof -
  let ?t = "length (takeWhile (\<lambda>e. re_hash e < hv) es)"
  have cw: "clockwise hv es = drop ?t es @ take ?t es"
    by (metis clockwise_def dropWhile_eq_drop takeWhile_eq_take)
  have idx: "owner_index es hv = (if ?t = length es then 0 else ?t)"
    by (simp add: owner_index_def sort_Search_takeWhile [OF assms] Let_def)
  show ?thesis
  proof (cases "?t = length es")
    case True
    with cw idx show ?thesis by simp
  next
    case False
    then have "?t < length es" using length_takeWhile_le le_neq_implies_less by blast
    with cw idx False show ?thesis by (simp add: rotate_drop_take)
  qed
qed

lemma set_clockwise [simp]: "set (clockwise hv es) = set es"
proof -
  have "set (takeWhile (\<lambda>e. re_hash e < hv) es @ dropWhile (\<lambda>e. re_hash e < hv) es) = set es"
    by (simp only: takeWhile_dropWhile_id)
  then show ?thesis unfolding clockwise_def set_append by blast
qed

lemma clockwise_Nil [simp]: "clockwise hv [] = []"
  by (simp add: clockwise_def)

lemma clockwise_eq_Nil [simp]: "clockwise hv es = [] \<longleftrightarrow> es = []"
  by (metis set_clockwise set_empty)

lemma nth_owner_index:
  "sorted (map re_hash es) \<Longrightarrow> es \<noteq> [] \<Longrightarrow> es ! owner_index es hv = hd (clockwise hv es)"
  by (simp add: rotate_owner_index [symmetric] hd_rotate_conv_nth owner_index_less)

lemma GetNode_clockwise:
  assumes "ring_sorted r"
  shows "GetNode h key r = (case clockwise (h key) (entries r) of [] \<Rightarrow> ([], [])
    | e # _ \<Rightarrow> (re_nodeID e, re_address e))"
proof (cases "entries r = []")
  case True
  then show ?thesis by (simp add: GetNode_def)
next
  case False
  then obtain e es where "clockwise (h key) (entries r) = e # es" by (meson clockwise_eq_Nil neq_Nil_conv)
  with False nth_owner_index [of "entries r" "h key"] assms show ?thesis
    by (simp add: GetNode_def ring_sorted_def)
qed

text \<open>The loop of \<open>GetReplicas\<close> takes the first nodes of the clockwise walk.\<close>

lemma replicas_loop_first_per_node:
  assumes "int (length reps) < cnt"
  shows "replicas_loop es idx cnt is seen reps =
    take (nat cnt) (reps @ map to_replica (first_per_node seen (map (\<lambda>i. es ! ((idx + i) mod length es)) is)))"
  using assms
proof (induction "is" arbitrary: seen reps)
  case Nil
  then show ?case by simp
next
  case (Cons i "is")
  let ?e = "es ! ((idx + i) mod length es)"
  show ?case
  proof (cases "re_nodeID ?e \<in> seen")
    case True
    with Cons show ?thesis by (simp add: Let_def)
  next
    case False
    have pos: "nat cnt - length reps \<noteq> 0" using Cons.prems by simp
    show ?thesis
    proof (cases "cnt \<le> int (length reps) + 1")
      case True
      then have "nat cnt - Suc (length reps) = 0" by simp
      with True False pos show ?thesis by (simp add: Let_def to_replica_def take_Cons')
    next
      case less: False
      with False pos Cons.IH [of "reps @ [to_replica ?e]" "insert (re_nodeID ?e) seen"] show ?thesis
        by (simp add: Let_def to_replica_def take_Cons')
    qed
  qed
qed

lemma map_nth_mod_rotate: "map (\<lambda>i. es ! ((idx + i) mod length es)) [0..<length es] = rotate idx es"
  by (rule nth_equalityI) (auto simp: nth_rotate add.commute)

lemma GetReplicas_clockwise:
  assumes "ring_sorted r"
  shows "GetReplicas h key cnt r =
    take (nat cnt) (map to_replica (first_per_node {} (clockwise (h key) (entries r))))"
proof (cases "entries r = [] \<or> cnt \<le> 0")
  case True
  then show ?thesis by (auto simp: GetReplicas_def)
next
  case False
  then show ?thesis
    using assms replicas_loop_first_per_node [of "[]" cnt]
    by (simp add: GetReplicas_def map_nth_mod_rotate rotate_owner_index ring_sorted_def)
qed

lemma clockwise_filter_form:
  assumes "sorted (map re_hash es)"
  shows "clockwise hv es = filter (\<lambda>e. hv \<le> re_hash e) es @ filter (\<lambda>e. re_hash e < hv) es"
proof -
  have "dropWhile (\<lambda>e. re_hash e < hv) es = filter (\<lambda>e. hv \<le> re_hash e) es \<and>
      takeWhile (\<lambda>e. re_hash e < hv) es = filter (\<lambda>e. re_hash e < hv) es"
    using assms
  proof (induction es)
    case (Cons e es)
    show ?case
    proof (cases "re_hash e < hv")
      case True
      with Cons show ?thesis by auto
    next
      case False
      with Cons.prems have "\<forall>x \<in> set es. hv \<le> re_hash x" by (auto intro: order_trans)
      with False show ?thesis by (auto simp: filter_empty_conv not_less intro: filter_True [symmetric])
    qed
  qed simp
  then show ?thesis by (simp add: clockwise_def)
qed

lemma sorted_filter_hash: "sorted (map re_hash es) \<Longrightarrow> sorted (map re_hash (filter P es))"
  by (rule sorted_filter)

lemma clockwise_filter:
  "sorted (map re_hash es) \<Longrightarrow> clockwise hv (filter P es) = filter P (clockwise hv es)"
  by (simp add: clockwise_filter_form sorted_filter_hash conj_commute)

lemma first_per_node_nodes: "re_nodeID ` set (first_per_node seen es) = re_nodeID ` set es - seen"
  by (induction seen es rule: first_per_node.induct) auto

lemma first_per_node_subset: "set (first_per_node seen es) \<subseteq> set es"
  by (induction seen es rule: first_per_node.induct) auto

lemma first_per_node_distinct: "distinct (map re_nodeID (first_per_node seen es))"
proof (induction seen es rule: first_per_node.induct)
  case (2 seen e es)
  then show ?case using first_per_node_nodes [of "insert (re_nodeID e) seen" es] by auto
qed simp

lemma length_first_per_node: "length (first_per_node seen es) = card (re_nodeID ` set es - seen)"
  by (metis distinct_card first_per_node_distinct first_per_node_nodes image_set length_map)

lemma first_per_node_absent:
  "n \<notin> re_nodeID ` set es \<Longrightarrow> first_per_node (insert n seen) es = first_per_node seen es"
proof (induction es arbitrary: seen)
  case (Cons e es)
  then have "first_per_node (insert n (insert (re_nodeID e) seen)) es = first_per_node (insert (re_nodeID e) seen) es"
    by simp
  with Cons show ?case by (auto simp: insert_commute)
qed simp

lemma first_per_node_filter:
  "first_per_node seen (filter (\<lambda>e. re_nodeID e \<noteq> n) es) =
    filter (\<lambda>e. re_nodeID e \<noteq> n) (first_per_node seen es)"
proof (induction seen es rule: first_per_node.induct)
  case (2 seen e es)
  show ?case
  proof (cases "re_nodeID e = n")
    case True
    have "first_per_node (insert n seen) (filter (\<lambda>e. re_nodeID e \<noteq> n) es) =
        first_per_node seen (filter (\<lambda>e. re_nodeID e \<noteq> n) es)"
      by (rule first_per_node_absent) auto
    with True 2 show ?thesis by auto
  next
    case False
    with 2 show ?thesis by auto
  qed
qed simp

section \<open>Lemmas on membership changes\<close>

lemma vnodes_simps [simp]:
  "e \<in> set (vnodes h n a c) \<Longrightarrow> re_nodeID e = n" "e \<in> set (vnodes h n a c) \<Longrightarrow> re_address e = a"
  by (auto simp: vnodes_def)

lemma vnodes_Nil [simp]: "vnodes h n a c = [] \<longleftrightarrow> c \<le> 0"
  by (simp add: vnodes_def)

lemma node_entries_simps [simp]:
  "node_entries n (filter (\<lambda>e. re_nodeID e \<noteq> m) es) = (if n = m then [] else node_entries n es)"
  "node_entries n (es @ es') = node_entries n es @ node_entries n es'"
  "node_entries n (vnodes h m a c) = (if n = m then vnodes h m a c else [])"
  by (auto simp: node_entries_def filter_empty_conv intro: filter_cong intro!: filter_True)

lemma mset_node_entries: "mset es = mset es' \<Longrightarrow> mset (node_entries n es) = mset (node_entries n es')"
  by (simp add: node_entries_def)

lemma filter_vnodes [simp]: "filter (\<lambda>e. re_nodeID e \<noteq> n) (vnodes h n a c) = []"
  by (auto simp: filter_empty_conv)

lemma removeNodeLocked_fields [simp]:
  "entries (removeNodeLocked n r) = filter (\<lambda>e. re_nodeID e \<noteq> n) (entries r)"
  "nodes (removeNodeLocked n r) = nodes r - {n}"
  "nodeReplicas (removeNodeLocked n r) = (nodeReplicas r)(n := None)"
  "replicas (removeNodeLocked n r) = replicas r" "localNodeID (removeNodeLocked n r) = localNodeID r"
  by (simp_all add: removeNodeLocked_def)

lemma AddNode_fields:
  "entries (AddNode h srt n a c r) =
    srt (filter (\<lambda>e. re_nodeID e \<noteq> n) (entries r) @ vnodes h n a (if c \<le> 0 then replicas r else c))"
  "nodes (AddNode h srt n a c r) = insert n (nodes r)"
  "nodeReplicas (AddNode h srt n a c r) = (nodeReplicas r)(n \<mapsto> if c \<le> 0 then replicas r else c)"
  "replicas (AddNode h srt n a c r) = replicas r" "localNodeID (AddNode h srt n a c r) = localNodeID r"
  by (auto simp: AddNode_def Let_def)

lemma ring_inv_New: "ring_inv h (New nodeID)"
  by (simp add: ring_inv_def New_def ring_sorted_def node_entries_def)

lemma ring_inv_RemoveNode: "ring_inv h r \<Longrightarrow> ring_inv h (RemoveNode n r)"
  by (auto simp: ring_inv_def RemoveNode_def ring_sorted_def sorted_filter_hash)

lemma ring_inv_AddNode:
  assumes "slice_sort re_hash srt" and "ring_inv h r"
  shows "ring_inv h (AddNode h srt n a c r)"
proof -
  let ?c = "if c \<le> 0 then replicas r else c"
  let ?es = "filter (\<lambda>e. re_nodeID e \<noteq> n) (entries r) @ vnodes h n a ?c"
  have pos: "0 < ?c" using assms(2) by (simp add: ring_inv_def)
  have ms: "mset (node_entries m (srt ?es)) = mset (node_entries m ?es)" for m
    by (rule mset_node_entries) (rule slice_sort.srt_mset [OF assms(1)])
  have "node_entries m (srt ?es) = []" if "m \<notin> insert n (nodes r)" for m
    using that ms [of m] assms(2) by (simp add: ring_inv_def split: if_splits)
  moreover have "\<exists>a'. mset (node_entries m (srt ?es)) = mset (vnodes h m a' c')"
    if "((nodeReplicas r)(n \<mapsto> ?c)) m = Some c'" for m c'
    using that ms [of m] assms(2) by (auto simp: ring_inv_def split: if_splits)
  ultimately show ?thesis
    using assms(2) pos slice_sort.srt_sorted [OF assms(1), of ?es]
    by (auto simp: ring_inv_def ring_sorted_def AddNode_fields split: if_splits)
qed

lemma ring_inv_nodes:
  assumes "ring_inv h r"
  shows "re_nodeID ` set (entries r) = nodes r"
proof (rule set_eqI)
  fix n
  have mem: "n \<in> re_nodeID ` set (entries r) \<longleftrightarrow> node_entries n (entries r) \<noteq> []"
    by (auto simp: node_entries_def filter_empty_conv)
  show "n \<in> re_nodeID ` set (entries r) \<longleftrightarrow> n \<in> nodes r"
  proof (cases "n \<in> nodes r")
    case True
    then have "n \<in> dom (nodeReplicas r)" using assms by (simp add: ring_inv_def)
    then obtain c where c: "nodeReplicas r n = Some c" by blast
    then obtain a where "0 < c" "mset (node_entries n (entries r)) = mset (vnodes h n a c)"
      using assms unfolding ring_inv_def by blast
    then have "node_entries n (entries r) \<noteq> []" by (metis mset_zero_iff not_less vnodes_Nil)
    with True mem show ?thesis by simp
  next
    case False
    with assms mem show ?thesis by (simp add: ring_inv_def)
  qed
qed

lemma remove_after_add:
  assumes "slice_sort re_hash srt" and "ring_sorted r" and "inj_on re_hash (set (entries r))"
  shows "RemoveNode n (AddNode h srt n a c r) = RemoveNode n r"
proof -
  let ?es = "filter (\<lambda>e. re_nodeID e \<noteq> n) (entries r)"
  let ?vs = "vnodes h n a (if c \<le> 0 then replicas r else c)"
  have "filter (\<lambda>e. re_nodeID e \<noteq> n) (srt (?es @ ?vs)) = ?es"
  proof (rule sorted_perm_unique [of _ _ re_hash])
    show "mset (filter (\<lambda>e. re_nodeID e \<noteq> n) (srt (?es @ ?vs))) = mset ?es"
      unfolding slice_sort.srt_filter_mset [OF assms(1)] by (simp only: filter_append filter_vnodes) simp
    show "sorted (map re_hash (filter (\<lambda>e. re_nodeID e \<noteq> n) (srt (?es @ ?vs))))"
      by (rule sorted_filter_hash) (rule slice_sort.srt_sorted [OF assms(1)])
    show "sorted (map re_hash ?es)"
      using assms(2) by (simp add: ring_sorted_def sorted_filter_hash)
    show "inj_on re_hash (set ?es)" by (rule inj_on_subset [OF assms(3)]) auto
  qed
  then show ?thesis
    by (simp add: RemoveNode_def AddNode_fields insert_Diff_if)
qed

section \<open>Lemmas on slot ranges\<close>

definition range_slots :: "SlotRange \<Rightarrow> nat list" where
  "range_slots rg = [Start rg..<Suc (End rg)]"

definition ranges_ok :: "(nat \<Rightarrow> Replica) \<Rightarrow> nat \<Rightarrow> SlotRange list \<Rightarrow> bool" where
  "ranges_ok own st rgs \<longleftrightarrow>
     concat (map range_slots rgs) = [st..<numSlots] \<and>
     successively (\<lambda>a b. NodeID (Node a) \<noteq> NodeID (Node b)) rgs \<and>
     (\<forall>rg \<in> set rgs. Start rg \<le> End rg \<and> Node rg = own (Start rg) \<and>
        (\<forall>s \<in> set (range_slots rg). NodeID (own s) = NodeID (Node rg)))"

lemma numSlots_pos: "0 < numSlots"
  by (simp add: numSlots_def)

lemma ranges_ok_Cons:
  assumes ok: "ranges_ok own k (rg' # rgs)" and "st < k" and "Node rg' = own k"
    and same: "\<forall>s \<in> {st..<k}. NodeID (own s) = NodeID (own st)"
    and diff: "NodeID (own k) \<noteq> NodeID (own st)" and "k \<le> numSlots"
  shows "ranges_ok own st (\<lparr>Start = st, End = k - 1, Node = own st\<rparr> # rg' # rgs)"
proof -
  let ?rg = "\<lparr>Start = st, End = k - 1, Node = own st\<rparr>"
  have "Suc (k - 1) = k" using \<open>st < k\<close> by simp
  then have rs: "range_slots ?rg = [st..<k]"
    by (simp only: range_slots_def SlotRange.simps)
  have app: "[st..<k] @ [k..<numSlots] = [st..<numSlots]"
    using \<open>st < k\<close> \<open>k \<le> numSlots\<close> upt_add_eq_append [of st k "numSlots - k"] by simp
  have "concat (map range_slots (?rg # rg' # rgs)) = [st..<k] @ concat (map range_slots (rg' # rgs))"
    using rs by (simp only: list.map concat.simps)
  also have "\<dots> = [st..<numSlots]" using ok app by (simp only: ranges_ok_def)
  finally have "concat (map range_slots (?rg # rg' # rgs)) = [st..<numSlots]" .
  moreover have "successively (\<lambda>a b. NodeID (Node a) \<noteq> NodeID (Node b)) (?rg # rg' # rgs)"
    using ok diff \<open>Node rg' = own k\<close> by (simp add: ranges_ok_def)
  moreover have "\<forall>s \<in> set (range_slots ?rg). NodeID (own s) = NodeID (Node ?rg)"
    using same by (simp only: rs set_upt SlotRange.simps)
  ultimately show ?thesis
    using ok \<open>st < k\<close> by (simp add: ranges_ok_def)
qed

lemma slot_loop_acc: "slot_loop own slots st ow (rs @ rs') = rs @ slot_loop own slots st ow rs'"
  by (induction own slots st ow rs' rule: slot_loop.induct) (auto simp: Let_def)

lemma slot_loop_hd:
  "\<exists>rg rgs. slot_loop own slots st ow [] = rg # rgs \<and> Start rg = st \<and> Node rg = ow"
proof (induction slots arbitrary: st ow)
  case (Cons s slots)
  show ?case
  proof (cases "NodeID (own s) = NodeID ow")
    case True
    with Cons show ?thesis by (simp add: Let_def)
  next
    case False
    then show ?thesis
      using slot_loop_acc [of own slots s "own s" "[\<lparr>Start = st, End = s - 1, Node = ow\<rparr>]" "[]"]
      by (simp add: Let_def)
  qed
qed simp

lemma slot_loop_ranges_ok:
  assumes "st < k" and "k \<le> numSlots" and "\<forall>s \<in> {st..<k}. NodeID (own s) = NodeID (own st)"
  shows "ranges_ok own st (slot_loop own [k..<numSlots] st (own st) [])"
  using assms
proof (induction "numSlots - k" arbitrary: k st)
  case 0
  have k: "k = numSlots" using 0(1,3) by arith
  have "range_slots \<lparr>Start = st, End = numSlots - 1, Node = own st\<rparr> = [st..<numSlots]"
    using numSlots_pos by (simp add: range_slots_def del: upt_Suc)
  moreover have "st \<le> numSlots - 1" using 0(2) k by arith
  moreover have "\<forall>s \<in> set [st..<numSlots]. NodeID (own s) = NodeID (own st)"
    using 0(4) unfolding k set_upt .
  ultimately have "ranges_ok own st [\<lparr>Start = st, End = numSlots - 1, Node = own st\<rparr>]"
    unfolding ranges_ok_def by (simp del: set_upt)
  then show ?case by (simp add: k)
next
  case (Suc d)
  have k: "k < numSlots" using Suc.hyps(2) by arith
  then have upt: "[k..<numSlots] = k # [Suc k..<numSlots]" by (rule upt_conv_Cons)
  have d: "d = numSlots - Suc k" using Suc.hyps(2) by arith
  show ?case
  proof (cases "NodeID (own k) = NodeID (own st)")
    case True
    have "\<forall>s \<in> {st..<Suc k}. NodeID (own s) = NodeID (own st)"
      using Suc.prems(3) True by (metis atLeastLessThan_iff less_Suc_eq)
    then have "ranges_ok own st (slot_loop own [Suc k..<numSlots] st (own st) [])"
      using Suc.hyps(1) [OF d, of st] Suc.prems(1) k less_SucI Suc_leI by blast
    with True show ?thesis by (simp add: upt Let_def)
  next
    case False
    let ?rg = "\<lparr>Start = st, End = k - 1, Node = own st\<rparr>"
    have IH: "ranges_ok own k (slot_loop own [Suc k..<numSlots] k (own k) [])"
      using Suc.hyps(1) [OF d, of k] k by simp
    obtain rg rgs where rg: "slot_loop own [Suc k..<numSlots] k (own k) [] = rg # rgs"
      "Start rg = k" "Node rg = own k" using slot_loop_hd by blast
    have "slot_loop own [k..<numSlots] st (own st) [] = slot_loop own [Suc k..<numSlots] k (own k) [?rg]"
      using False by (simp add: upt Let_def)
    also have "\<dots> = ?rg # rg # rgs"
      using slot_loop_acc [of own "[Suc k..<numSlots]" k "own k" "[?rg]" "[]"] rg(1) by simp
    finally show ?thesis
      using ranges_ok_Cons [OF IH [unfolded rg(1)] Suc.prems(1) rg(3) Suc.prems(3) False less_imp_le [OF k]]
      by (simp only:)
  qed
qed

lemma GetSlotRanges_ok:
  assumes "entries r \<noteq> []"
  shows "ranges_ok (getSlotOwner h (entries r)) 0 (GetSlotRanges h r)"
  using assms slot_loop_ranges_ok [of 0 1 "getSlotOwner h (entries r)"] numSlots_pos
  by (simp add: GetSlotRanges_def)

section \<open>Runs of membership changes\<close>

datatype ring_op = Add string string int | Remove string

definition apply_ring_op :: "hasher \<Rightarrow> ring_sorter \<Rightarrow> ring_op \<Rightarrow> consistentHashring \<Rightarrow> consistentHashring" where
  "apply_ring_op h srt op r = (case op of Add n a c \<Rightarrow> AddNode h srt n a c r | Remove n \<Rightarrow> RemoveNode n r)"

definition run_ring :: "hasher \<Rightarrow> ring_sorter \<Rightarrow> ring_op list \<Rightarrow> consistentHashring" where
  "run_ring h srt ops = fold (apply_ring_op h srt) ops (New [])"

text \<open>The abstract membership: address and number of virtual nodes per node, 5 by default.\<close>

type_synonym membership = "string \<rightharpoonup> string \<times> int"

definition member_op :: "ring_op \<Rightarrow> membership \<Rightarrow> membership" where
  "member_op op ms = (case op of Add n a c \<Rightarrow> ms(n \<mapsto> (a, if c \<le> 0 then 5 else c)) | Remove n \<Rightarrow> ms(n := None))"

definition run_members :: "ring_op list \<Rightarrow> membership" where
  "run_members ops = fold member_op ops Map.empty"

definition member_vnodes :: "hasher \<Rightarrow> membership \<Rightarrow> string \<Rightarrow> ringEntry list" where
  "member_vnodes h ms n = (case ms n of None \<Rightarrow> [] | Some (a, c) \<Rightarrow> vnodes h n a c)"

definition ring_repr :: "hasher \<Rightarrow> membership \<Rightarrow> consistentHashring \<Rightarrow> bool" where
  "ring_repr h ms r \<longleftrightarrow> ring_sorted r \<and> replicas r = 5 \<and> finite (dom ms) \<and> nodes r = dom ms \<and>
     nodeReplicas r = map_option snd \<circ> ms \<and> (\<forall>n. \<forall>p \<in> set_option (ms n). 0 < snd p) \<and>
     (\<forall>n. mset (node_entries n (entries r)) = mset (member_vnodes h ms n))"

lemma ring_repr_op:
  assumes "slice_sort re_hash srt" and "ring_repr h ms r"
  shows "ring_repr h (member_op op ms) (apply_ring_op h srt op r)"
proof (cases op)
  case (Add n a c)
  let ?c = "if c \<le> 0 then 5 else c"
  let ?es = "filter (\<lambda>e. re_nodeID e \<noteq> n) (entries r) @ vnodes h n a ?c"
  have "mset (node_entries m (srt ?es)) = mset (member_vnodes h (member_op op ms) m)" for m
  proof -
    have "mset (node_entries m (srt ?es)) = mset (node_entries m ?es)"
      by (rule mset_node_entries) (rule slice_sort.srt_mset [OF assms(1)])
    then show ?thesis
      using assms(2) by (simp add: ring_repr_def member_vnodes_def member_op_def Add)
  qed
  then show ?thesis
    using assms(2) slice_sort.srt_sorted [OF assms(1), of ?es]
    by (auto simp: ring_repr_def ring_sorted_def AddNode_fields apply_ring_op_def member_op_def Add
        split: if_splits)
next
  case (Remove n)
  with assms(2) show ?thesis
    by (auto simp: ring_repr_def ring_sorted_def sorted_filter_hash apply_ring_op_def member_op_def
        RemoveNode_def member_vnodes_def)
qed

lemma ring_repr_run:
  assumes "slice_sort re_hash srt"
  shows "ring_repr h (run_members ops) (run_ring h srt ops)"
proof (induction ops rule: rev_induct)
  case Nil
  show ?case
    by (simp add: ring_repr_def run_members_def run_ring_def New_def ring_sorted_def node_entries_def
        member_vnodes_def fun_eq_iff)
next
  case (snoc op ops)
  with ring_repr_op [OF assms] show ?case by (simp add: run_members_def run_ring_def)
qed

lemma ring_repr_mset:
  assumes "ring_repr h ms r" and "ring_repr h ms r'"
  shows "mset (entries r) = mset (entries r')"
proof (rule multiset_eqI)
  fix e
  have count_node: "count (mset es) e = count (mset (node_entries (re_nodeID e) es)) e" for es
    by (simp add: node_entries_def)
  show "count (mset (entries r)) e = count (mset (entries r')) e"
    using assms count_node [of "entries r"] count_node [of "entries r'"] by (simp add: ring_repr_def)
qed

lemma ring_repr_unique:
  assumes "ring_repr h ms r" and "ring_repr h ms r'" and "inj_on re_hash (set (entries r))"
  shows "entries r = entries r'"
  using assms ring_repr_mset [OF assms(1,2)]
  by (intro sorted_perm_unique [of _ _ re_hash]) (auto simp: ring_repr_def ring_sorted_def dest: mset_eq_setD)

lemma ring_repr_inv:
  assumes "ring_repr h ms r"
  shows "ring_inv h r"
proof -
  have "node_entries n (entries r) = []" if "n \<notin> nodes r" for n
  proof -
    from that assms have "ms n = None" by (auto simp: ring_repr_def)
    moreover have "mset (node_entries n (entries r)) = mset (member_vnodes h ms n)"
      using assms by (simp add: ring_repr_def)
    ultimately show ?thesis by (simp add: member_vnodes_def)
  qed
  moreover have "0 < c \<and> (\<exists>a. mset (node_entries n (entries r)) = mset (vnodes h n a c))"
    if "nodeReplicas r n = Some c" for n c
    using that assms by (force simp: ring_repr_def member_vnodes_def)
  moreover have "dom (nodeReplicas r) = nodes r"
    using assms by (auto simp: ring_repr_def)
  ultimately show ?thesis
    using assms by (simp add: ring_inv_def ring_repr_def)
qed

text \<open>The owner of a hash value is the entry at the least clockwise distance, taken modulo \<open>2 ^ 64\<close>.\<close>

lemma hd_clockwise_nearest:
  assumes "sorted (map re_hash es)" and "es \<noteq> []" and "e' \<in> set es"
  shows "re_hash (hd (clockwise hv es)) - hv \<le> re_hash e' - hv"
proof (cases "filter (\<lambda>e. hv \<le> re_hash e) es")
  case Nil
  then have below: "re_hash x < hv" if "x \<in> set es" for x
    using that by (auto simp: filter_empty_conv)
  then have "filter (\<lambda>e. re_hash e < hv) es = es" by (simp add: filter_True)
  then have "hd (clockwise hv es) = hd es"
    using Nil by (simp add: clockwise_filter_form [OF assms(1)])
  moreover have "re_hash (hd es) \<le> re_hash e'"
    using assms by (cases es) auto
  moreover have "re_hash (hd es) < hv" "re_hash e' < hv" using below assms by auto
  ultimately show ?thesis
    by (simp add: word_le_nat_alt word_less_nat_alt unat_sub_if')
next
  case (Cons e es')
  have "sorted (map re_hash (e # es'))" using sorted_filter_hash [OF assms(1)] Cons by metis
  then have first: "re_hash e \<le> re_hash e'" if "hv \<le> re_hash e'"
  proof -
    have "e' \<in> set (filter (\<lambda>e. hv \<le> re_hash e) es)" using that assms(3) by simp
    then have "e' \<in> set (e # es')" by (simp only: Cons)
    with \<open>sorted (map re_hash (e # es'))\<close> show ?thesis by auto
  qed
  have "e \<in> set (filter (\<lambda>e. hv \<le> re_hash e) es)" using Cons by simp
  then have ge: "hv \<le> re_hash e" by simp
  have "hd (clockwise hv es) = e"
    using Cons by (simp add: clockwise_filter_form [OF assms(1)])
  with first ge show ?thesis
    using unsigned_less [of "re_hash e", where ?'a = nat] unsigned_less [of hv, where ?'a = nat]
    by (cases "hv \<le> re_hash e'") (auto simp: word_le_nat_alt unat_sub_if')
qed

text \<open>Filtering one node out of the walk keeps the order of the others.\<close>

lemma prefix_filter_take: "prefix (filter P (take k xs)) (take k (filter P xs))"
proof (induction xs arbitrary: k)
  case (Cons x xs)
  show ?case
  proof (cases k)
    case (Suc k')
    have "prefix (take k' (filter P xs)) (take k (filter P xs))"
      unfolding Suc by (metis le_SucI le_refl min.absorb1 take_is_prefix take_take)
    with Suc Cons.IH [of k'] show ?thesis by (auto intro: prefix_order.trans)
  qed simp
qed simp

lemma filter_to_replica:
  "filter (\<lambda>p. NodeID p \<noteq> n) (map to_replica es) = map to_replica (filter (\<lambda>e. re_nodeID e \<noteq> n) es)"
  by (simp add: filter_map o_def to_replica_def)

lemma GetReplicas_RemoveNode:
  assumes "ring_sorted r"
  shows "prefix (filter (\<lambda>p. NodeID p \<noteq> n) (GetReplicas h key cnt r)) (GetReplicas h key cnt (RemoveNode n r))"
proof -
  have "ring_sorted (RemoveNode n r)"
    using assms by (simp add: ring_sorted_def RemoveNode_def sorted_filter_hash)
  then have "GetReplicas h key cnt (RemoveNode n r) =
      take (nat cnt) (filter (\<lambda>p. NodeID p \<noteq> n)
        (map to_replica (first_per_node {} (clockwise (h key) (entries r)))))"
    using assms by (simp add: GetReplicas_clockwise RemoveNode_def clockwise_filter ring_sorted_def
        first_per_node_filter filter_to_replica)
  then show ?thesis
    using assms by (simp add: GetReplicas_clockwise prefix_filter_take)
qed

lemma GetReplicas_GetNode:
  assumes "ring_sorted r" and "entries r \<noteq> []" and "0 < cnt"
  shows "\<exists>ps. GetReplicas h key cnt r =
    \<lparr>NodeID = fst (GetNode h key r), Address = snd (GetNode h key r)\<rparr> # ps"
proof -
  obtain e es where "clockwise (h key) (entries r) = e # es"
    using assms(2) by (meson clockwise_eq_Nil neq_Nil_conv)
  moreover have "nat cnt = Suc (nat cnt - 1)" using assms(3) by simp
  ultimately show ?thesis
    using assms(1) by (simp add: GetReplicas_clockwise GetNode_clockwise to_replica_def take_Cons')
qed

lemma GetNode_RemoveNode:
  assumes "ring_sorted r" and "fst (GetNode h key r) \<noteq> n"
  shows "GetNode h key (RemoveNode n r) = GetNode h key r"
proof (cases "clockwise (h key) (entries r)")
  case (Cons e es)
  have "ring_sorted (RemoveNode n r)"
    using assms by (simp add: ring_sorted_def RemoveNode_def sorted_filter_hash)
  with Cons assms show ?thesis
    by (simp add: GetNode_clockwise RemoveNode_def clockwise_filter ring_sorted_def)
qed (simp add: GetNode_def RemoveNode_def)

lemma GetReplicas_members:
  assumes "ring_inv h r"
  shows "NodeID ` set (GetReplicas h key cnt r) \<subseteq> nodes r"
proof -
  let ?fs = "first_per_node {} (clockwise (h key) (entries r))"
  have "set (GetReplicas h key cnt r) \<subseteq> to_replica ` set ?fs"
    using assms set_take_subset [of "nat cnt" "map to_replica ?fs"]
    by (simp add: ring_inv_def GetReplicas_clockwise)
  then have "NodeID ` set (GetReplicas h key cnt r) \<subseteq> re_nodeID ` set ?fs"
    by (auto simp: to_replica_def)
  also have "\<dots> = nodes r" using ring_inv_nodes [OF assms] by (simp add: first_per_node_nodes)
  finally show ?thesis .
qed

lemma GetReplicas_all:
  assumes "ring_inv h r" and "int (card (nodes r)) \<le> cnt"
  shows "NodeID ` set (GetReplicas h key cnt r) = nodes r"
proof -
  let ?fs = "first_per_node {} (clockwise (h key) (entries r))"
  have n: "re_nodeID ` set ?fs = nodes r" using ring_inv_nodes [OF assms(1)] by (simp add: first_per_node_nodes)
  have "distinct (map re_nodeID ?fs)" by (rule first_per_node_distinct)
  then have "length ?fs = card (nodes r)" by (metis n distinct_card length_map set_map)
  then have "GetReplicas h key cnt r = map to_replica ?fs"
    using assms by (simp add: ring_inv_def GetReplicas_clockwise)
  then show ?thesis using n by (simp add: image_image to_replica_def)
qed

text \<open>When several nodes leave, the replicas that are left stay the first of the key, and the first of them owns it.\<close>

lemma ring_inv_fold_RemoveNode: "ring_inv h r \<Longrightarrow> ring_inv h (fold RemoveNode gone r)"
  by (induction gone arbitrary: r) (simp_all add: ring_inv_RemoveNode)

lemma GetReplicas_fold_RemoveNode:
  assumes "ring_inv h r"
  shows "prefix (filter (\<lambda>p. NodeID p \<notin> set gone) (GetReplicas h key cnt r)) (GetReplicas h key cnt (fold RemoveNode gone r))"
  using assms
proof (induction gone arbitrary: r)
  case (Cons n gone)
  let ?left = "filter (\<lambda>p. NodeID p \<notin> set gone)"
  have "prefix (filter (\<lambda>p. NodeID p \<noteq> n) (GetReplicas h key cnt r)) (GetReplicas h key cnt (RemoveNode n r))"
    using Cons.prems by (intro GetReplicas_RemoveNode) (simp add: ring_inv_def)
  then have "prefix (?left (filter (\<lambda>p. NodeID p \<noteq> n) (GetReplicas h key cnt r))) (?left (GetReplicas h key cnt (RemoveNode n r)))"
    by (rule filter_mono_prefix)
  moreover have "?left (filter (\<lambda>p. NodeID p \<noteq> n) xs) = filter (\<lambda>p. NodeID p \<notin> set (n # gone)) xs" for xs
    by (simp add: conj_commute cong: filter_cong)
  ultimately show ?case
    using Cons.IH [OF ring_inv_RemoveNode [OF Cons.prems], of n] by (auto intro: prefix_order.trans)
qed simp

lemma GetNode_fold_RemoveNode:
  assumes "ring_inv h r" and "m \<in> NodeID ` set (GetReplicas h key cnt r)" and "m \<notin> set gone"
  shows "fst (GetNode h key (fold RemoveNode gone r)) \<in> NodeID ` set (GetReplicas h key cnt r) - set gone"
proof -
  let ?r = "fold RemoveNode gone r" and ?left = "filter (\<lambda>p. NodeID p \<notin> set gone) (GetReplicas h key cnt r)"
  obtain q qs where left: "?left = q # qs" using assms(2,3) by (cases ?left) (auto simp: filter_empty_conv)
  then have "q \<in> set ?left" by simp
  then have q: "NodeID q \<in> NodeID ` set (GetReplicas h key cnt r) - set gone" by auto
  obtain rest where reps: "GetReplicas h key cnt ?r = q # rest"
    using GetReplicas_fold_RemoveNode [OF assms(1), of gone key cnt] unfolding left by (auto simp: prefix_def)
  have inv: "ring_inv h ?r" by (rule ring_inv_fold_RemoveNode [OF assms(1)])
  have "entries ?r \<noteq> []" "0 < cnt" using reps by (auto simp: GetReplicas_def split: if_splits)
  then obtain ps where "GetReplicas h key cnt ?r = \<lparr>NodeID = fst (GetNode h key ?r), Address = snd (GetNode h key ?r)\<rparr> # ps"
    using GetReplicas_GetNode [of ?r cnt h key] inv by (auto simp: ring_inv_def)
  then have "NodeID q = fst (GetNode h key ?r)" using reps by simp
  with q show ?thesis by simp
qed

section \<open>An example ring\<close>

text \<open>A concrete hash and a concrete ring of three nodes for the examples.\<close>

definition ex_hash :: hasher where
  "ex_hash s = foldl (\<lambda>acc c. 31 * acc + of_nat (of_char c)) 0 s"

definition ex_ops :: "ring_op list" where
  "ex_ops = [Add ''a'' ''x'' 2, Add ''b'' ''y'' 1, Add ''c'' ''z'' 1]"

definition ex_ring :: consistentHashring where
  "ex_ring = run_ring ex_hash (sort_key re_hash) ex_ops"

lemma ex_ring_inv: "ring_inv ex_hash ex_ring"
  unfolding ex_ring_def by (rule ring_repr_inv, rule ring_repr_run) (rule stable_sort.slice_sort_axioms)

lemma ex_ring_inj: "inj_on re_hash (set (entries ex_ring))"
  by code_simp

lemma ex_ring_nodes: "nodes ex_ring = {''a'', ''b'', ''c''}"
  by (simp add: ex_ring_def run_ring_def ex_ops_def apply_ring_op_def AddNode_fields Hashring.New_def insert_commute)

lemma ex_GetReplicas: "NodeID ` set (GetReplicas ex_hash key 3 ex_ring) = {''a'', ''b'', ''c''}"
  using GetReplicas_all [OF ex_ring_inv, of 3 key] by (simp add: ex_ring_nodes)

section \<open>Properties\<close>

text \<open>
  C22. Whatever sequence of \<open>AddNode\<close> and \<open>RemoveNode\<close> calls a ring has processed, it represents the
  membership those calls describe: the known nodes, their numbers of virtual nodes (5 where the
  caller gives none) and, sorted by hash, exactly the virtual nodes of the current members, each at
  the address of the node's latest \<open>AddNode\<close>. \<open>Nodes\<close> lists the members.
\<close>

theorem ring_run_refines_membership:
  assumes "slice_sort re_hash srt"
  shows "sorted (map re_hash (entries (run_ring h srt ops))) \<and>
    nodeReplicas (run_ring h srt ops) n = map_option snd (run_members ops n) \<and>
    mset (node_entries n (entries (run_ring h srt ops))) = mset (member_vnodes h (run_members ops) n) \<and>
    set (Nodes (run_ring h srt ops)) = dom (run_members ops)"
  using ring_repr_run [OF assms, of h ops]
  by (simp add: ring_repr_def ring_sorted_def Nodes_def)

theorem ring_run_refines_membership_witness:
  "sorted (map re_hash (entries ex_ring)) \<and>
   nodeReplicas ex_ring ''a'' = Some 2 \<and> set (Nodes ex_ring) = {''a'', ''b'', ''c''}"
  using ring_run_refines_membership [OF stable_sort.slice_sort_axioms, of ex_hash ex_ops "''a''"]
  by (auto simp: ex_ring_def run_members_def ex_ops_def member_op_def)

text \<open>
  C12. Two nodes that learn the same membership through different histories of joins, leaves and
  updates, and with different sorting algorithms, have the same ring, hence the same owner and the
  same replicas for every key and the same slot table, provided no two virtual nodes collide in the
  64-bit hash.
\<close>

theorem rings_agree:
  assumes "slice_sort re_hash srt" and "slice_sort re_hash srt'"
    and "run_members ops = run_members ops'" and "inj_on re_hash (set (entries (run_ring h srt ops)))"
  shows "RingSnapshot (run_ring h srt ops) = RingSnapshot (run_ring h srt' ops') \<and>
    GetNode h key (run_ring h srt ops) = GetNode h key (run_ring h srt' ops') \<and>
    GetReplicas h key cnt (run_ring h srt ops) = GetReplicas h key cnt (run_ring h srt' ops') \<and>
    GetSlotRanges h (run_ring h srt ops) = GetSlotRanges h (run_ring h srt' ops')"
proof -
  have "entries (run_ring h srt ops) = entries (run_ring h srt' ops')"
    by (rule ring_repr_unique [OF ring_repr_run [OF assms(1)] _ assms(4)])
      (simp add: assms(3) ring_repr_run [OF assms(2)])
  then show ?thesis by (simp add: RingSnapshot_def GetNode_def GetReplicas_def GetSlotRanges_def)
qed

theorem rings_agree_witness:
  "GetNode ex_hash ''k'' ex_ring = GetNode ex_hash ''k''
     (run_ring ex_hash (sort_key re_hash)
        [Add ''c'' ''z'' 1, Add ''b'' ''old'' 7, Add ''a'' ''x'' 2, Remove ''d'', Add ''b'' ''y'' 1])"
proof -
  have "run_members ex_ops =
      run_members [Add ''c'' ''z'' 1, Add ''b'' ''old'' 7, Add ''a'' ''x'' 2, Remove ''d'', Add ''b'' ''y'' 1]"
    by (rule ext) (simp add: run_members_def ex_ops_def member_op_def)
  from rings_agree [OF stable_sort.slice_sort_axioms stable_sort.slice_sort_axioms this
      ex_ring_inj [unfolded ex_ring_def]]
  show ?thesis by (simp add: ex_ring_def)
qed

text \<open>
  C23. \<open>GetNode\<close> on a ring with at least one virtual node returns the node and address of the entry
  nearest to the key's hash in clockwise direction, the distance taken modulo \<open>2 ^ 64\<close>: the binary
  search with its wrap to index 0 finds what a scan of the circle finds. On an empty ring it
  returns two empty strings.
\<close>

theorem GetNode_nearest_clockwise:
  assumes "ring_inv h r"
  shows "if nodes r = {} then GetNode h key r = ([], [])
    else \<exists>e \<in> set (entries r). GetNode h key r = (re_nodeID e, re_address e) \<and>
      re_nodeID e \<in> nodes r \<and> (\<forall>e' \<in> set (entries r). re_hash e - h key \<le> re_hash e' - h key)"
proof (cases "nodes r = {}")
  case True
  then have "entries r = []" using ring_inv_nodes [OF assms] by simp
  with True show ?thesis by (simp add: GetNode_def)
next
  case False
  have sorted: "sorted (map re_hash (entries r))" and ne: "entries r \<noteq> []"
    using assms False ring_inv_nodes [OF assms] by (auto simp: ring_inv_def ring_sorted_def)
  let ?e = "hd (clockwise (h key) (entries r))"
  have mem: "?e \<in> set (entries r)" using ne by (metis clockwise_eq_Nil hd_in_set set_clockwise)
  moreover have "GetNode h key r = (re_nodeID ?e, re_address ?e)"
    using nth_owner_index [OF sorted ne] ne by (simp add: GetNode_def Let_def)
  moreover have "re_nodeID ?e \<in> nodes r" using mem ring_inv_nodes [OF assms] by blast
  moreover have "\<forall>e' \<in> set (entries r). re_hash ?e - h key \<le> re_hash e' - h key"
    using hd_clockwise_nearest [OF sorted ne] by blast
  ultimately show ?thesis using False by auto
qed

theorem GetNode_nearest_clockwise_witness:
  "\<exists>e \<in> set (entries ex_ring). GetNode ex_hash ''k'' ex_ring = (re_nodeID e, re_address e) \<and>
    re_nodeID e \<in> nodes ex_ring \<and>
    (\<forall>e' \<in> set (entries ex_ring). re_hash e - ex_hash ''k'' \<le> re_hash e' - ex_hash ''k'')"
proof -
  have "nodes ex_ring \<noteq> {}"
    by (simp add: ex_ring_def run_ring_def ex_ops_def apply_ring_op_def AddNode_fields)
  with GetNode_nearest_clockwise [OF ex_ring_inv, of "''k''"] show ?thesis by simp
qed

text \<open>
  C15. \<open>GetReplicas\<close> returns pairwise different members of the ring, as many as asked for or all
  members if there are fewer; the first is the node \<open>GetNode\<close> names.
\<close>

theorem GetReplicas_distinct_members:
  assumes "ring_inv h r" and "0 < cnt"
  shows "distinct (map NodeID (GetReplicas h key cnt r)) \<and>
    NodeID ` set (GetReplicas h key cnt r) \<subseteq> nodes r \<and>
    length (GetReplicas h key cnt r) = min (nat cnt) (card (nodes r)) \<and>
    (nodes r \<noteq> {} \<longrightarrow> (NodeID (hd (GetReplicas h key cnt r)), Address (hd (GetReplicas h key cnt r))) = GetNode h key r)"
proof -
  let ?fs = "first_per_node {} (clockwise (h key) (entries r))"
  have sorted: "ring_sorted r" using assms(1) by (simp add: ring_inv_def)
  have rep: "GetReplicas h key cnt r = take (nat cnt) (map to_replica ?fs)"
    by (rule GetReplicas_clockwise [OF sorted])
  have ids: "map NodeID (GetReplicas h key cnt r) = take (nat cnt) (map re_nodeID ?fs)"
    by (simp add: rep take_map [symmetric] o_def to_replica_def)
  have "distinct (map NodeID (GetReplicas h key cnt r))"
    unfolding ids by (rule distinct_take) (rule first_per_node_distinct)
  moreover have "NodeID ` set (GetReplicas h key cnt r) \<subseteq> nodes r"
    by (rule GetReplicas_members [OF assms(1)])
  moreover have "length (GetReplicas h key cnt r) = min (nat cnt) (card (nodes r))"
    using ring_inv_nodes [OF assms(1)] by (simp add: rep length_first_per_node)
  moreover have "(NodeID (hd (GetReplicas h key cnt r)), Address (hd (GetReplicas h key cnt r))) = GetNode h key r"
    if "nodes r \<noteq> {}"
  proof -
    have "entries r \<noteq> []" using that ring_inv_nodes [OF assms(1)] by auto
    from GetReplicas_GetNode [OF sorted this assms(2), of h key] show ?thesis by auto
  qed
  ultimately show ?thesis by blast
qed

theorem GetReplicas_distinct_members_witness:
  "length (GetReplicas ex_hash ''k'' 2 ex_ring) = 2 \<and> distinct (map NodeID (GetReplicas ex_hash ''k'' 2 ex_ring))"
proof -
  have "card (nodes ex_ring) = 3"
    by (simp add: ex_ring_def run_ring_def ex_ops_def apply_ring_op_def AddNode_fields New_def)
  then show ?thesis using GetReplicas_distinct_members [OF ex_ring_inv, of 2 "''k''"] by simp
qed

text \<open>
  C24. Removing a node disturbs no one else: a key keeps its owner unless the owner is the removed
  node, and the replicas of a key other than the removed node stay, in the same order, the first
  replicas; at most the gap is filled from further along the circle.
\<close>

theorem RemoveNode_minimal_disruption:
  assumes "ring_inv h r"
  shows "(fst (GetNode h key r) \<noteq> n \<longrightarrow> GetNode h key (RemoveNode n r) = GetNode h key r) \<and>
    prefix (filter (\<lambda>p. NodeID p \<noteq> n) (GetReplicas h key cnt r)) (GetReplicas h key cnt (RemoveNode n r)) \<and>
    n \<notin> NodeID ` set (GetReplicas h key cnt (RemoveNode n r))"
proof -
  have sorted: "ring_sorted r" using assms by (simp add: ring_inv_def)
  have "ring_inv h (RemoveNode n r)" by (rule ring_inv_RemoveNode [OF assms])
  have "n \<notin> nodes (RemoveNode n r)" by (simp add: RemoveNode_def)
  then have "n \<notin> NodeID ` set (GetReplicas h key cnt (RemoveNode n r))"
    using GetReplicas_members [OF \<open>ring_inv h (RemoveNode n r)\<close>] by blast
  then show ?thesis
    using GetNode_RemoveNode [OF sorted, of h key n] GetReplicas_RemoveNode [OF sorted, of n h key cnt]
    by simp
qed

theorem RemoveNode_minimal_disruption_witness:
  "prefix (filter (\<lambda>p. NodeID p \<noteq> ''a'') (GetReplicas ex_hash ''k'' 2 ex_ring))
     (GetReplicas ex_hash ''k'' 2 (RemoveNode ''a'' ex_ring))"
  using RemoveNode_minimal_disruption [OF ex_ring_inv] by blast

text \<open>
  C25. Adding a node moves keys only to the new node: if the ring has no hash collisions, a key's
  owner after \<open>AddNode\<close> of a new node is the old owner or the new node, the old replicas keep their
  order, and removing the node again restores the ring.
\<close>

theorem AddNode_minimal_disruption:
  assumes "slice_sort re_hash srt" and "ring_inv h r" and "inj_on re_hash (set (entries r))" and "n \<notin> nodes r"
  shows "(GetNode h key (AddNode h srt n a c r) = GetNode h key r \<or>
      fst (GetNode h key (AddNode h srt n a c r)) = n) \<and>
    prefix (filter (\<lambda>p. NodeID p \<noteq> n) (GetReplicas h key cnt (AddNode h srt n a c r))) (GetReplicas h key cnt r) \<and>
    RemoveNode n (AddNode h srt n a c r) = r"
proof -
  have inv: "ring_inv h (AddNode h srt n a c r)" by (rule ring_inv_AddNode [OF assms(1,2)])
  have "n \<notin> re_nodeID ` set (entries r)" using assms(2,4) ring_inv_nodes by blast
  then have "filter (\<lambda>e. re_nodeID e \<noteq> n) (entries r) = entries r" by (auto simp: filter_id_conv)
  moreover have "nodeReplicas r n = None" using assms(2,4) by (auto simp: ring_inv_def)
  ultimately have "RemoveNode n r = r"
    using assms(4) by (simp add: RemoveNode_def removeNodeLocked_def fun_upd_idem)
  then have restored: "RemoveNode n (AddNode h srt n a c r) = r"
    using assms(1-3) remove_after_add by (metis ring_inv_def)
  have "ring_sorted (AddNode h srt n a c r)" using inv by (simp add: ring_inv_def)
  from GetNode_RemoveNode [OF this, of h key n] GetReplicas_RemoveNode [OF this, of n h key cnt] restored
  show ?thesis by auto
qed

theorem AddNode_minimal_disruption_witness:
  "RemoveNode ''d'' (AddNode ex_hash (sort_key re_hash) ''d'' ''w'' 3 ex_ring) = ex_ring"
proof -
  have "''d'' \<notin> nodes ex_ring"
    by (simp add: ex_ring_def run_ring_def ex_ops_def apply_ring_op_def AddNode_fields New_def)
  from AddNode_minimal_disruption [OF stable_sort.slice_sort_axioms ex_ring_inv ex_ring_inj this]
  show ?thesis by blast
qed

text \<open>
  C26. \<open>GetSlotRanges\<close> on a non-empty ring covers the slots 0 to 16383 exactly once, in ascending order;
  neighbouring ranges belong to different nodes, and every slot of a range is owned by the node of
  the range.
\<close>

theorem GetSlotRanges_partition:
  assumes "entries r \<noteq> []"
  shows "concat (map (\<lambda>rg. [Start rg..<Suc (End rg)]) (GetSlotRanges h r)) = [0..<numSlots] \<and>
    successively (\<lambda>a b. NodeID (Node a) \<noteq> NodeID (Node b)) (GetSlotRanges h r) \<and>
    (\<forall>rg \<in> set (GetSlotRanges h r). Start rg \<le> End rg \<and>
      (\<forall>s \<in> {Start rg..End rg}. NodeID (getSlotOwner h (entries r) s) = NodeID (Node rg)))"
proof -
  have slots: "range_slots = (\<lambda>rg. [Start rg..<Suc (End rg)])" by (simp add: range_slots_def fun_eq_iff del: upt_Suc)
  have eq: "{Start rg..End rg} = set (range_slots rg)" for rg
    by (simp add: range_slots_def atLeastLessThanSuc_atLeastAtMost del: upt_Suc)
  show ?thesis
    using GetSlotRanges_ok [OF assms, of h] unfolding ranges_ok_def eq unfolding slots by blast
qed

theorem GetSlotRanges_partition_witness:
  "concat (map (\<lambda>rg. [Start rg..<Suc (End rg)]) (GetSlotRanges ex_hash ex_ring)) = [0..<numSlots]"
proof -
  have "nodes ex_ring \<noteq> {}"
    by (simp add: ex_ring_def run_ring_def ex_ops_def apply_ring_op_def AddNode_fields)
  then have "entries ex_ring \<noteq> []" using ring_inv_nodes [OF ex_ring_inv] by fastforce
  from GetSlotRanges_partition [OF this, of ex_hash] show ?thesis by (rule conjunct1)
qed

end
