(* ===== verification/Resp.thy ===== *)
theory Resp
  imports Prelude "HOL-Library.Sublist"
begin

text \<open>
  The wire protocol, \<open>src/pkg/api\<close>: the values and their encoding (\<open>types.go\<close>), the reader
  (\<open>reader.go\<close>) and the writer (\<open>writer.go\<close>).

  A connection is the sequence of the bytes still to be read; when it is used up the underlying
  reader returns its final error. \<open>bufio.Reader\<close> has a buffer of 4096 bytes: \<open>ReadSlice\<close>
  returns up to and including the delimiter, or the full buffer and \<open>ErrBufferFull\<close>, or what is
  left and the final error, however the bytes arrive.
\<close>

section \<open>Values\<close>

text \<open>
  \<open>NilValue\<close> is the nil interface that \<open>readValue\<close> returns for a null array; \<open>BulkString None\<close>
  is a \<open>BulkString\<close> whose \<open>Data\<close> is nil.
\<close>

datatype Value =
    SimpleString string
  | Error string
  | Integer int
  | BulkString "string option"
  | Array "Value list"
  | NilValue

definition NewBulkString :: "string \<Rightarrow> Value" where
  "NewBulkString s = BulkString (Some s)"

definition NullBulkString :: Value where
  "NullBulkString = BulkString None"

definition OK :: Value where
  "OK = SimpleString ''OK''"

definition PONG :: Value where
  "PONG = SimpleString ''PONG''"

abbreviation CR :: char where "CR \<equiv> CHR 0x0D"
abbreviation LF :: char where "LF \<equiv> CHR 0x0A"
abbreviation CRLF :: string where "CRLF \<equiv> [CR, LF]"

text \<open>\<open>Resp\<close>; \<open>None\<close> is the panic of a method call on the nil interface.\<close>

fun Resp :: "Value \<Rightarrow> string option" where
  "Resp (SimpleString s) = Some (''+'' @ s @ CRLF)"
| "Resp (Error s) = Some (''-'' @ s @ CRLF)"
| "Resp (Integer i) = Some ('':'' @ itoa i @ CRLF)"
| "Resp (BulkString None) = Some (''$-1'' @ CRLF)"
| "Resp (BulkString (Some b)) = Some (''$'' @ itoa (int (length b)) @ CRLF @ b @ CRLF)"
| "Resp (Array vs) = map_option (\<lambda>bs. ''*'' @ itoa (int (length vs)) @ CRLF @ concat bs) (those (map Resp vs))"
| "Resp NilValue = None"

text \<open>
  The writer buffers until \<open>Flush\<close>; what reaches the connection is the concatenation of the
  encodings. \<open>WriteValue\<close> appends one encoding to the bytes sent.
\<close>

definition WriteValue :: "Value \<Rightarrow> string \<Rightarrow> string option" where
  "WriteValue v sent = map_option (\<lambda>b. sent @ b) (Resp v)"

section \<open>The reader\<close>

definition maxBulkStringLength :: int where "maxBulkStringLength = 67108864"
definition maxArrayLength :: int where "maxArrayLength = 1048576"
definition maxLineLength :: nat where "maxLineLength = 65536"
definition maxArrayDepth :: nat where "maxArrayDepth = 32"
definition bufSize :: nat where "bufSize = 4096"

datatype read_error =
    ErrStream
  | ErrBufferFull
  | ErrLineTooLong
  | ErrNoCRLF
  | ErrInteger string num_error
  | ErrBulkLength string num_error
  | ErrBulkNegative int
  | ErrBulkTooLong int
  | ErrShortBulk
  | ErrMissingCR
  | ErrExpectedCR char
  | ErrMissingLF
  | ErrExpectedLF char
  | ErrNesting
  | ErrArrayLength string num_error
  | ErrArrayNegative int
  | ErrArrayTooLong int
  | ErrElement nat read_error

text \<open>\<open>ReadSlice('\\n')\<close>: the bytes returned, the error if any, and the rest of the stream.\<close>

definition ReadSlice :: "string \<Rightarrow> string \<times> read_error option \<times> string" where
  "ReadSlice s =
     (let k = length (takeWhile (\<lambda>c. c \<noteq> LF) (take bufSize s))
      in if k < length (take bufSize s) then (take (Suc k) s, None, drop (Suc k) s)
         else if bufSize \<le> length s then (take bufSize s, Some ErrBufferFull, drop bufSize s)
         else (s, Some ErrStream, []))"

lemma ReadSlice_full_shorter:
  "ReadSlice s = (part, Some ErrBufferFull, rest) \<Longrightarrow> length rest < length s"
  by (auto simp: ReadSlice_def Let_def bufSize_def split: if_splits)

text \<open>The loop of \<open>readLine\<close> that gathers the line over full buffers.\<close>

function line_loop :: "string \<Rightarrow> string \<Rightarrow> (read_error + string) \<times> string" where
  "line_loop line s =
     (case ReadSlice s of (part, err, rest) \<Rightarrow>
        if maxLineLength < length line + length part then (Inl ErrLineTooLong, rest)
        else (case err of
            None \<Rightarrow> (Inr (line @ part), rest)
          | Some e \<Rightarrow> if e \<noteq> ErrBufferFull then (Inl e, rest) else line_loop (line @ part) rest))"
  by pat_completeness auto
termination
  by (relation "measure (\<lambda>(line, s). length s)") (auto dest: ReadSlice_full_shorter [OF sym])

declare line_loop.simps [simp del]

definition readLine :: "string \<Rightarrow> (read_error + string) \<times> string" where
  "readLine s =
     (case line_loop [] s of
        (Inl e, rest) \<Rightarrow> (Inl e, rest)
      | (Inr line, rest) \<Rightarrow>
          if length line < 2 \<or> line ! (length line - 2) \<noteq> CR then (Inl ErrNoCRLF, rest)
          else (Inr (take (length line - 2) line), rest))"

definition readSimpleString :: "string \<Rightarrow> (read_error + Value) \<times> string" where
  "readSimpleString s =
     (case readLine s of (Inl e, rest) \<Rightarrow> (Inl e, rest) | (Inr l, rest) \<Rightarrow> (Inr (SimpleString l), rest))"

definition readError :: "string \<Rightarrow> (read_error + Value) \<times> string" where
  "readError s =
     (case readLine s of (Inl e, rest) \<Rightarrow> (Inl e, rest) | (Inr l, rest) \<Rightarrow> (Inr (Error l), rest))"

definition readInteger :: "string \<Rightarrow> (read_error + Value) \<times> string" where
  "readInteger s =
     (case readLine s of
        (Inl e, rest) \<Rightarrow> (Inl e, rest)
      | (Inr l, rest) \<Rightarrow>
          (case atoi l of (_, Some e) \<Rightarrow> (Inl (ErrInteger l e), rest) | (n, None) \<Rightarrow> (Inr (Integer n), rest)))"

text \<open>\<open>io.ReadFull\<close>: exactly \<open>n\<close> bytes, or the error at the end of the stream.\<close>

definition ReadFull :: "nat \<Rightarrow> string \<Rightarrow> string option \<times> string" where
  "ReadFull n s = (if n \<le> length s then (Some (take n s), drop n s) else (None, []))"

text \<open>The part of \<open>readBulkString\<close> that reads the payload and its terminator.\<close>

definition read_payload :: "nat \<Rightarrow> string \<Rightarrow> (read_error + Value) \<times> string" where
  "read_payload n s =
     (case ReadFull n s of
        (None, s1) \<Rightarrow> (Inl ErrShortBulk, s1)
      | (Some buf, s1) \<Rightarrow>
          (case ReadFull 1 s1 of
             (None, s2) \<Rightarrow> (Inl ErrMissingCR, s2)
           | (Some cr, s2) \<Rightarrow>
               if hd cr \<noteq> CR then (Inl (ErrExpectedCR (hd cr)), s2)
               else (case ReadFull 1 s2 of
                   (None, s3) \<Rightarrow> (Inl ErrMissingLF, s3)
                 | (Some lf, s3) \<Rightarrow>
                     if hd lf \<noteq> LF then (Inl (ErrExpectedLF (hd lf)), s3)
                     else (Inr (BulkString (Some buf)), s3))))"

definition readBulkString :: "string \<Rightarrow> (read_error + Value) \<times> string" where
  "readBulkString s =
     (case readLine s of
        (Inl e, rest) \<Rightarrow> (Inl e, rest)
      | (Inr l, rest) \<Rightarrow>
          if l = ''-1'' then (Inr NullBulkString, rest)
          else (case atoi l of
              (_, Some e) \<Rightarrow> (Inl (ErrBulkLength l e), rest)
            | (n, None) \<Rightarrow>
                if n < 0 then (Inl (ErrBulkNegative n), rest)
                else if maxBulkStringLength < n then (Inl (ErrBulkTooLong n), rest)
                else read_payload (nat n) rest))"

text \<open>
  \<open>strings.Fields\<close>. Fields are separated by the six ASCII spaces and, in a string with bytes
  above 127, by the UTF-8 encodings of the other characters of \<open>unicode.IsSpace\<close>: U+0085,
  U+00A0, U+1680, U+2000 to U+200A, U+2028, U+2029, U+202F, U+205F and U+3000. Their first bytes never
  occur inside another encoded character, so a scan for the byte patterns finds exactly the
  spaces that decoding finds. \<open>space_len\<close> is the number of bytes of the space at the front.
\<close>

definition space_len :: "string \<Rightarrow> nat" where
  "space_len s =
     (case map of_char (take 3 s) :: nat list of
        [] \<Rightarrow> 0
      | a # bs \<Rightarrow>
          if (9 \<le> a \<and> a \<le> 13) \<or> a = 32 then 1
          else (case bs of
              [] \<Rightarrow> 0
            | b # cs \<Rightarrow>
                if a = 0xC2 \<and> (b = 0x85 \<or> b = 0xA0) then 2
                else (case cs of
                    [] \<Rightarrow> 0
                  | c # _ \<Rightarrow>
                      if (a = 0xE1 \<and> b = 0x9A \<and> c = 0x80) \<or>
                         (a = 0xE2 \<and> b = 0x80 \<and> ((0x80 \<le> c \<and> c \<le> 0x8A) \<or> c = 0xA8 \<or> c = 0xA9 \<or> c = 0xAF)) \<or>
                         (a = 0xE2 \<and> b = 0x81 \<and> c = 0x9F) \<or> (a = 0xE3 \<and> b = 0x80 \<and> c = 0x80)
                      then 3 else 0)))"

function fields_loop :: "string \<Rightarrow> string \<Rightarrow> string list" where
  "fields_loop cur [] = (if cur = [] then [] else [cur])"
| "fields_loop cur (c # cs) =
     (if space_len (c # cs) = 0 then fields_loop (cur @ [c]) cs
      else (if cur = [] then [] else [cur]) @ fields_loop [] (drop (space_len (c # cs)) (c # cs)))"
  by pat_completeness auto
termination
  by (relation "measure (\<lambda>(cur, s). length s)") auto

definition Fields :: "string \<Rightarrow> string list" where
  "Fields s = fields_loop [] s"

definition readInline :: "string \<Rightarrow> (read_error + Value) \<times> string" where
  "readInline s =
     (case readLine s of
        (Inl e, rest) \<Rightarrow> (Inl e, rest)
      | (Inr l, rest) \<Rightarrow> (Inr (Array (map NewBulkString (Fields l))), rest))"

text \<open>The first part of \<open>readArray\<close>: the length, or \<open>None\<close> for the null array.\<close>

definition read_array_length :: "string \<Rightarrow> (read_error + nat option) \<times> string" where
  "read_array_length s =
     (case readLine s of
        (Inl e, rest) \<Rightarrow> (Inl e, rest)
      | (Inr l, rest) \<Rightarrow>
          if l = ''-1'' then (Inr None, rest)
          else (case atoi l of
              (_, Some e) \<Rightarrow> (Inl (ErrArrayLength l e), rest)
            | (n, None) \<Rightarrow>
                if n < 0 then (Inl (ErrArrayNegative n), rest)
                else if maxArrayLength < n then (Inl (ErrArrayTooLong n), rest)
                else (Inr (Some (nat n)), rest)))"

text \<open>\<open>readValue\<close> and the element loop of \<open>readArray\<close>, which has \<open>n\<close> elements from index \<open>i\<close> to go.\<close>

function readValue :: "nat \<Rightarrow> string \<Rightarrow> (read_error + Value) \<times> string"
  and read_elems :: "nat \<Rightarrow> nat \<Rightarrow> nat \<Rightarrow> Value list \<Rightarrow> string \<Rightarrow> (read_error + Value) \<times> string" where
  "readValue depth s =
     (case s of
        [] \<Rightarrow> (Inl ErrStream, [])
      | b # rest \<Rightarrow>
          if b = CHR ''+'' then readSimpleString rest
          else if b = CHR ''-'' then readError rest
          else if b = CHR '':'' then readInteger rest
          else if b = CHR ''$'' then readBulkString rest
          else if b = CHR ''*'' then
            (if maxArrayDepth \<le> depth then (Inl ErrNesting, rest)
             else (case read_array_length rest of
                 (Inl e, s1) \<Rightarrow> (Inl e, s1)
               | (Inr None, s1) \<Rightarrow> (Inr NilValue, s1)
               | (Inr (Some n), s1) \<Rightarrow> read_elems (Suc depth) n 0 [] s1))
          else readInline s)"
| "read_elems depth n i arr s =
     (case n of
        0 \<Rightarrow> (Inr (Array arr), s)
      | Suc m \<Rightarrow>
          (case readValue depth s of
             (Inl e, s1) \<Rightarrow> (Inl (ErrElement i e), s1)
           | (Inr v, s1) \<Rightarrow> read_elems depth m (Suc i) (arr @ [v]) s1))"
  by pat_completeness auto
termination
  by (relation "inv_image (less_than <*lex*> less_than)
      (\<lambda>x. case x of Inl (d, _) \<Rightarrow> (Suc maxArrayDepth - d, 0) | Inr (d, n, _) \<Rightarrow> (Suc maxArrayDepth - d, n))")
    auto

declare readValue.simps [simp del] read_elems.simps [simp del]

definition ReadValue :: "string \<Rightarrow> (read_error + Value) \<times> string" where
  "ReadValue s = readValue 0 s"

section \<open>Lemmas on lines\<close>

text \<open>The line at the front of a stream, with its newline where there is one.\<close>

definition front_line :: "string \<Rightarrow> string" where
  "front_line s = takeWhile (\<lambda>c. c \<noteq> LF) s @ (if LF \<in> set s then [LF] else [])"

lemma length_takeWhile_take: "length (takeWhile P (take n xs)) = min n (length (takeWhile P xs))"
proof (induction xs arbitrary: n)
  case (Cons x xs)
  then show ?case by (cases n) auto
qed simp

lemma takeWhile_LF_append: "LF \<notin> set a \<Longrightarrow> takeWhile (\<lambda>c. c \<noteq> LF) (a @ b) = a @ takeWhile (\<lambda>c. c \<noteq> LF) b"
  by (rule takeWhile_append2) auto

lemma takeWhile_LF_all: "LF \<notin> set a \<Longrightarrow> takeWhile (\<lambda>c. c \<noteq> LF) a = a"
  using takeWhile_LF_append [of a "[]"] by simp

lemma front_line_take: "front_line s = take (length (front_line s)) s"
proof (cases "LF \<in> set s")
  case True
  then obtain a b where "s = a @ LF # b" "LF \<notin> set a" by (meson split_list_first)
  then show ?thesis by (simp add: front_line_def takeWhile_LF_append)
next
  case False
  then show ?thesis by (simp add: front_line_def takeWhile_LF_all)
qed

lemma front_line_append: "LF \<notin> set a \<Longrightarrow> front_line (a @ b) = a @ front_line b"
  by (simp add: front_line_def takeWhile_LF_append)

lemma front_line_Cons: "front_line (c # s) = c # (if c = LF then [] else front_line s)"
  by (simp add: front_line_def)

lemma front_line_none: "LF \<notin> set s \<Longrightarrow> front_line s = s"
  by (simp add: front_line_def takeWhile_LF_all)

lemma length_front_line_le: "length (front_line s) \<le> length s"
  by (metis front_line_take length_take min.cobounded1)

lemma ReadSlice_line:
  assumes "LF \<in> set s" and "length (front_line s) \<le> bufSize"
  shows "ReadSlice s = (front_line s, None, drop (length (front_line s)) s)"
proof -
  have fl: "length (front_line s) = Suc (length (takeWhile (\<lambda>c. c \<noteq> LF) s))"
    using assms(1) by (simp add: front_line_def)
  then show ?thesis
    using assms(2) length_front_line_le [of s] front_line_take [of s]
    by (simp add: ReadSlice_def Let_def length_takeWhile_take)
qed

lemma ReadSlice_full:
  assumes "bufSize < length (front_line s) \<or> length (front_line s) = bufSize \<and> LF \<notin> set s"
  shows "ReadSlice s = (take bufSize s, Some ErrBufferFull, drop bufSize s)" and "LF \<notin> set (take bufSize s)"
proof -
  have tw: "bufSize \<le> length (takeWhile (\<lambda>c. c \<noteq> LF) s)"
    using assms by (auto simp: front_line_def split: if_splits)
  then have "bufSize \<le> length s" using length_takeWhile_le order_trans by blast
  with tw show "ReadSlice s = (take bufSize s, Some ErrBufferFull, drop bufSize s)"
    by (simp add: ReadSlice_def Let_def length_takeWhile_take)
  have "take bufSize (takeWhile (\<lambda>c. c \<noteq> LF) s @ dropWhile (\<lambda>c. c \<noteq> LF) s) = take bufSize (takeWhile (\<lambda>c. c \<noteq> LF) s)"
    using tw by (simp only: take_append) simp
  then have take: "take bufSize s = take bufSize (takeWhile (\<lambda>c. c \<noteq> LF) s)"
    by (simp only: takeWhile_dropWhile_id)
  show "LF \<notin> set (take bufSize s)"
    unfolding take by (auto dest: in_set_takeD set_takeWhileD)
qed

lemma ReadSlice_end:
  assumes "LF \<notin> set s" and "length s < bufSize"
  shows "ReadSlice s = (s, Some ErrStream, [])"
  using assms by (simp add: ReadSlice_def Let_def takeWhile_LF_all)

text \<open>Gathering a line over full buffers is the same as one scan for the newline.\<close>

lemma line_loop_front_line:
  assumes "length line \<le> maxLineLength"
  shows "if maxLineLength < length line + length (front_line s) then fst (line_loop line s) = Inl ErrLineTooLong
    else if LF \<in> set s then line_loop line s = (Inr (line @ front_line s), drop (length (front_line s)) s)
    else line_loop line s = (Inl ErrStream, [])"
  using assms
proof (induction line s rule: line_loop.induct)
  case (1 line s)
  consider (line) "LF \<in> set s" "length (front_line s) \<le> bufSize"
    | (full) "bufSize < length (front_line s) \<or> length (front_line s) = bufSize \<and> LF \<notin> set s"
    | (last) "LF \<notin> set s" "length s < bufSize"
    using front_line_none [of s] by (metis not_le linorder_neqE_nat)
  then show ?case
  proof cases
    case line
    then show ?thesis by (simp add: line_loop.simps [of line s] ReadSlice_line)
  next
    case last
    then show ?thesis by (simp add: line_loop.simps [of line s] ReadSlice_end front_line_none)
  next
    case full
    let ?p = "take bufSize s"
    have slice: "ReadSlice s = (?p, Some ErrBufferFull, drop bufSize s)" and p: "LF \<notin> set ?p"
      using ReadSlice_full [OF full] by auto
    have len: "length ?p = bufSize" using full length_front_line_le [of s] by auto
    have fl: "front_line s = ?p @ front_line (drop bufSize s)"
      using front_line_append [OF p, of "drop bufSize s"] by simp
    have mem: "LF \<in> set s \<longleftrightarrow> LF \<in> set (drop bufSize s)"
      using p by (metis append_take_drop_id Un_iff set_append)
    show ?thesis
    proof (cases "maxLineLength < length line + length ?p")
      case True
      then show ?thesis by (simp add: line_loop.simps [of line s] slice fl)
    next
      case False
      then have "line_loop line s = line_loop (line @ ?p) (drop bufSize s)"
        by (simp add: line_loop.simps [of line s] slice)
      moreover have "length (line @ ?p) \<le> maxLineLength" using False by simp
      with 1 slice False
      have "if maxLineLength < length (line @ ?p) + length (front_line (drop bufSize s))
          then fst (line_loop (line @ ?p) (drop bufSize s)) = Inl ErrLineTooLong
          else if LF \<in> set (drop bufSize s)
          then line_loop (line @ ?p) (drop bufSize s) = (Inr ((line @ ?p) @ front_line (drop bufSize s)),
            drop (length (front_line (drop bufSize s))) (drop bufSize s))
          else line_loop (line @ ?p) (drop bufSize s) = (Inl ErrStream, [])" by auto
      ultimately show ?thesis
        using len by (simp add: mem fl add.assoc add.commute)
    qed
  qed
qed

lemma readLine_ok:
  assumes "LF \<notin> set l" and "length l + 2 \<le> maxLineLength"
  shows "readLine (l @ CR # LF # rest) = (Inr l, rest)"
proof -
  have fl: "front_line (l @ CR # LF # rest) = l @ CRLF"
    using assms(1) by (simp add: front_line_append front_line_Cons)
  have "line_loop [] (l @ CR # LF # rest) = (Inr (l @ CRLF), rest)"
    using line_loop_front_line [of "[]" "l @ CR # LF # rest"] assms(2) by (simp add: fl)
  then show ?thesis by (simp add: readLine_def nth_append)
qed

lemma readLine_Inr:
  assumes "readLine s = (Inr l, rest)"
  shows "s = l @ CR # LF # rest" and "LF \<notin> set l" and "length l + 2 \<le> maxLineLength"
proof -
  obtain line where ll: "line_loop [] s = (Inr line, rest)" "2 \<le> length line" "line ! (length line - 2) = CR"
      "l = take (length line - 2) line"
    using assms by (auto simp: readLine_def split: prod.splits sum.splits if_splits)
  then have mem: "LF \<in> set s" and len: "length (front_line s) \<le> maxLineLength"
    and line: "line = front_line s" and rest: "rest = drop (length (front_line s)) s"
    using line_loop_front_line [of "[]" s] by (auto split: if_splits)
  have tw: "line = takeWhile (\<lambda>c. c \<noteq> LF) s @ [LF]" using line mem by (simp add: front_line_def)
  let ?t = "takeWhile (\<lambda>c. c \<noteq> LF) s"
  have "?t \<noteq> []" using ll(2) tw by auto
  moreover have "last ?t = CR"
    using ll(3) \<open>?t \<noteq> []\<close> by (simp add: tw nth_append last_conv_nth)
  moreover have "l = butlast ?t" using ll(4) by (simp add: tw butlast_conv_take)
  ultimately have t: "?t = l @ [CR]" by (metis append_butlast_last_id)
  have "s = front_line s @ rest" using rest front_line_take by (metis append_take_drop_id)
  then show "s = l @ CR # LF # rest" using line tw t by (metis append.assoc append_Cons append_Nil)
  have "LF \<notin> set ?t" using set_takeWhileD by fastforce
  then show "LF \<notin> set l" by (simp add: t)
  show "length l + 2 \<le> maxLineLength" using len unfolding line [symmetric] tw t by simp
qed

section \<open>Limits of values and the round trip\<close>

text \<open>
  The limits of the reader: a value of at most \<open>k\<close> levels of arrays whose texts, lengths and numbers
  are within the constants of \<open>reader.go\<close>.
\<close>

fun in_limits :: "nat \<Rightarrow> Value \<Rightarrow> bool" where
  "in_limits k (SimpleString s) \<longleftrightarrow> LF \<notin> set s \<and> length s + 2 \<le> maxLineLength"
| "in_limits k (Error s) \<longleftrightarrow> LF \<notin> set s \<and> length s + 2 \<le> maxLineLength"
| "in_limits k (Integer i) \<longleftrightarrow> - (2 ^ 63) \<le> i \<and> i < 2 ^ 63"
| "in_limits k (BulkString None) \<longleftrightarrow> True"
| "in_limits k (BulkString (Some b)) \<longleftrightarrow> int (length b) \<le> maxBulkStringLength"
| "in_limits 0 (Array vs) \<longleftrightarrow> False"
| "in_limits (Suc k) (Array vs) \<longleftrightarrow> int (length vs) \<le> maxArrayLength \<and> (\<forall>v \<in> set vs. in_limits k v)"
| "in_limits k NilValue \<longleftrightarrow> True"

fun has_nil :: "Value \<Rightarrow> bool" where
  "has_nil NilValue \<longleftrightarrow> True"
| "has_nil (Array vs) \<longleftrightarrow> (\<exists>v \<in> set vs. has_nil v)"
| "has_nil _ \<longleftrightarrow> False"

lemma those_eq_None: "those xs = None \<longleftrightarrow> None \<in> set xs"
  by (induction xs) (auto split: option.splits)

lemma those_map_Some: "those (map f xs) = Some ys \<Longrightarrow> list_all2 (\<lambda>x y. f x = Some y) xs ys"
  by (induction xs arbitrary: ys) (auto split: option.splits)

text \<open>Encoding fails exactly on values that contain the nil interface.\<close>

lemma Resp_None: "Resp v = None \<longleftrightarrow> has_nil v"
  by (induction v rule: Resp.induct) (auto simp: those_eq_None image_iff eq_commute [of None])

lemma length_nat_digits: "n < 10 ^ Suc k \<Longrightarrow> length (nat_digits n) \<le> Suc k"
proof (induction k arbitrary: n)
  case 0
  then show ?case by (simp add: nat_digits.simps [of n])
next
  case (Suc k)
  then have "n div 10 < 10 ^ Suc k" by (simp add: less_mult_imp_div_less mult.commute)
  with Suc.IH show ?case by (simp add: nat_digits.simps [of n])
qed

lemma length_itoa:
  assumes "- (2 ^ 63) \<le> i" and "i < 2 ^ 63"
  shows "length (itoa i) + 2 \<le> maxLineLength"
proof -
  have "nat \<bar>i\<bar> \<le> 2 ^ 63" using assms by (simp add: nat_le_iff)
  also have "(2::nat) ^ 63 < 10 ^ Suc 19" by simp
  finally have "length (nat_digits (nat \<bar>i\<bar>)) \<le> Suc 19" by (rule length_nat_digits)
  then show ?thesis by (auto simp: itoa_def maxLineLength_def)
qed

lemma readLine_itoa:
  assumes "- (2 ^ 63) \<le> i" and "i < 2 ^ 63"
  shows "readLine (itoa i @ CR # LF # rest) = (Inr (itoa i), rest)"
  using itoa_no_newline length_itoa [OF assms] by (rule readLine_ok)

lemma itoa_nonneg_neq: "0 \<le> i \<Longrightarrow> itoa i \<noteq> CHR ''-'' # s"
  using nat_digits_is_digit [of "CHR ''-''" "nat i"] by (cases "nat_digits (nat i)") (auto simp: itoa_def)

lemma ReadFull_append [simp]: "ReadFull (length a) (a @ b) = (Some a, b)"
  by (simp add: ReadFull_def)

lemma ReadFull_Cons [simp]: "ReadFull (Suc 0) (c # b) = (Some [c], b)"
  by (simp add: ReadFull_def)

lemma readBulkString_Resp:
  assumes "int (length b) \<le> maxBulkStringLength"
  shows "readBulkString (itoa (int (length b)) @ CR # LF # b @ CR # LF # rest) = (Inr (BulkString (Some b)), rest)"
proof -
  have r: "- (2 ^ 63) \<le> int (length b)" "int (length b) < 2 ^ 63"
    using assms by (auto simp: maxBulkStringLength_def)
  then show ?thesis
    using assms by (simp add: readBulkString_def readLine_itoa atoi_itoa itoa_nonneg_neq read_payload_def)
qed

lemma read_array_length_Resp:
  assumes "int n \<le> maxArrayLength"
  shows "read_array_length (itoa (int n) @ CR # LF # rest) = (Inr (Some n), rest)"
proof -
  have r: "- (2 ^ 63) \<le> int n" "int n < 2 ^ 63"
    using assms by (auto simp: maxArrayLength_def)
  then show ?thesis
    using assms by (simp add: read_array_length_def readLine_itoa atoi_itoa itoa_nonneg_neq)
qed

lemma read_elems_Resp:
  assumes "list_all2 (\<lambda>v b. \<forall>rest. readValue d (b @ rest) = (Inr v, rest)) vs bs"
  shows "read_elems d (length vs) i arr (concat bs @ rest) = (Inr (Array (arr @ vs)), rest)"
  using assms
proof (induction vs bs arbitrary: i arr rule: list_all2_induct)
  case Nil
  then show ?case by (simp add: read_elems.simps)
next
  case (Cons v vs b bs)
  then show ?case by (simp add: read_elems.simps [of d "Suc (length vs)"])
qed

lemma readValue_Resp:
  assumes "in_limits k v" and "d + k = maxArrayDepth" and "Resp v = Some b"
  shows "readValue d (b @ rest) = (Inr v, rest)"
  using assms
proof (induction k v arbitrary: d b rest rule: in_limits.induct)
  case (1 k s)
  then show ?case by (auto simp: readValue.simps [of d] readSimpleString_def readLine_ok)
next
  case (2 k s)
  then show ?case by (auto simp: readValue.simps [of d] readError_def readLine_ok)
next
  case (3 k i)
  then show ?case by (auto simp: readValue.simps [of d] readInteger_def readLine_itoa atoi_itoa)
next
  case (4 k)
  then show ?case
    using readLine_ok [of "''-1''" rest]
    by (auto simp: readValue.simps [of d] readBulkString_def NullBulkString_def maxLineLength_def)
next
  case (5 k b')
  then show ?case by (auto simp: readValue.simps [of d] readBulkString_Resp)
next
  case (7 k vs)
  obtain bs where bs: "those (map Resp vs) = Some bs" "b = ''*'' @ itoa (int (length vs)) @ CRLF @ concat bs"
    using 7(4) by auto
  have "list_all2 (\<lambda>v b. \<forall>rest. readValue (Suc d) (b @ rest) = (Inr v, rest)) vs bs"
    using those_map_Some [OF bs(1)] 7(1-3) by (auto simp: list_all2_conv_all_nth)
  from read_elems_Resp [OF this] show ?case
    using 7(2,3) by (simp add: readValue.simps [of d] bs(2) read_array_length_Resp)
qed auto

section \<open>What the reader returns\<close>

lemma atoi_bounds:
  assumes "atoi s = (n, None)"
  shows "- (2 ^ 63) \<le> n \<and> n < 2 ^ 63"
proof -
  obtain c cs where s: "s = c # cs" using assms by (cases s) (auto simp: atoi_def)
  define body where "body = (if c = CHR ''-'' \<or> c = CHR ''+'' then cs else c # cs)"
  obtain un e where p: "parse_uint body 0 = (un, e)" by fastforce
  let ?signed = "if \<not> c = CHR ''-'' \<and> 2 ^ 63 \<le> un then (2 ^ 63 - 1, Some ErrRange)
      else if c = CHR ''-'' \<and> 2 ^ 63 < un then (- (2 ^ 63), Some ErrRange)
      else (if c = CHR ''-'' then - int un else int un, None)"
  have "atoi s = (if body = [] \<or> e = Some ErrSyntax then (0, Some ErrSyntax) else ?signed)"
    unfolding atoi_def s list.case Let_def body_def [symmetric] p
    by (cases "body = []"; cases e; cases "the e") (simp_all split del: if_split)
  then have "?signed = (n, None)" using assms by (simp split del: if_split split: if_split_asm)
  then show ?thesis by (cases "c = CHR ''-''") (simp_all split: if_split_asm)
qed

lemma fields_loop_length: "length (concat (fields_loop cur s)) \<le> length cur + length s"
proof (induction cur s rule: fields_loop.induct)
  case (2 cur c cs)
  then show ?case by (auto simp: Let_def)
qed simp

lemma fields_loop_nonempty: "[] \<notin> set (fields_loop cur s)"
  by (induction cur s rule: fields_loop.induct) auto

lemma length_concat_ge: "[] \<notin> set ws \<Longrightarrow> length ws \<le> length (concat ws)"
proof (induction ws)
  case (Cons w ws)
  then show ?case by (cases w) auto
qed simp

lemma length_le_concat: "w \<in> set ws \<Longrightarrow> length w \<le> length (concat ws)"
  by (induction ws) auto

lemma Fields_limits: "length (Fields s) \<le> length s" "w \<in> set (Fields s) \<Longrightarrow> length w \<le> length s"
  using fields_loop_length [of "[]" s] fields_loop_nonempty [of "[]" s]
    length_concat_ge [of "Fields s"] length_le_concat [of w "Fields s"]
  by (auto simp: Fields_def)

lemma readLine_suffix: "readLine s = (Inr l, rest) \<Longrightarrow> strict_suffix rest s"
  using readLine_Inr(1) [of s l rest] by (auto simp: strict_suffix_def suffix_def)

lemma suffix_ReadFull: "ReadFull n s = (x, rest) \<Longrightarrow> suffix rest s"
  by (auto simp: ReadFull_def suffix_drop split: if_splits)

lemma read_payload_Inr:
  assumes "read_payload n s = (Inr v, rest)"
  shows "suffix rest s" and "\<exists>b. v = BulkString (Some b) \<and> length b = n"
proof -
  obtain buf s1 where 1: "ReadFull n s = (Some buf, s1)"
    using assms by (auto simp: read_payload_def split: prod.splits option.splits)
  then obtain cr s2 where 2: "ReadFull 1 s1 = (Some cr, s2)"
    using assms by (auto simp: read_payload_def split: prod.splits option.splits)
  with 1 obtain lf where 3: "ReadFull 1 s2 = (Some lf, rest)" and v: "v = BulkString (Some buf)"
    using assms by (auto simp: read_payload_def split: prod.splits option.splits if_splits)
  show "suffix rest s" using 1 2 3 by (meson suffix_ReadFull suffix_order.trans)
  show "\<exists>b. v = BulkString (Some b) \<and> length b = n"
    using 1 v by (auto simp: ReadFull_def split: if_splits)
qed

lemma readSimpleString_Inr: "readSimpleString s = (Inr v, rest) \<Longrightarrow> strict_suffix rest s \<and> in_limits k v"
  using readLine_Inr [of s] by (auto simp: readSimpleString_def readLine_suffix split: prod.splits sum.splits)

lemma readError_Inr: "readError s = (Inr v, rest) \<Longrightarrow> strict_suffix rest s \<and> in_limits k v"
  using readLine_Inr [of s] by (auto simp: readError_def readLine_suffix split: prod.splits sum.splits)

lemma readInteger_Inr:
  assumes "readInteger s = (Inr v, rest)"
  shows "strict_suffix rest s \<and> in_limits k v"
proof -
  obtain l n where "readLine s = (Inr l, rest)" and "atoi l = (n, None)" and "v = Integer n"
    using assms by (auto simp: readInteger_def split: prod.splits sum.splits option.splits)
  then show ?thesis using readLine_suffix atoi_bounds by simp
qed

lemma readBulkString_Inr:
  assumes "readBulkString s = (Inr v, rest)"
  shows "strict_suffix rest s \<and> in_limits k v"
proof -
  obtain l s1 where l: "readLine s = (Inr l, s1)"
    using assms by (auto simp: readBulkString_def split: prod.splits sum.splits)
  show ?thesis
  proof (cases "l = ''-1''")
    case True
    with l assms show ?thesis by (auto simp: readBulkString_def NullBulkString_def readLine_suffix)
  next
    case False
    obtain n where n: "n \<le> maxBulkStringLength" "read_payload (nat n) s1 = (Inr v, rest)"
      using assms l False by (auto simp: readBulkString_def not_less split: prod.splits option.splits if_splits)
    obtain b where "v = BulkString (Some b)" "length b = nat n" using read_payload_Inr(2) [OF n(2)] by blast
    moreover have "strict_suffix rest s"
      using read_payload_Inr(1) [OF n(2)] readLine_suffix [OF l] by (rule suffix_order.le_less_trans)
    ultimately show ?thesis using n(1) by (auto simp: maxBulkStringLength_def)
  qed
qed

lemma readInline_Inr:
  assumes "readInline s = (Inr v, rest)"
  shows "strict_suffix rest s \<and> in_limits (Suc k) v"
proof -
  obtain l where l: "readLine s = (Inr l, rest)" and v: "v = Array (map NewBulkString (Fields l))"
    using assms by (auto simp: readInline_def split: prod.splits sum.splits)
  have len: "length l \<le> 65534" using readLine_Inr(3) [OF l] by (simp add: maxLineLength_def)
  then have "int (length (Fields l)) \<le> maxArrayLength"
    using Fields_limits(1) [of l] by (simp add: maxArrayLength_def)
  moreover have "in_limits k x" if "x \<in> set (map NewBulkString (Fields l))" for x
    using that Fields_limits(2) [of _ l] len by (force simp: NewBulkString_def maxBulkStringLength_def)
  ultimately show ?thesis using readLine_suffix [OF l] by (simp add: v)
qed

lemma read_array_length_Inr:
  assumes "read_array_length s = (Inr n, rest)"
  shows "strict_suffix rest s \<and> (\<forall>m. n = Some m \<longrightarrow> int m \<le> maxArrayLength)"
proof -
  obtain l where l: "readLine s = (Inr l, rest)"
    using assms by (auto simp: read_array_length_def split: prod.splits sum.splits if_splits option.splits)
  then show ?thesis
    using assms readLine_suffix [OF l]
    by (auto simp: read_array_length_def split: prod.splits if_splits option.splits)
qed

text \<open>Every value read is within the limits, and reading it consumes input; first for values that are no arrays.\<close>

lemma readValue_flat:
  assumes "readValue d (b # s) = (Inr v, rest)" and "b \<noteq> CHR ''*''"
  shows "strict_suffix rest (b # s) \<and> in_limits (Suc k) v"
proof -
  have step: "strict_suffix rest s \<Longrightarrow> strict_suffix rest (b # s)" by (auto simp: strict_suffix_def suffix_def)
  note rd = assms(1) [unfolded readValue.simps [of d]]
  consider (simple) "b = CHR ''+''" | (error) "b = CHR ''-''" | (int) "b = CHR '':''" | (bulk) "b = CHR ''$''"
    | (inline) "b \<notin> {CHR ''+'', CHR ''-'', CHR '':'', CHR ''$'', CHR ''*''}" using assms(2) by blast
  then show ?thesis
  proof cases
    case simple
    with rd have "readSimpleString s = (Inr v, rest)" by simp
    from readSimpleString_Inr [OF this] step show ?thesis by simp
  next
    case error
    with rd have "readError s = (Inr v, rest)" by simp
    from readError_Inr [OF this] step show ?thesis by simp
  next
    case int
    with rd have "readInteger s = (Inr v, rest)" by simp
    from readInteger_Inr [OF this] step show ?thesis by simp
  next
    case bulk
    with rd have "readBulkString s = (Inr v, rest)" by simp
    from readBulkString_Inr [OF this] step show ?thesis by simp
  next
    case inline
    with rd have "readInline (b # s) = (Inr v, rest)" by simp
    from readInline_Inr [OF this] show ?thesis .
  qed
qed

lemma readValue_limits:
  "readValue d s = (Inr v, rest) \<Longrightarrow> d \<le> maxArrayDepth \<Longrightarrow>
     strict_suffix rest s \<and> in_limits (Suc maxArrayDepth - d) v"
  "read_elems d n i arr s = (Inr v, rest) \<Longrightarrow> 0 < d \<Longrightarrow> d \<le> maxArrayDepth \<Longrightarrow>
     int (length arr + n) \<le> maxArrayLength \<Longrightarrow> \<forall>x \<in> set arr. in_limits (Suc maxArrayDepth - d) x \<Longrightarrow>
     suffix rest s \<and> in_limits (Suc (Suc maxArrayDepth - d)) v"
proof (induction d s and d n i arr s arbitrary: v rest and v rest rule: readValue_read_elems.induct)
  case (1 d s)
  obtain b s' where s: "s = b # s'" using 1(2) by (cases s) (auto simp: readValue.simps)
  show ?case
  proof (cases "b = CHR ''*''")
    case arr: True
    have step: "strict_suffix rest s' \<Longrightarrow> strict_suffix rest s" unfolding s by (auto simp: strict_suffix_def suffix_def)
    from 1(2) arr have depth: "\<not> maxArrayDepth \<le> d" by (auto simp: readValue.simps [of d] s)
    obtain m s1 where m: "read_array_length s' = (Inr m, s1)"
      using 1(2) depth arr by (auto simp: readValue.simps [of d] s split: prod.splits sum.splits)
    note len = read_array_length_Inr [OF m]
    show ?thesis
    proof (cases m)
      case None
      then show ?thesis using 1(2) depth arr m len step by (auto simp: readValue.simps [of d] s)
    next
      case (Some n)
      have "read_elems (Suc d) n 0 [] s1 = (Inr v, rest)"
        using 1(2) depth arr m Some by (simp add: readValue.simps [of d] s)
      then have IH: "suffix rest s1 \<and> in_limits (Suc (Suc maxArrayDepth - Suc d)) v"
        using 1(1) [OF s _ _ _ _ arr depth m [symmetric] refl Some] arr depth len Some by simp
      have "strict_suffix rest s'" using IH len suffix_order.le_less_trans by blast
      with IH step depth show ?thesis by (simp add: Suc_diff_le)
    qed
  next
    case False
    obtain k where "Suc maxArrayDepth - d = Suc k" using 1(3) by (metis Suc_diff_le)
    with readValue_flat [OF 1(2) [unfolded s] False, of k] show ?thesis by (simp add: s)
  qed
next
  case (2 d n i arr s)
  show ?case
  proof (cases n)
    case 0
    with 2 show ?thesis by (auto simp: read_elems.simps)
  next
    case (Suc m)
    obtain x s1 where x: "readValue d s = (Inr x, s1)"
      using 2(3) Suc by (auto simp: read_elems.simps [of d "Suc m"] split: prod.splits sum.splits)
    have first: "strict_suffix s1 s \<and> in_limits (Suc maxArrayDepth - d) x" using 2(1) [OF Suc x] 2(5) by simp
    have "read_elems d m (Suc i) (arr @ [x]) s1 = (Inr v, rest)"
      using 2(3) Suc x by (simp add: read_elems.simps [of d "Suc m"])
    then have "suffix rest s1 \<and> in_limits (Suc (Suc maxArrayDepth - d)) v"
      using 2(2) [OF Suc x [symmetric] refl] 2(4-7) first Suc by simp
    then show ?thesis using first by (meson strict_suffix_def suffix_order.trans)
  qed
qed

section \<open>Inline commands\<close>

fun join_words :: "string list \<Rightarrow> string" where
  "join_words [] = []"
| "join_words [w] = w"
| "join_words (w # ws) = w @ '' '' @ join_words ws"

text \<open>A word: not empty, and no space starts inside it.\<close>

definition is_word :: "string \<Rightarrow> bool" where
  "is_word w \<longleftrightarrow> w \<noteq> [] \<and> (\<forall>i < length w. space_len (drop i w) = 0)"

lemma space_len_before_blank:
  assumes "space_len u = 0" and "u \<noteq> []"
  shows "space_len (u @ CHR '' '' # s) = 0"
proof -
  consider a where "u = [a]" | a b where "u = [a, b]" | a b c r where "u = a # b # c # r"
    using assms(2) by (metis list.exhaust)
  then show ?thesis
  proof cases
    case 1
    with assms(1) show ?thesis by (auto simp: space_len_def split: list.splits)
  next
    case 2
    with assms(1) show ?thesis by (simp add: space_len_def split: if_splits)
  next
    case 3
    with assms(1) show ?thesis by (simp add: space_len_def)
  qed
qed

lemma fields_loop_word:
  "(\<forall>i < length w. space_len (drop i (w @ s)) = 0) \<Longrightarrow> fields_loop cur (w @ s) = fields_loop (cur @ w) s"
proof (induction w arbitrary: cur)
  case (Cons c w)
  have "space_len (c # w @ s) = 0" using Cons.prems by fastforce
  moreover have "\<forall>i < length w. space_len (drop i (w @ s)) = 0"
    using Cons.prems by (metis Suc_less_eq append_Cons drop_Suc_Cons length_Cons)
  ultimately show ?case using Cons.IH [of "cur @ [c]"] by simp
qed simp

lemma space_len_blank: "space_len (CHR '' '' # s) = 1"
  by (simp add: space_len_def)

lemma Fields_join_words: "\<forall>w \<in> set ws. is_word w \<Longrightarrow> Fields (join_words ws) = ws"
proof (induction ws rule: join_words.induct)
  case (2 w)
  then have "fields_loop [] (w @ []) = fields_loop ([] @ w) []" by (intro fields_loop_word) (simp add: is_word_def)
  with 2 show ?case by (simp add: Fields_def is_word_def)
next
  case (3 w v ws)
  have w: "w \<noteq> []" "\<forall>i < length w. space_len (drop i w) = 0" using 3 by (auto simp: is_word_def)
  have "\<forall>i < length w. space_len (drop i (w @ CHR '' '' # join_words (v # ws))) = 0"
    using w(2) by (simp add: space_len_before_blank)
  then have "fields_loop [] (w @ CHR '' '' # join_words (v # ws)) = fields_loop ([] @ w) (CHR '' '' # join_words (v # ws))"
    by (rule fields_loop_word)
  with 3 w(1) show ?case by (simp add: Fields_def space_len_blank)
qed (simp add: Fields_def)

lemma space_len_LF: "space_len (LF # s) = 1"
  by (simp add: space_len_def)

lemma is_word_no_LF: "is_word w \<Longrightarrow> LF \<notin> set w"
  by (metis Cons_nth_drop_Suc in_set_conv_nth is_word_def space_len_LF zero_neq_one)

lemma join_words_no_LF: "\<forall>w \<in> set ws. is_word w \<Longrightarrow> LF \<notin> set (join_words ws)"
  by (induction ws rule: join_words.induct) (auto simp: is_word_no_LF)

section \<open>Properties\<close>

lemma in_limits_Array_numeral:
  "in_limits (numeral k) (Array vs) \<longleftrightarrow>
     int (length vs) \<le> maxArrayLength \<and> (\<forall>v \<in> set vs. in_limits (pred_numeral k) v)"
  by (simp add: numeral_eq_Suc)

text \<open>
  C13. What the writer encodes the reader decodes: a value without nil interfaces and within the
  reader's limits (at most 32 levels of arrays) has an encoding, and \<open>ReadValue\<close> on a stream that
  starts with it returns the value and leaves the stream right behind it, so pipelined values are
  read one after the other.
\<close>

theorem ReadValue_Resp_roundtrip:
  assumes "in_limits maxArrayDepth v" and "\<not> has_nil v"
  shows "\<exists>b. Resp v = Some b \<and> (\<forall>rest. ReadValue (b @ rest) = (Inr v, rest))"
proof -
  obtain b where "Resp v = Some b" using assms(2) Resp_None by (metis not_None_eq)
  then show ?thesis using readValue_Resp [OF assms(1), of 0] by (simp add: ReadValue_def)
qed

theorem ReadValue_Resp_roundtrip_witness:
  "\<exists>b. Resp (Array [BulkString (Some ''SET''), Integer (- 7), Array [Error ''x''], BulkString None]) = Some b \<and>
    (\<forall>rest. ReadValue (b @ rest) =
      (Inr (Array [BulkString (Some ''SET''), Integer (- 7), Array [Error ''x''], BulkString None]), rest))"
  by (rule ReadValue_Resp_roundtrip)
    (simp_all add: maxArrayDepth_def maxArrayLength_def maxBulkStringLength_def maxLineLength_def
      in_limits_Array_numeral)

text \<open>
  C27. \<open>ReadValue\<close> always terminates, and a value it returns is within the limits: no array longer
  than \<open>2 ^ 20\<close>, no bulk string longer than 64 MiB, no line longer than 64 KiB, integers of 64 bits and at
  most 33 levels of arrays (32 of them from array headers, one more from an inline command as the
  innermost element). Every successful read consumes at least one byte.
\<close>

theorem ReadValue_limits_and_progress:
  assumes "ReadValue s = (Inr v, rest)"
  shows "in_limits (Suc maxArrayDepth) v \<and> strict_suffix rest s"
  using readValue_limits(1) [of 0 s v rest] assms by (simp add: ReadValue_def)

theorem ReadValue_limits_and_progress_witness:
  "in_limits (Suc maxArrayDepth) (SimpleString ''a'') \<and> strict_suffix ''b'' (''+a'' @ CRLF @ ''b'')"
proof (rule ReadValue_limits_and_progress)
  show "ReadValue (''+a'' @ CRLF @ ''b'') = (Inr (SimpleString ''a''), ''b'')"
    using readLine_ok [of "''a''" "''b''"]
    by (simp add: ReadValue_def readValue.simps [of 0] readSimpleString_def maxLineLength_def)
qed

text \<open>
  C28. \<open>readLine\<close> gathers a line over any number of 4096-byte buffers exactly as one scan for the
  newline would: a line of more than \<open>maxLineLength\<close> bytes is an error, so is a stream that ends
  before the newline, so is a line without CRLF; otherwise it returns the line without its
  terminator and leaves the stream behind the newline.
\<close>

theorem readLine_is_scan:
  "if maxLineLength < length (front_line s) then fst (readLine s) = Inl ErrLineTooLong
   else if LF \<notin> set s then readLine s = (Inl ErrStream, [])
   else if suffix CRLF (front_line s)
   then readLine s = (Inr (take (length (front_line s) - 2) s), drop (length (front_line s)) s)
   else readLine s = (Inl ErrNoCRLF, drop (length (front_line s)) s)"
proof -
  let ?l = "front_line s"
  note spec = line_loop_front_line [of "[]" s]
  have crlf: "length ?l < 2 \<or> ?l ! (length ?l - 2) \<noteq> CR \<longleftrightarrow> \<not> suffix CRLF ?l" if mem: "LF \<in> set s"
  proof -
    obtain t where t: "?l = t @ [LF]" using mem by (simp add: front_line_def)
    show ?thesis
    proof (cases t rule: rev_cases)
      case Nil
      then show ?thesis by (simp add: t suffix_def)
    next
      case (snoc t' c)
      then show ?thesis by (auto simp: t suffix_def nth_append)
    qed
  qed
  have take: "take (length ?l - 2) ?l = take (length ?l - 2) s"
    by (metis diff_le_self front_line_take min.absorb1 take_take)
  show ?thesis
    using spec crlf take by (auto simp: readLine_def split: prod.splits sum.splits if_splits)
qed

text \<open>
  An inline command is split into its words: a line of words separated by blanks and ended by
  CRLF, whose first byte is none of the five type markers, is read as the array of bulk strings of its
  words.
\<close>

theorem ReadValue_inline_words:
  assumes "\<forall>w \<in> set ws. is_word w" and "length (join_words ws) + 2 \<le> maxLineLength"
    and "hd (join_words ws @ CRLF) \<notin> {CHR ''+'', CHR ''-'', CHR '':'', CHR ''$'', CHR ''*''}"
  shows "ReadValue (join_words ws @ CRLF @ rest) = (Inr (Array (map NewBulkString ws)), rest)"
proof -
  have "readLine (join_words ws @ CR # LF # rest) = (Inr (join_words ws), rest)"
    by (rule readLine_ok) (use assms join_words_no_LF in auto)
  then have inline: "readInline (join_words ws @ CR # LF # rest) = (Inr (Array (map NewBulkString ws)), rest)"
    using Fields_join_words [OF assms(1)] by (simp add: readInline_def)
  obtain b s where s: "join_words ws @ CR # LF # rest = b # s"
      and "b \<notin> {CHR ''+'', CHR ''-'', CHR '':'', CHR ''$'', CHR ''*''}"
    using assms(3) by (cases "join_words ws") auto
  then show ?thesis using inline by (simp add: ReadValue_def readValue.simps [of 0])
qed

theorem ReadValue_inline_words_witness:
  "ReadValue (join_words [''GET'', ''key''] @ CRLF @ []) = (Inr (Array (map NewBulkString [''GET'', ''key''])), [])"
proof (rule ReadValue_inline_words)
  show "\<forall>w \<in> set [''GET'', ''key'']. is_word w"
    by (simp add: is_word_def All_less_Suc space_len_def)
qed (simp_all add: maxLineLength_def)

end
