(* ===== verification/Merkle.thy ===== *)
theory Merkle
  imports Store
begin

text \<open>
  The Merkle tree over the store's keys, \<open>src/pkg/merkle/merkle.go\<close>. Live entries are bucketed
  by the FNV-64a hash of their key; a leaf hash is a digest of its bucket, an inner hash a digest
  of its two children, the nodes are kept in a flat array.

  The digest \<open>sha\<close> stands for \<open>sha256\<close>: what is proved holds for every digest, and where distinct
  inputs must have distinct digests this is a hypothesis about the inputs at hand. A panic of the
  code is \<open>None\<close>.
\<close>

unbundle bit_operations_syntax

section \<open>Data\<close>

type_synonym digest = "string \<Rightarrow> string"

record Tree =
  numLeaves :: int
  hashes :: "string list"
  keyCounts :: "int list"

record kv =
  kv_key :: string
  kv_value :: string
  kv_ver :: int64

definition defaultNumLeaves :: int where
  "defaultNumLeaves = 64"

definition maxUint64 :: uint64 where
  "maxUint64 = 0xFFFFFFFFFFFFFFFF"

section \<open>Hashes\<close>

text \<open>FNV-64a, \<open>hash/fnv\<close>.\<close>

definition hashKey :: "string \<Rightarrow> uint64" where
  "hashKey key = foldl (\<lambda>h c. (h XOR of_nat (of_char c)) * 0x100000001B3) 0xCBF29CE484222325 key"

text \<open>The \<open>k\<close> low bytes of a number, most significant first: \<open>binary.BigEndian\<close>.\<close>

primrec be_bytes :: "nat \<Rightarrow> nat \<Rightarrow> string" where
  "be_bytes 0 n = []"
| "be_bytes (Suc k) n = be_bytes k (n div 256) @ [char_of n]"

definition entry_bytes :: "kv \<Rightarrow> string" where
  "entry_bytes e =
     be_bytes 4 (unat (of_nat (length (kv_key e)) :: 32 word)) @ kv_key e @
     be_bytes 4 (unat (of_nat (length (kv_value e)) :: 32 word)) @ kv_value e @
     be_bytes 8 (unat (kv_ver e))"

definition leafHash :: "digest \<Rightarrow> kv list \<Rightarrow> string" where
  "leafHash sha es = sha (concat (map entry_bytes es))"

section \<open>Building a tree\<close>

text \<open>\<open>>>\<close> on a Go \<open>int\<close> is the arithmetic shift.\<close>

definition roundUpPowerOfTwo :: "int64 \<Rightarrow> int64" where
  "roundUpPowerOfTwo n =
     (if sint n \<le> 0 then 0
      else let n0 = n - 1;
               n1 = n0 OR signed_drop_bit 1 n0;
               n2 = n1 OR signed_drop_bit 2 n1;
               n3 = n2 OR signed_drop_bit 4 n2;
               n4 = n3 OR signed_drop_bit 8 n3;
               n5 = n4 OR signed_drop_bit 16 n4
           in n5 + 1)"

text \<open>
  The bucket of a hash. \<open>None\<close> is the panic of a division by zero, which happens when the width of
  a leaf wraps to 0, or of a negative index.
\<close>

definition bucket_index :: "int \<Rightarrow> uint64 \<Rightarrow> nat option" where
  "bucket_index nl h =
     (let step = maxUint64 div of_int nl + 1
      in if step = 0 then None
         else let idx = sint (h div step);
                  idx' = (if nl \<le> idx then nl - 1 else idx)
              in if idx' < 0 then None else Some (nat idx'))"

text \<open>The callback of \<open>Build\<close> for \<open>Iterate\<close>.\<close>

definition bucket_fn :: "int \<Rightarrow> string \<Rightarrow> Entry \<Rightarrow> kv list list option \<Rightarrow> bool \<times> kv list list option" where
  "bucket_fn nl key e acc =
     (case acc of
        None \<Rightarrow> (False, None)
      | Some buckets \<Rightarrow>
          (case bucket_index nl (hashKey key) of
             None \<Rightarrow> (False, None)
           | Some idx \<Rightarrow>
               (True, Some (buckets[idx := buckets ! idx @
                  [\<lparr>kv_key = key, kv_value = Value e, kv_ver = Version e\<rparr>]]))))"

text \<open>The bottom-up loop over the inner nodes \<open>i - 1, \<dots>, 0\<close>.\<close>

fun up_loop :: "digest \<Rightarrow> nat \<Rightarrow> string list \<Rightarrow> int list \<Rightarrow> string list \<times> int list" where
  "up_loop sha 0 hs cs = (hs, cs)"
| "up_loop sha (Suc i) hs cs =
     up_loop sha i (hs[i := sha (hs ! (2 * i + 1) @ hs ! (2 * i + 2))])
       (cs[i := cs ! (2 * i + 1) + cs ! (2 * i + 2)])"

text \<open>The number of leaves \<open>Build\<close> uses.\<close>

definition leaf_count :: "int64 \<Rightarrow> int" where
  "leaf_count n =
     (let nl = sint (roundUpPowerOfTwo n) in if nl \<le> 0 then defaultNumLeaves else nl)"

definition Build :: "'t btree \<Rightarrow> digest \<Rightarrow> (kv list \<Rightarrow> kv list) \<Rightarrow> 't Store \<Rightarrow> int64 \<Rightarrow> Tree option" where
  "Build B sha srt st n =
     (let nl = leaf_count n
      in case Iterate B (bucket_fn nl) st (Some (replicate (nat nl) [])) of
           None \<Rightarrow> None
         | Some buckets0 \<Rightarrow>
             let buckets = map srt buckets0;
                 firstLeaf = nat nl - 1;
                 hs0 = replicate firstLeaf [] @ map (leafHash sha) buckets;
                 cs0 = replicate firstLeaf 0 @ map (int \<circ> length) buckets
             in case up_loop sha firstLeaf hs0 cs0 of
                  (hs, cs) \<Rightarrow> Some \<lparr>numLeaves = nl, hashes = hs, keyCounts = cs\<rparr>)"

section \<open>Queries\<close>

definition RootHash :: "Tree \<Rightarrow> string" where
  "RootHash t = hashes t ! 0"

definition NumLeaves :: "Tree \<Rightarrow> int" where
  "NumLeaves t = numLeaves t"

text \<open>An index out of range panics.\<close>

definition index_at :: "'a list \<Rightarrow> int \<Rightarrow> 'a option" where
  "index_at xs i = (if 0 \<le> i \<and> i < int (length xs) then Some (xs ! nat i) else None)"

definition LeafHash :: "Tree \<Rightarrow> int \<Rightarrow> string option" where
  "LeafHash t i = index_at (hashes t) (numLeaves t - 1 + i)"

definition LeafKeyCount :: "Tree \<Rightarrow> int \<Rightarrow> int option" where
  "LeafKeyCount t i = index_at (keyCounts t) (numLeaves t - 1 + i)"

definition LeafBounds :: "int \<Rightarrow> int \<Rightarrow> (uint64 \<times> uint64) option" where
  "LeafBounds nl leafIdx =
     (if of_int nl = (0 :: uint64) then None
      else let step = maxUint64 div of_int nl + 1;
               start = of_int leafIdx * step;
               end' = of_int (leafIdx + 1) * step
           in Some (start, if leafIdx = nl - 1 then maxUint64 else end'))"

fun bytes_loop :: "string \<Rightarrow> string \<Rightarrow> bool" where
  "bytes_loop (a # as) (b # bs) \<longleftrightarrow> a = b \<and> bytes_loop as bs"
| "bytes_loop _ _ \<longleftrightarrow> True"

definition bytesEqual :: "string \<Rightarrow> string \<Rightarrow> bool" where
  "bytesEqual a b \<longleftrightarrow> (if length a \<noteq> length b then False else bytes_loop a b)"

definition Diff :: "Tree \<Rightarrow> Tree \<Rightarrow> nat list" where
  "Diff a b =
     (if numLeaves a \<noteq> numLeaves b then []
      else let firstLeaf = nat (numLeaves a) - 1
           in filter (\<lambda>i. \<not> bytesEqual (hashes a ! (firstLeaf + i)) (hashes b ! (firstLeaf + i)))
                [0..<nat (numLeaves a)])"

definition inLeafRange :: "uint64 \<Rightarrow> uint64 \<Rightarrow> uint64 \<Rightarrow> bool \<Rightarrow> bool" where
  "inLeafRange hash start end' final \<longleftrightarrow>
     start \<le> hash \<and> (hash < end' \<or> final \<and> hash = maxUint64)"

definition LeafEntries :: "'t btree \<Rightarrow> 't Store \<Rightarrow> int \<Rightarrow> int \<Rightarrow> Entry list option" where
  "LeafEntries B st nl leafIdx =
     (case LeafBounds nl leafIdx of
        None \<Rightarrow> None
      | Some (start, end') \<Rightarrow>
          Some (Iterate B (\<lambda>key e entries.
            (True, if inLeafRange (hashKey key) start end' (leafIdx = nl - 1) then entries @ [e] else entries)) st []))"

section \<open>Rounding up to a power of two\<close>

text \<open>One step of the bit smearing: the bits of \<open>m\<close> at distance less than \<open>d\<close> become those below \<open>2 * d\<close>.\<close>

definition smeared :: "int64 \<Rightarrow> nat \<Rightarrow> int64 \<Rightarrow> bool" where
  "smeared m d x \<longleftrightarrow> (\<forall>i. bit x i \<longleftrightarrow> (\<exists>j < d. bit m (i + j)))"

lemma bit_signed_drop_bit64:
  assumes "\<not> bit (x :: int64) 63"
  shows "bit (signed_drop_bit d x) i \<longleftrightarrow> bit x (i + d)"
proof -
  have len: "LENGTH(64) = 64" by simp
  have eq: "bit (signed_drop_bit d x) i \<longleftrightarrow> bit x (if 64 - d \<le> i \<and> i < 64 then 64 - 1 else d + i)"
    unfolding bit_signed_drop_bit_iff len ..
  show ?thesis
  proof (cases "64 - d \<le> i \<and> i < 64")
    case True
    then have "\<not> bit x (i + d)" using bit_imp_le_length [of x "i + d"] by auto
    with True assms eq show ?thesis by simp
  next
    case False
    then show ?thesis unfolding eq by (simp only: if_False add.commute)
  qed
qed

lemma smeared_step:
  assumes "smeared m d x" and "\<forall>i \<ge> 32. \<not> bit m i" and "0 < d"
  shows "smeared m (2 * d) (x OR signed_drop_bit d x)"
proof -
  have "\<not> bit x 63" using assms(1,2) by (auto simp: smeared_def)
  then have drop: "bit (signed_drop_bit d x) i \<longleftrightarrow> bit x (i + d)" for i
    by (rule bit_signed_drop_bit64)
  have "(\<exists>j < 2 * d. bit m (i + j)) \<longleftrightarrow> (\<exists>j < d. bit m (i + j)) \<or> (\<exists>j < d. bit m (i + d + j))" for i
  proof
    assume "\<exists>j < 2 * d. bit m (i + j)"
    then obtain j where j: "j < 2 * d" "bit m (i + j)" by blast
    show "(\<exists>j < d. bit m (i + j)) \<or> (\<exists>j < d. bit m (i + d + j))"
    proof (cases "j < d")
      case False
      then have "bit m (i + d + (j - d))" "j - d < d" using j by auto
      then show ?thesis by blast
    qed (use j in blast)
  next
    assume "(\<exists>j < d. bit m (i + j)) \<or> (\<exists>j < d. bit m (i + d + j))"
    then show "\<exists>j < 2 * d. bit m (i + j)"
      by (metis add.assoc add_less_mono1 less_add_same_cancel1 mult_2 order.strict_trans assms(3) nat_add_left_cancel_less)
  qed
  with assms(1) drop show ?thesis by (simp add: smeared_def bit_or_iff)
qed

lemma smeared_all:
  assumes "smeared m 32 x" and "unat m < 2 ^ 32"
  shows "\<exists>k \<le> 32. unat x = 2 ^ k - 1 \<and> unat m < 2 ^ k \<and> 2 ^ k \<le> 2 * unat m + 1"
proof (cases "m = 0")
  case True
  then have "x = 0" using assms(1) by (auto simp: smeared_def intro: bit_word_eqI)
  with True show ?thesis by (auto intro!: exI [of _ 0])
next
  case False
  then have "1 \<le> unat m" by (simp add: Suc_le_eq unat_gt_0)
  then obtain t where t: "2 ^ t \<le> unat m" "unat m < 2 ^ (t + 1)"
    using ex_power_ivl1 [of 2 "unat m"] by auto
  have "(2::nat) ^ t < 2 ^ 32" using t(1) assms(2) by (rule le_less_trans)
  then have t32: "t < 32" by (rule power_less_imp_less_exp [rotated]) simp
  have bit_m: "bit m i \<longleftrightarrow> odd (unat m div 2 ^ i)" for i
    by (metis bit_iff_odd bit_unsigned_iff possible_bit_nat)
  have top: "bit m t"
  proof -
    have "unat m div 2 ^ t = 1" using t by (simp add: div_nat_eqI)
    then show ?thesis by (simp add: bit_m)
  qed
  have above: "\<not> bit m i" if "t < i" for i
  proof -
    have "unat m < 2 ^ i" using t(2) that by (metis Suc_eq_plus1 Suc_leI less_le_trans one_le_numeral power_increasing)
    then show ?thesis by (simp add: bit_m)
  qed
  have "bit x i \<longleftrightarrow> i < Suc t" for i
  proof
    assume "bit x i"
    then obtain j where "bit m (i + j)" using assms(1) by (auto simp: smeared_def)
    then show "i < Suc t" using above [of "i + j"] by (meson add_leD1 leI le_imp_less_Suc)
  next
    assume "i < Suc t"
    then have "bit m (i + (t - i))" "t - i < 32" using top t32 by auto
    then show "bit x i" using assms(1) by (auto simp: smeared_def)
  qed
  then have "x = mask (Suc t)" using t32 by (intro bit_word_eqI) (simp add: bit_mask_iff)
  then have "uint x = 2 ^ Suc t - 1"
    using t32 by (simp only: uint_mask_eq) (simp add: mask_eq_exp_minus_1)
  then have "int (unat x) = int (2 ^ Suc t - 1)" by (simp add: of_nat_diff)
  then have "unat x = 2 ^ Suc t - 1" by (simp only: of_nat_eq_iff)
  with t t32 show ?thesis by (intro exI [of _ "Suc t"]) auto
qed

lemma roundUpPowerOfTwo_pow2:
  assumes "0 < sint n" and "sint n \<le> 2 ^ 32"
  shows "\<exists>k \<le> 32. sint (roundUpPowerOfTwo n) = 2 ^ k \<and> sint n \<le> 2 ^ k \<and> 2 ^ k < 2 * sint n"
proof -
  define m where "m = n - 1"
  have un: "uint n = sint n" 
    using assms uint_sint [of n] by (simp add: take_bit_int_eq_self)
  have "uint m = sint n - 1"
    using un assms(1) uint_sub_lem [of 1 n] by (simp add: m_def)
  then have um: "int (unat m) = sint n - 1" by simp
  then have "int (unat m) < int (2 ^ 32)" using assms(2) by simp
  then have small: "unat m < 2 ^ 32" by (simp only: of_nat_less_iff)
  have high: "\<forall>i \<ge> 32. \<not> bit m i"
  proof (intro allI impI)
    fix i :: nat
    assume "32 \<le> i"
    then have "unat m < 2 ^ i"
      using small by (meson less_le_trans one_le_numeral power_increasing)
    then show "\<not> bit m i" by (metis bit_iff_odd bit_unsigned_iff div_less even_zero possible_bit_nat)
  qed
  have "smeared m 1 m" by (simp add: smeared_def)
  from smeared_step [OF this high] have "smeared m 2 (m OR signed_drop_bit 1 m)" by simp
  from smeared_step [OF this high] have s2: "smeared m 4 ((m OR signed_drop_bit 1 m) OR signed_drop_bit 2 (m OR signed_drop_bit 1 m))"
    by simp
  obtain x where x: "smeared m 32 x" "roundUpPowerOfTwo n = x + 1"
  proof -
    have r: "roundUpPowerOfTwo n = (let n1 = m OR signed_drop_bit 1 m; n2 = n1 OR signed_drop_bit 2 n1;
        n3 = n2 OR signed_drop_bit 4 n2; n4 = n3 OR signed_drop_bit 8 n3; n5 = n4 OR signed_drop_bit 16 n4 in n5 + 1)"
      using assms(1) by (simp add: roundUpPowerOfTwo_def m_def Let_def)
    let ?x = "let n1 = m OR signed_drop_bit 1 m; n2 = n1 OR signed_drop_bit 2 n1;
        n3 = n2 OR signed_drop_bit 4 n2; n4 = n3 OR signed_drop_bit 8 n3 in n4 OR signed_drop_bit 16 n4"
    have "smeared m 32 ?x"
      using smeared_step [OF smeared_step [OF smeared_step [OF s2 high] high] high] by (simp add: Let_def)
    with that r show thesis by (simp add: Let_def)
  qed
  obtain k where k: "k \<le> 32" "unat x = 2 ^ k - 1" "unat m < 2 ^ k" "2 ^ k \<le> 2 * unat m + 1"
    using smeared_all [OF x(1) small] by blast
  have "(2::nat) ^ k \<le> 2 ^ 32" using k(1) by (intro power_increasing) auto
  then have "unat (x + 1) = 2 ^ k" using k(2) by (simp add: unat_word_ariths)
  then have ux: "uint (x + 1) = 2 ^ k" by (metis of_nat_numeral of_nat_power uint_nat)
  have "(2::int) ^ k \<le> 2 ^ 32" using k(1) by (intro power_increasing) auto
  then have "signed_take_bit 63 (2 ^ k) = (2::int) ^ k"
    by (intro signed_take_bit_int_eq_self) (auto intro: order_trans [of _ 0])
  then have "sint (x + 1) = 2 ^ k" using ux by (simp add: sint_uint)
  moreover have "int (unat m) < 2 ^ k" "2 ^ k \<le> 2 * int (unat m) + 1"
    using k(3,4) by (metis of_nat_less_iff of_nat_numeral of_nat_power, metis (mono_tags) of_nat_1 of_nat_add of_nat_le_iff of_nat_mult of_nat_numeral of_nat_power)
  ultimately show ?thesis using k(1) um x(2) by (intro exI [of _ k]) auto
qed

section \<open>Leaves of a power of two\<close>

text \<open>With \<open>2 ^ k\<close> leaves the leaf of a hash is its \<open>k\<close> high bits.\<close>

definition leaf_of :: "nat \<Rightarrow> uint64 \<Rightarrow> nat" where
  "leaf_of k h = unat h div 2 ^ (64 - k)"

lemma pow_split: "k \<le> 64 \<Longrightarrow> (2::nat) ^ k * 2 ^ (64 - k) = 2 ^ 64"
  by (simp add: power_add [symmetric])

lemma leaf_of_less: "k \<le> 64 \<Longrightarrow> leaf_of k h < 2 ^ k"
  using unat64_less [of h] pow_split [of k] unfolding leaf_of_def by (simp only: less_mult_imp_div_less)

definition leaf_width :: "nat \<Rightarrow> uint64" where
  "leaf_width k = maxUint64 div 2 ^ k + 1"

lemma unat_leaf_width:
  assumes "0 < k" and "k \<le> 62"
  shows "unat (leaf_width k) = 2 ^ (64 - k)"
proof -
  have k: "unat ((2 :: uint64) ^ k) = 2 ^ k"
  proof -
    have "(2::nat) ^ k < 2 ^ 64" using assms by (intro power_strict_increasing) auto
    from unat_of_nat64 [OF this] show ?thesis by simp
  qed
  have max: "unat maxUint64 = 2 ^ 64 - 1" by (simp add: maxUint64_def)
  have "(2 ^ 64 - 1) div 2 ^ k = (2::nat) ^ (64 - k) - 1"
  proof (rule div_nat_eqI)
    have pos: "0 < (2::nat) ^ k" "0 < (2::nat) ^ (64 - k)" by auto
    have eq: "(2::nat) ^ 64 = 2 ^ k * 2 ^ (64 - k)" using assms pow_split [of k] by simp
    show "2 ^ k * (2 ^ (64 - k) - 1) \<le> (2::nat) ^ 64 - 1"
      using pos unfolding eq by (simp add: algebra_simps diff_le_mono2 Suc_le_eq)
    show "(2::nat) ^ 64 - 1 < 2 ^ k * Suc (2 ^ (64 - k) - 1)"
      using pos unfolding eq by simp
  qed
  then have d: "unat (maxUint64 div 2 ^ k) = 2 ^ (64 - k) - 1"
    by (simp only: unat_div k max)
  have "(2::nat) ^ (64 - k) < 2 ^ 64" using assms by (intro power_strict_increasing) auto
  then show ?thesis
    unfolding leaf_width_def by (subst unat_add_small) (simp_all add: d)
qed

lemma bucket_index_leaf_of:
  assumes "0 < k" and "k \<le> 62"
  shows "bucket_index (2 ^ k) h = Some (leaf_of k h)"
proof -
  have w: "unat (leaf_width k) = 2 ^ (64 - k)" by (rule unat_leaf_width [OF assms])
  then have nz: "leaf_width k \<noteq> 0" by auto
  have q: "unat (h div leaf_width k) = leaf_of k h" by (simp add: unat_div w leaf_of_def)
  have less: "leaf_of k h < 2 ^ k" using assms by (simp add: leaf_of_less)
  have "(2::nat) ^ k < 2 ^ 63" using assms by (intro power_strict_increasing) auto
  then have "sint (h div leaf_width k) = int (leaf_of k h)"
    using less q by (subst sint_small) simp_all
  moreover have "\<not> 2 ^ k \<le> int (leaf_of k h)"
    using less by (metis not_le of_nat_less_iff of_nat_numeral of_nat_power)
  ultimately show ?thesis
    using nz by (simp add: bucket_index_def leaf_width_def [symmetric] Let_def)
qed

lemma leaf_of_eq_iff: "leaf_of k h = i \<longleftrightarrow> i * 2 ^ (64 - k) \<le> unat h \<and> unat h < Suc i * 2 ^ (64 - k)"
  unfolding leaf_of_def
  by (metis div_nat_eqI div_times_less_eq_dividend dividend_less_times_div mult.commute mult_Suc nat_zero_less_power_iff zero_less_numeral add.commute)

lemma LeafBounds_leaf_of:
  assumes "0 < k" and "k \<le> 62" and "i < 2 ^ k"
  shows "\<exists>start end'. LeafBounds (2 ^ k) (int i) = Some (start, end') \<and>
    (\<forall>h. inLeafRange h start end' (int i = 2 ^ k - 1) \<longleftrightarrow> leaf_of k h = i)"
proof -
  let ?m = "(2::nat) ^ (64 - k)"
  let ?start = "of_nat i * leaf_width k"
  let ?stop = "of_nat (Suc i) * leaf_width k"
  have w: "unat (leaf_width k) = ?m" by (rule unat_leaf_width [OF assms(1,2)])
  have eq: "(2::nat) ^ 64 = 2 ^ k * ?m" using assms pow_split [of k] by simp
  have "(2::nat) ^ k < 2 ^ 64" using assms by (intro power_strict_increasing) auto
  then have ui: "unat (of_nat i :: uint64) = i" "Suc i < 2 ^ 64"
    using assms(3) by (auto intro!: unat_of_nat64)
  have "i * ?m < 2 ^ 64" using assms(3) unfolding eq by simp
  then have start: "unat ?start = i * ?m"
    using ui w by (subst unat_mult_small) simp_all
  have final: "int i = 2 ^ k - 1 \<longleftrightarrow> Suc i = 2 ^ k"
    by (metis add_diff_cancel_right' diff_add_cancel int_ops(4) of_nat_eq_iff of_nat_numeral of_nat_power)
  have nz: "(2 :: uint64) ^ k \<noteq> 0"
    using assms(2) by simp
  have bounds: "LeafBounds (2 ^ k) (int i) = Some (?start, if Suc i = 2 ^ k then maxUint64 else ?stop)"
  proof -
    have "of_int (2 ^ k) = (2 :: uint64) ^ k" "of_int (int i) = (of_nat i :: uint64)"
      "of_int (int i + 1) = (of_nat (Suc i) :: uint64)" by simp_all
    then show ?thesis using nz by (simp only: LeafBounds_def Let_def leaf_width_def final if_False)
  qed
  have max: "unat maxUint64 = 2 ^ 64 - 1" by (simp add: maxUint64_def)
  have "inLeafRange h ?start (if Suc i = 2 ^ k then maxUint64 else ?stop) (int i = 2 ^ k - 1) \<longleftrightarrow> leaf_of k h = i" for h
  proof (cases "Suc i = 2 ^ k")
    case True
    have "h < maxUint64 \<or> h = maxUint64"
      using unat64_less [of h] by (simp add: word_less_nat_alt word_unat_eq_iff max) linarith
    moreover have "unat h < Suc i * ?m" using True unat64_less [of h] eq by simp
    ultimately show ?thesis
      using True final by (simp add: inLeafRange_def leaf_of_eq_iff word_le_nat_alt start)
  next
    case False
    then have "Suc i < 2 ^ k" using assms(3) by simp
    then have "Suc i * ?m < 2 ^ 64" unfolding eq by (rule mult_strict_right_mono) simp
    then have "unat ?stop = Suc i * ?m"
      using ui w by (subst unat_mult_small) (simp_all only: unat_of_nat64)
    with False final show ?thesis
      by (simp add: inLeafRange_def leaf_of_eq_iff word_le_nat_alt word_less_nat_alt start)
  qed
  with bounds final show ?thesis by blast
qed

section \<open>Buckets and nodes\<close>

lemma leaf_count_pow2:
  assumes "sint n \<le> 2 ^ 32" and "n \<noteq> 1"
  shows "\<exists>k. 0 < k \<and> k \<le> 62 \<and> leaf_count n = 2 ^ k \<and> sint n \<le> leaf_count n"
proof (cases "sint n \<le> 0")
  case True
  then have "leaf_count n = 2 ^ 6" by (simp add: leaf_count_def roundUpPowerOfTwo_def defaultNumLeaves_def)
  with True show ?thesis by (intro exI [of _ 6]) auto
next
  case False
  then obtain k where k: "k \<le> 32" "sint (roundUpPowerOfTwo n) = 2 ^ k" "sint n \<le> 2 ^ k"
    using roundUpPowerOfTwo_pow2 [of n] assms(1) by auto
  have "k \<noteq> 0"
  proof
    assume "k = 0"
    with k(3) False have "sint n = sint (1 :: int64)" by simp
    with assms(2) show False by (simp only: sint_eq)
  qed
  with k show ?thesis by (intro exI [of _ k]) (auto simp: leaf_count_def Let_def)
qed

definition to_kv :: "item \<Rightarrow> kv" where
  "to_kv it = \<lparr>kv_key = fst it, kv_value = Value (snd it), kv_ver = Version (snd it)\<rparr>"

text \<open>The live entries of a leaf, in key order.\<close>

definition leaf_items :: "nat \<Rightarrow> nat \<Rightarrow> item list \<Rightarrow> item list" where
  "leaf_items k i its = filter (\<lambda>it. \<not> Deleted (snd it) \<and> leaf_of k (hashKey (fst it)) = i) its"

lemma iterate_buckets:
  assumes "0 < k" and "k \<le> 62" and "length bs = 2 ^ k"
  shows "iterate_items (bucket_fn (2 ^ k)) its (Some bs) =
    Some (map (\<lambda>i. bs ! i @ map to_kv (leaf_items k i its)) [0..<2 ^ k])"
  using assms(3)
proof (induction its arbitrary: bs)
  case Nil
  then show ?case by (simp add: leaf_items_def list_eq_iff_nth_eq)
next
  case (Cons it its)
  show ?case
  proof (cases "Deleted (snd it)")
    case True
    with Cons show ?thesis by (simp add: leaf_items_def)
  next
    case False
    let ?l = "leaf_of k (hashKey (fst it))"
    have fn: "bucket_fn (2 ^ k) (fst it) (snd it) (Some bs) = (True, Some (bs[?l := bs ! ?l @ [to_kv it]]))"
      by (simp add: bucket_fn_def bucket_index_leaf_of [OF assms(1,2)] to_kv_def)
    have "?l < 2 ^ k" using assms(2) by (simp add: leaf_of_less)
    then show ?thesis
      using False Cons by (auto simp: fn leaf_items_def nth_list_update)
  qed
qed

lemma up_loop_length:
  "length (fst (up_loop sha i hs cs)) = length hs \<and> length (snd (up_loop sha i hs cs)) = length cs"
  by (induction sha i hs cs rule: up_loop.induct) simp_all

lemma up_loop_nodes:
  assumes "up_loop sha i hs cs = (hs', cs')" and "2 * i < length hs" and "length cs = length hs"
  shows "(\<forall>j \<ge> i. hs' ! j = hs ! j \<and> cs' ! j = cs ! j) \<and>
    (\<forall>j < i. hs' ! j = sha (hs' ! (2 * j + 1) @ hs' ! (2 * j + 2)) \<and>
      cs' ! j = cs' ! (2 * j + 1) + cs' ! (2 * j + 2))"
  using assms
proof (induction sha i hs cs arbitrary: hs' cs' rule: up_loop.induct)
  case (2 sha i hs cs)
  let ?hs = "hs[i := sha (hs ! (2 * i + 1) @ hs ! (2 * i + 2))]"
  let ?cs = "cs[i := cs ! (2 * i + 1) + cs ! (2 * i + 2)]"
  have IH: "(\<forall>j \<ge> i. hs' ! j = ?hs ! j \<and> cs' ! j = ?cs ! j) \<and>
    (\<forall>j < i. hs' ! j = sha (hs' ! (2 * j + 1) @ hs' ! (2 * j + 2)) \<and>
      cs' ! j = cs' ! (2 * j + 1) + cs' ! (2 * j + 2))"
    by (rule "2.IH") (use "2.prems" in simp_all)
  have keep: "hs' ! j = hs ! j \<and> cs' ! j = cs ! j" if "Suc i \<le> j" for j using IH that by simp
  have "hs' ! i = sha (hs' ! (2 * i + 1) @ hs' ! (2 * i + 2)) \<and> cs' ! i = cs' ! (2 * i + 1) + cs' ! (2 * i + 2)"
    using conjunct1 [OF IH, rule_format, of i] keep [of "2 * i + 1"] keep [of "2 * i + 2"] "2.prems"(2,3)
    by simp
  then show ?case using conjunct2 [OF IH] keep less_Suc_eq by auto
qed simp

lemma sum_children:
  "a \<le> b \<Longrightarrow> (\<Sum>j = a..<(b::nat). f (2 * j + 1) + f (2 * j + 2)) = (\<Sum>j = 2 * a + 1..<2 * b + 1. (f j :: int))"
proof (induction b)
  case (Suc b)
  show ?case
  proof (cases "a = Suc b")
    case False
    with Suc have "a \<le> b" by simp
    then have "(\<Sum>j = 2 * a + 1..<2 * Suc b + 1. f j) = (\<Sum>j = 2 * a + 1..<2 * b + 1. f j) + f (2 * b + 1) + f (2 * b + 2)"
      by (simp add: add.assoc)
    with Suc.IH \<open>a \<le> b\<close> show ?thesis by simp
  qed simp
qed simp

text \<open>The counts of every level of the tree have the same sum.\<close>

lemma level_sum:
  assumes "\<forall>j < (2::nat) ^ k - 1. c j = c (2 * j + 1) + (c (2 * j + 2) :: int)" and "d \<le> k"
  shows "(\<Sum>j = 2 ^ d - 1..<2 ^ Suc d - 1. c j) = c 0"
  using assms(2)
proof (induction d)
  case (Suc d)
  have pos: "1 \<le> (2::nat) ^ d" by simp
  have "(2::nat) ^ Suc d \<le> 2 ^ k" using Suc.prems by (intro power_increasing) auto
  then have "(\<Sum>j = 2 ^ d - 1..<2 ^ Suc d - 1. c j) = (\<Sum>j = 2 ^ d - 1..<2 ^ Suc d - 1. c (2 * j + 1) + c (2 * j + 2))"
    using assms(1) by (intro sum.cong) auto
  also have "\<dots> = (\<Sum>j = 2 * (2 ^ d - 1) + 1..<2 * (2 ^ Suc d - 1) + 1. c j)"
    by (rule sum_children) (simp add: diff_le_mono)
  also have "2 * (2 ^ d - 1) + 1 = (2::nat) ^ Suc d - 1"
    using pos unfolding power_Suc by arith
  also have "2 * (2 ^ Suc d - 1) + 1 = (2::nat) ^ Suc (Suc d) - 1"
    using pos unfolding power_Suc by arith
  finally show ?case using Suc by simp
qed simp

section \<open>What Build returns\<close>

text \<open>A tree of \<open>2 ^ k\<close> leaves over the items: leaf hashes and counts of the leaves' entries, inner nodes from their children.\<close>

definition leaf_kvs :: "nat \<Rightarrow> nat \<Rightarrow> item list \<Rightarrow> kv list" where
  "leaf_kvs k i its = map to_kv (leaf_items k i its)"

definition merkle_tree :: "digest \<Rightarrow> nat \<Rightarrow> item list \<Rightarrow> Tree \<Rightarrow> bool" where
  "merkle_tree sha k its t \<longleftrightarrow> numLeaves t = 2 ^ k \<and>
     length (hashes t) = 2 * 2 ^ k - 1 \<and> length (keyCounts t) = 2 * 2 ^ k - 1 \<and>
     (\<forall>i < 2 ^ k. hashes t ! (2 ^ k - 1 + i) = leafHash sha (leaf_kvs k i its) \<and>
        keyCounts t ! (2 ^ k - 1 + i) = int (length (leaf_kvs k i its))) \<and>
     (\<forall>j < 2 ^ k - 1. hashes t ! j = sha (hashes t ! (2 * j + 1) @ hashes t ! (2 * j + 2)) \<and>
        keyCounts t ! j = keyCounts t ! (2 * j + 1) + keyCounts t ! (2 * j + 2))"


context ordered_tree
begin

lemma leaf_kvs_sorted: "sorted_wrt (<) (map kv_key (leaf_kvs k i (bt_ascend B t)))"
proof -
  have "map kv_key (leaf_kvs k i (bt_ascend B t)) = map fst (leaf_items k i (bt_ascend B t))"
    by (simp add: leaf_kvs_def to_kv_def)
  then show ?thesis using ascend_strict [of t] by (simp add: leaf_items_def sorted_wrt_map sorted_wrt_filter)
qed

lemma srt_leaf_kvs:
  assumes "slice_sort kv_key srt"
  shows "srt (leaf_kvs k i (bt_ascend B t)) = leaf_kvs k i (bt_ascend B t)"
  using leaf_kvs_sorted [of k i t]
  by (intro slice_sort.srt_unique [OF assms]) (auto simp: strict_sorted_iff distinct_map)

lemma Build_merkle_tree:
  assumes "slice_sort kv_key srt" and "0 < k" and "k \<le> 62" and "leaf_count n = 2 ^ k"
  shows "\<exists>t. Build B sha srt st n = Some t \<and> merkle_tree sha k (bt_ascend B (tree st)) t"
proof -
  let ?its = "bt_ascend B (tree st)"
  let ?N = "(2::nat) ^ k"
  let ?bs = "map (\<lambda>i. leaf_kvs k i ?its) [0..<?N]"
  let ?hs = "replicate (?N - 1) [] @ map (leafHash sha) ?bs"
  let ?cs = "replicate (?N - 1) 0 @ map (int \<circ> length) ?bs"
  obtain hs cs where loop: "up_loop sha (?N - 1) ?hs ?cs = (hs, cs)" by fastforce
  have "0 < ?N" by simp
  then have lt: "2 * (?N - 1) < 2 * ?N - 1" by arith
  have len: "length ?hs = 2 * ?N - 1" "length ?cs = 2 * ?N - 1" by auto
  have nodes: "(\<forall>j \<ge> ?N - 1. hs ! j = ?hs ! j \<and> cs ! j = ?cs ! j) \<and>
    (\<forall>j < ?N - 1. hs ! j = sha (hs ! (2 * j + 1) @ hs ! (2 * j + 2)) \<and>
      cs ! j = cs ! (2 * j + 1) + cs ! (2 * j + 2))"
    by (rule up_loop_nodes [OF loop]) (simp_all only: len lt)
  have buckets: "Iterate B (bucket_fn (2 ^ k)) st (Some (replicate ?N [])) =
      Some (map (\<lambda>i. leaf_kvs k i ?its) [0..<?N])"
    unfolding Iterate_def using iterate_buckets [OF assms(2,3), of "replicate ?N []" ?its]
    by (simp add: leaf_kvs_def)
  have sorted: "map srt ?bs = ?bs" by (simp add: srt_leaf_kvs [OF assms(1)])
  let ?t = "\<lparr>numLeaves = 2 ^ k, hashes = hs, keyCounts = cs\<rparr>"
  have nat: "nat (2 ^ k) = ?N" by (simp add: nat_power_eq)
  have "Build B sha srt st n = Some ?t"
    unfolding Build_def assms(4) Let_def nat buckets option.case sorted loop prod.case ..
  moreover have "merkle_tree sha k ?its ?t"
    unfolding merkle_tree_def
  proof (intro conjI)
    show "\<forall>i < ?N. hashes ?t ! (?N - 1 + i) = leafHash sha (leaf_kvs k i ?its) \<and>
        keyCounts ?t ! (?N - 1 + i) = int (length (leaf_kvs k i ?its))"
    proof (intro allI impI)
      fix i
      assume i: "i < ?N"
      have "hs ! (?N - 1 + i) = ?hs ! (?N - 1 + i) \<and> cs ! (?N - 1 + i) = ?cs ! (?N - 1 + i)"
        using conjunct1 [OF nodes] by simp
      moreover have "?hs ! (?N - 1 + i) = map (leafHash sha) ?bs ! i"
        using nth_append_length_plus [of "replicate (?N - 1) []" "map (leafHash sha) ?bs" i]
        by (simp only: length_replicate)
      moreover have "?cs ! (?N - 1 + i) = map (int \<circ> length) ?bs ! i"
        using nth_append_length_plus [of "replicate (?N - 1) 0" "map (int \<circ> length) ?bs" i]
        by (simp only: length_replicate)
      ultimately show "hashes ?t ! (?N - 1 + i) = leafHash sha (leaf_kvs k i ?its) \<and>
        keyCounts ?t ! (?N - 1 + i) = int (length (leaf_kvs k i ?its))"
        using i by (simp only: Tree.simps) simp
    qed
    show "\<forall>j < ?N - 1. hashes ?t ! j = sha (hashes ?t ! (2 * j + 1) @ hashes ?t ! (2 * j + 2)) \<and>
        keyCounts ?t ! j = keyCounts ?t ! (2 * j + 1) + keyCounts ?t ! (2 * j + 2)"
      using conjunct2 [OF nodes] by (simp only: Tree.simps)
    show "length (hashes ?t) = 2 * ?N - 1" "length (keyCounts ?t) = 2 * ?N - 1"
      using up_loop_length [of sha "?N - 1" ?hs ?cs] len unfolding loop by simp_all
  qed simp
  ultimately show ?thesis by blast
qed

end

text \<open>The tree is a function of the keys, values and versions of the live entries.\<close>

lemma merkle_tree_unique:
  assumes "merkle_tree sha k its t" and "merkle_tree sha k its' t'"
    and "\<forall>i < 2 ^ k. leaf_kvs k i its = leaf_kvs k i its'"
  shows "t = t'"
proof -
  let ?N = "(2::nat) ^ k"
  have "hashes t ! j = hashes t' ! j \<and> keyCounts t ! j = keyCounts t' ! j" if "j < 2 * ?N - 1" for j
    using that
  proof (induction "2 * ?N - 1 - j" arbitrary: j rule: less_induct)
    case less
    show ?case
    proof (cases "j < ?N - 1")
      case True
      then have "hashes t ! (2 * j + 1) = hashes t' ! (2 * j + 1) \<and> keyCounts t ! (2 * j + 1) = keyCounts t' ! (2 * j + 1)"
        "hashes t ! (2 * j + 2) = hashes t' ! (2 * j + 2) \<and> keyCounts t ! (2 * j + 2) = keyCounts t' ! (2 * j + 2)"
        by (intro less.hyps; simp)+
      with True assms(1,2) show ?thesis by (simp add: merkle_tree_def)
    next
      case False
      then have "j = ?N - 1 + (j - (?N - 1))" "j - (?N - 1) < ?N" using less.prems by auto
      with assms show ?thesis unfolding merkle_tree_def by metis
    qed
  qed
  then show ?thesis
    using assms(1,2) by (intro Tree.equality) (auto simp: merkle_tree_def intro: nth_equalityI)
qed

section \<open>Leaf encodings\<close>

lemma length_be_bytes [simp]: "length (be_bytes k n) = k"
  by (induction k arbitrary: n) auto

lemma be_bytes_inj: "be_bytes k m = be_bytes k n \<Longrightarrow> m mod 256 ^ k = n mod 256 ^ k"
proof (induction k arbitrary: m n)
  case (Suc k)
  have bytes: "be_bytes k (m div 256) = be_bytes k (n div 256)" "char_of m = (char_of n :: char)"
    using Suc.prems by simp_all
  have "m mod 256 = n mod 256" using bytes(2) by (metis of_char_of)
  with Suc.IH [OF bytes(1)] show ?case by (simp add: mod_mult2_eq)
qed simp

definition small_kv :: "kv \<Rightarrow> bool" where
  "small_kv e \<longleftrightarrow> length (kv_key e) < 2 ^ 32 \<and> length (kv_value e) < 2 ^ 32"

lemma be_bytes4_length: "n < 2 ^ 32 \<Longrightarrow> m < 2 ^ 32 \<Longrightarrow>
    be_bytes 4 (unat (of_nat n :: 32 word)) = be_bytes 4 (unat (of_nat m :: 32 word)) \<Longrightarrow> n = m"
  using be_bytes_inj [of 4 n m] by (simp add: unsigned_of_nat take_bit_nat_eq_self)

lemma be_bytes8_version: "be_bytes 8 (unat (v :: int64)) = be_bytes 8 (unat w) \<Longrightarrow> v = w"
  using be_bytes_inj [of 8 "unat v" "unat w"] unat64_less [of v] unat64_less [of w]
  by (simp add: word_unat_eq_iff)

lemma entry_bytes_inj:
  assumes "small_kv e" and "small_kv e'" and "entry_bytes e @ r = entry_bytes e' @ r'"
  shows "e = e' \<and> r = r'"
proof -
  have "length (kv_key e) = length (kv_key e')"
    using assms be_bytes4_length by (simp add: entry_bytes_def small_kv_def)
  with assms(3) have k: "kv_key e = kv_key e'" and
    rest: "be_bytes 4 (unat (of_nat (length (kv_value e)) :: 32 word)) @ kv_value e @ be_bytes 8 (unat (kv_ver e)) @ r =
      be_bytes 4 (unat (of_nat (length (kv_value e')) :: 32 word)) @ kv_value e' @ be_bytes 8 (unat (kv_ver e')) @ r'"
    by (auto simp: entry_bytes_def)
  have "length (kv_value e) = length (kv_value e')"
    using rest assms(1,2) be_bytes4_length by (simp add: small_kv_def)
  with rest have "kv_value e = kv_value e'" "be_bytes 8 (unat (kv_ver e)) = be_bytes 8 (unat (kv_ver e'))" "r = r'"
    by auto
  with k show ?thesis using be_bytes8_version by (simp add: kv.equality)
qed

lemma entry_bytes_neq_Nil [simp]: "entry_bytes e \<noteq> []"
  by (simp add: entry_bytes_def) (metis length_be_bytes list.size(3) zero_neq_numeral)

lemma leaf_encoding_inj:
  "\<forall>e \<in> set es. small_kv e \<Longrightarrow> \<forall>e \<in> set es'. small_kv e \<Longrightarrow>
    concat (map entry_bytes es) = concat (map entry_bytes es') \<Longrightarrow> es = es'"
proof (induction es arbitrary: es')
  case Nil
  then show ?case by (cases es') auto
next
  case (Cons e es)
  obtain e' es'' where es': "es' = e' # es''" using Cons.prems(3) by (cases es') auto
  with Cons.prems entry_bytes_inj [of e e' "concat (map entry_bytes es)" "concat (map entry_bytes es'')"]
  have "e = e'" "concat (map entry_bytes es) = concat (map entry_bytes es'')" by auto
  then show ?case using Cons.IH [of es''] Cons.prems(1,2) by (simp add: es')
qed

section \<open>Comparing trees\<close>

lemma bytes_loop_eq: "length a = length b \<Longrightarrow> bytes_loop a b \<longleftrightarrow> a = b"
  by (induction a b rule: bytes_loop.induct) auto

lemma bytesEqual_eq [simp]: "bytesEqual a b \<longleftrightarrow> a = b"
  by (auto simp: bytesEqual_def bytes_loop_eq)

lemma Diff_merkle_tree:
  assumes "merkle_tree sha k its t" and "merkle_tree sha k its' t'"
  shows "set (Diff t t') = {i. i < 2 ^ k \<and> leafHash sha (leaf_kvs k i its) \<noteq> leafHash sha (leaf_kvs k i its')}"
proof -
  have n: "nat (numLeaves t) = 2 ^ k" "numLeaves t = numLeaves t'"
    using assms by (simp_all add: merkle_tree_def nat_power_eq)
  have leaf: "hashes t ! (2 ^ k - 1 + i) = leafHash sha (leaf_kvs k i its)"
    "hashes t' ! (2 ^ k - 1 + i) = leafHash sha (leaf_kvs k i its')" if "i < 2 ^ k" for i
    using that assms unfolding merkle_tree_def by blast+
  have "Diff t t' = filter (\<lambda>i. hashes t ! (2 ^ k - 1 + i) \<noteq> hashes t' ! (2 ^ k - 1 + i)) [0..<2 ^ k]"
    unfolding Diff_def Let_def n(1) using n(2) by simp
  then show ?thesis using leaf by (auto simp del: One_nat_def)
qed

text \<open>The inputs that building a tree gives to the digest.\<close>

definition tree_inputs :: "nat \<Rightarrow> item list \<Rightarrow> Tree \<Rightarrow> string set" where
  "tree_inputs k its t = (\<lambda>i. concat (map entry_bytes (leaf_kvs k i its))) ` {..<2 ^ k} \<union>
     (\<lambda>j. hashes t ! (2 * j + 1) @ hashes t ! (2 * j + 2)) ` {..<2 ^ k - 1}"

text \<open>Equal roots of collision-free trees have equal nodes everywhere, from the root downwards.\<close>

lemma equal_roots_equal_nodes:
  assumes t: "merkle_tree sha k its t" and t': "merkle_tree sha k its' t'"
    and inj: "inj_on sha (tree_inputs k its t \<union> tree_inputs k its' t')"
    and size: "\<forall>x. length (sha x) = c" and root: "hashes t ! 0 = hashes t' ! 0" and "j < 2 * 2 ^ k - 1"
  shows "hashes t ! j = hashes t' ! j"
  using assms(6)
proof (induction j rule: less_induct)
  case (less j)
  show ?case
  proof (cases j)
    case 0
    with root show ?thesis by simp
  next
    case (Suc j')
    let ?p = "j' div 2"
    have p: "?p < j" "?p < 2 ^ k - 1" "?p < 2 * 2 ^ k - 1" using Suc less.prems by auto
    have len: "length (hashes u ! i) = c" if "merkle_tree sha k is u" "i < 2 * 2 ^ k - 1" for "is" u i
    proof (cases "i < 2 ^ k - 1")
      case True
      then have "hashes u ! i = sha (hashes u ! (2 * i + 1) @ hashes u ! (2 * i + 2))"
        using that(1) unfolding merkle_tree_def by blast
      with size show ?thesis by simp
    next
      case False
      then obtain l where l: "i = 2 ^ k - 1 + l" using le_Suc_ex not_less by blast
      then have "l < 2 ^ k" using that(2) by simp
      then have "hashes u ! i = leafHash sha (leaf_kvs k l is)"
        using that(1) unfolding merkle_tree_def l by blast
      with size show ?thesis by (simp add: leafHash_def)
    qed
    have "sha (hashes t ! (2 * ?p + 1) @ hashes t ! (2 * ?p + 2)) = hashes t ! ?p"
      "sha (hashes t' ! (2 * ?p + 1) @ hashes t' ! (2 * ?p + 2)) = hashes t' ! ?p"
      using t t' p(2) unfolding merkle_tree_def by auto
    moreover have "hashes t ! ?p = hashes t' ! ?p" using less.IH [OF p(1,3)] .
    ultimately have "sha (hashes t ! (2 * ?p + 1) @ hashes t ! (2 * ?p + 2)) =
        sha (hashes t' ! (2 * ?p + 1) @ hashes t' ! (2 * ?p + 2))" by simp
    moreover have "hashes t ! (2 * ?p + 1) @ hashes t ! (2 * ?p + 2) \<in> tree_inputs k its t \<union> tree_inputs k its' t'"
      "hashes t' ! (2 * ?p + 1) @ hashes t' ! (2 * ?p + 2) \<in> tree_inputs k its t \<union> tree_inputs k its' t'"
      using p(2) by (auto simp: tree_inputs_def)
    ultimately have "hashes t ! (2 * ?p + 1) @ hashes t ! (2 * ?p + 2) = hashes t' ! (2 * ?p + 1) @ hashes t' ! (2 * ?p + 2)"
      using inj by (meson inj_onD)
    moreover have "2 * ?p + 1 < 2 * 2 ^ k - 1" using p(2) by arith
    ultimately have "hashes t ! (2 * ?p + 1) = hashes t' ! (2 * ?p + 1) \<and> hashes t ! (2 * ?p + 2) = hashes t' ! (2 * ?p + 2)"
      using len [OF t, of "2 * ?p + 1"] len [OF t', of "2 * ?p + 1"] by simp
    moreover have "j = 2 * ?p + 1 \<or> j = 2 * ?p + 2" using Suc by arith
    ultimately show ?thesis by metis
  qed
qed

lemma equal_leaf_hashes:
  assumes "inj_on sha (tree_inputs k its t \<union> tree_inputs k its' t')" and "i < 2 ^ k"
    and "\<forall>it \<in> set its \<union> set its'. small_kv (to_kv it)"
  shows "leafHash sha (leaf_kvs k i its) = leafHash sha (leaf_kvs k i its') \<longleftrightarrow> leaf_kvs k i its = leaf_kvs k i its'"
proof
  assume eq: "leafHash sha (leaf_kvs k i its) = leafHash sha (leaf_kvs k i its')"
  have "concat (map entry_bytes (leaf_kvs k i its)) = concat (map entry_bytes (leaf_kvs k i its'))"
    by (rule inj_onD [OF assms(1)]) (use eq assms(2) in \<open>auto simp: leafHash_def tree_inputs_def\<close>)
  then show "leaf_kvs k i its = leaf_kvs k i its'"
    by (intro leaf_encoding_inj) (use assms(3) in \<open>auto simp: leaf_kvs_def leaf_items_def\<close>)
qed simp

context ordered_tree
begin

lemma set_leaf_kvs:
  "set (leaf_kvs k i (bt_ascend B (tree st))) =
    {\<lparr>kv_key = key, kv_value = v, kv_ver = ver\<rparr> | key v ver. Get B key st = (v, ver, True) \<and> leaf_of k (hashKey key) = i}"
proof -
  have mem: "it \<in> set (bt_ascend B (tree st)) \<longleftrightarrow> contents B st (fst it) = Some (snd it)" for it
    using ascend_distinct [of "tree st"] by (cases it) (simp add: contents_def)
  have get: "Get B key st = (v, ver, True) \<longleftrightarrow>
      (\<exists>e. contents B st key = Some e \<and> \<not> Deleted e \<and> Value e = v \<and> Version e = ver)" for key v ver
    by (auto simp: Get_contents split: option.splits)
  show ?thesis
    unfolding leaf_kvs_def leaf_items_def set_map set_filter mem get
    by (auto simp: to_kv_def image_iff)
qed

text \<open>Two stores have the same leaf exactly if their clients read the same from its keys.\<close>

lemma leaf_kvs_eq_iff:
  "leaf_kvs k i (bt_ascend B (tree st)) = leaf_kvs k i (bt_ascend B (tree st')) \<longleftrightarrow>
    (\<forall>key. leaf_of k (hashKey key) = i \<longrightarrow> Get B key st = Get B key st')"
  (is "?l = ?l' \<longleftrightarrow> ?same")
proof
  assume eq: "?l = ?l'"
  show ?same
  proof (intro allI impI)
    fix key
    assume leaf: "leaf_of k (hashKey key) = i"
    have get: "Get B key s = (v, ver, True) \<longleftrightarrow>
        \<lparr>kv_key = key, kv_value = v, kv_ver = ver\<rparr> \<in> set (leaf_kvs k i (bt_ascend B (tree s)))" for s v ver
      using leaf by (simp add: set_leaf_kvs)
    have found: "Get B key st = (v, ver, True) \<longleftrightarrow> Get B key st' = (v, ver, True)" for v ver
      unfolding get eq ..
    have "(\<exists>v ver. Get B key s = (v, ver, True)) \<or> Get B key s = ([], 0, False)" for s
      by (auto simp: Get_contents split: option.splits)
    from this [of st] this [of st'] found show "Get B key st = Get B key st'" by metis
  qed
next
  assume same: ?same
  then have "set ?l = set ?l'" unfolding set_leaf_kvs by auto
  moreover have "distinct ?l" "distinct ?l'"
    using leaf_kvs_sorted strict_sorted_iff distinct_map by blast+
  ultimately have "mset ?l = mset ?l'" by (simp add: set_eq_iff_mset_eq_distinct)
  then show "?l = ?l'"
    using leaf_kvs_sorted by (intro sorted_perm_unique [of _ _ kv_key]) (auto simp: strict_sorted_iff distinct_map)
qed

end

context ordered_tree
begin

lemma LeafEntries_leaf_items:
  assumes "0 < k" and "k \<le> 62" and "i < 2 ^ k"
  shows "LeafEntries B st (2 ^ k) (int i) = Some (map snd (leaf_items k i (bt_ascend B (tree st))))"
proof -
  obtain start end' where b: "LeafBounds (2 ^ k) (int i) = Some (start, end')"
    and range: "\<forall>h. inLeafRange h start end' (int i = 2 ^ k - 1) \<longleftrightarrow> leaf_of k h = i"
    using LeafBounds_leaf_of [OF assms] by blast
  have "fold (\<lambda>it es. if leaf_of k (hashKey (fst it)) = i then es @ [snd it] else es)
      (filter (\<lambda>it. \<not> Deleted (snd it)) its) acc = acc @ map snd (leaf_items k i its)" for its acc
    by (induction its arbitrary: acc) (auto simp: leaf_items_def)
  then show ?thesis
    by (simp add: LeafEntries_def b Iterate_def iterate_items_all range)
qed

lemma live_leaf_items: "set (leaf_items k i (bt_ascend B (tree st))) =
    {(key, e). contents B st key = Some e \<and> \<not> Deleted e \<and> leaf_of k (hashKey key) = i}"
proof -
  have mem: "(key, e) \<in> set (bt_ascend B (tree st)) \<longleftrightarrow> contents B st key = Some e" for key e
    using ascend_distinct [of "tree st"] by (simp add: contents_def)
  show ?thesis by (auto simp: leaf_items_def mem)
qed

lemma length_leaf_items:
  "length (leaf_items k i (bt_ascend B (tree st))) = card {key \<in> live (contents B st). leaf_of k (hashKey key) = i}"
proof -
  let ?xs = "leaf_items k i (bt_ascend B (tree st))"
  have "distinct (map fst ?xs)"
    using ascend_distinct [of "tree st"] by (simp add: leaf_items_def distinct_map_filter)
  then have "length ?xs = card (fst ` set ?xs)" by (metis distinct_card length_map set_map)
  also have "fst ` set ?xs = {key \<in> live (contents B st). leaf_of k (hashKey key) = i}"
    by (force simp: live_leaf_items live_def)
  finally show ?thesis .
qed

lemma sum_leaves:
  assumes "k \<le> 64"
  shows "(\<Sum>i < 2 ^ k. int (length (leaf_items k i (bt_ascend B (tree st))))) = int (card (live (contents B st)))"
proof -
  let ?L = "\<lambda>i. {key \<in> live (contents B st). leaf_of k (hashKey key) = i}"
  have "(\<Union>i \<in> {..<2 ^ k}. ?L i) = live (contents B st)" using leaf_of_less [OF assms] by auto
  moreover have "card (\<Union>i \<in> {..<2 ^ k}. ?L i) = (\<Sum>i < 2 ^ k. card (?L i))"
    by (rule card_UN_disjoint) auto
  ultimately show ?thesis by (simp add: length_leaf_items)
qed

end

lemma leaf_access:
  assumes "merkle_tree sha k its t" and "i < 2 ^ k"
  shows "LeafKeyCount t (int i) = Some (int (length (leaf_items k i its)))"
    "LeafHash t (int i) = Some (leafHash sha (leaf_kvs k i its))"
proof -
  have "int (2 ^ k - 1 + i) = 2 ^ k - 1 + int i" by (simp only: of_nat_add) (simp add: of_nat_diff)
  moreover have "numLeaves t = 2 ^ k" and len: "length (keyCounts t) = 2 * 2 ^ k - 1" "length (hashes t) = 2 * 2 ^ k - 1"
    and leaf: "keyCounts t ! (2 ^ k - 1 + i) = int (length (leaf_kvs k i its))"
      "hashes t ! (2 ^ k - 1 + i) = leafHash sha (leaf_kvs k i its)"
    using assms unfolding merkle_tree_def by blast+
  ultimately have idx: "numLeaves t - 1 + int i = int (2 ^ k - 1 + i)" by simp
  have less: "2 ^ k - 1 + i < 2 * 2 ^ k - 1" using assms(2) by arith
  have "LeafKeyCount t (int i) = Some (keyCounts t ! (2 ^ k - 1 + i))" "LeafHash t (int i) = Some (hashes t ! (2 ^ k - 1 + i))"
    unfolding LeafKeyCount_def LeafHash_def idx index_at_def len
    using less by (simp_all only: nat_int of_nat_less_iff of_nat_0_le_iff if_True simp_thms)
  then show "LeafKeyCount t (int i) = Some (int (length (leaf_items k i its)))"
    "LeafHash t (int i) = Some (leafHash sha (leaf_kvs k i its))"
    unfolding leaf by (simp_all add: leaf_kvs_def)
qed

text \<open>What \<open>Build\<close> returns is a Merkle tree over the live items.\<close>

lemma Build_Some:
  assumes "ordered_tree B" and "slice_sort kv_key srt" and "sint n \<le> 2 ^ 32" and "n \<noteq> 1"
  obtains k t where "0 < k" "k \<le> 62" "Build B sha srt st n = Some t" "leaf_count n = 2 ^ k"
    "merkle_tree sha k (bt_ascend B (tree st)) t" "NumLeaves t = 2 ^ k" "sint n \<le> 2 ^ k"
proof -
  obtain k where k: "0 < k" "k \<le> 62" "leaf_count n = 2 ^ k" "sint n \<le> 2 ^ k"
    using leaf_count_pow2 [OF assms(3,4)] by auto
  obtain t where t: "Build B sha srt st n = Some t" "merkle_tree sha k (bt_ascend B (tree st)) t"
    using ordered_tree.Build_merkle_tree [OF assms(1,2) k(1-3)] by blast
  then have "NumLeaves t = 2 ^ k" by (simp add: merkle_tree_def NumLeaves_def)
  with that k t show thesis by blast
qed

section \<open>Properties\<close>

text \<open>
  A store with one key that has a value of one byte, another that got there by a different history and holds a tombstone
  besides, and a digest of 32 bytes, for the examples.
\<close>

definition ex_store_of :: "string \<Rightarrow> alist_tree Store" where
  "ex_store_of v = snd (SetFrom alist_btree ''a'' v ''n'' (New alist_btree))"

definition ex_store :: "alist_tree Store" where
  "ex_store = ex_store_of ''b''"

definition ex_twin :: "alist_tree Store" where
  "ex_twin = snd (SetWithVersion alist_btree ''a'' \<lparr>Value = ''b'', Version = 1, Origin = ''m'', Deleted = False\<rparr>
     (snd (SetWithVersion alist_btree ''z'' \<lparr>Value = [], Version = 5, Origin = ''m'', Deleted = True\<rparr> (New alist_btree))))"

definition weight :: "string \<Rightarrow> nat" where
  "weight x = sum_list (map of_char x) + 65536 * length x"

definition ex_sha :: digest where
  "ex_sha x = be_bytes 32 (weight x)"

lemma ex_store_of_items: "bt_ascend alist_btree (tree (ex_store_of v)) =
    [(''a'', \<lparr>Value = v, Version = 1, Origin = ''n'', Deleted = False\<rparr>)]"
  by (simp add: ex_store_of_def SetFrom_def New_def alist_btree_def Let_def)

lemma ex_store_items: "bt_ascend alist_btree (tree ex_store) =
    [(''a'', \<lparr>Value = ''b'', Version = 1, Origin = ''n'', Deleted = False\<rparr>)]"
  by (simp add: ex_store_def ex_store_of_items)

lemma ex_twin_items: "bt_ascend alist_btree (tree ex_twin) =
    [(''a'', \<lparr>Value = ''b'', Version = 1, Origin = ''m'', Deleted = False\<rparr>),
     (''z'', \<lparr>Value = [], Version = 5, Origin = ''m'', Deleted = True\<rparr>)]"
  by (simp add: ex_twin_def SetWithVersion_def New_def alist_btree_def Let_def less_item_def)

text \<open>
  C30. For every number of leaves \<open>n\<close> up to \<open>2 ^ 32\<close> except 1, \<open>Build\<close> returns the Merkle tree of what clients can read:
  its number of leaves is a power of two of at least \<open>n\<close> (64 if \<open>n\<close> is not positive); the hash of leaf \<open>i\<close>
  is that of the readable keys whose hash falls into leaf \<open>i\<close>, with their values and versions, in the order of the
  keys, and the leaf counts them; every inner hash is the digest of the concatenated hashes of its children, every inner
  count the sum of theirs, and the root counts every readable key.
\<close>

theorem Build_is_merkle_tree:
  assumes "ordered_tree B" and "slice_sort kv_key srt" and "sint n \<le> 2 ^ 32" and "n \<noteq> 1"
  shows "\<exists>t k. Build B sha srt st n = Some t \<and> NumLeaves t = 2 ^ k \<and> sint n \<le> NumLeaves t \<and>
    (sint n \<le> 0 \<longrightarrow> NumLeaves t = 64) \<and> length (hashes t) = 2 * 2 ^ k - 1 \<and> length (keyCounts t) = 2 * 2 ^ k - 1 \<and>
    (\<forall>i < 2 ^ k. \<exists>kvs. LeafHash t (int i) = Some (leafHash sha kvs) \<and> LeafKeyCount t (int i) = Some (int (length kvs)) \<and>
        sorted_wrt (<) (map kv_key kvs) \<and>
        set kvs = {\<lparr>kv_key = key, kv_value = v, kv_ver = ver\<rparr> | key v ver. Get B key st = (v, ver, True) \<and> leaf_of k (hashKey key) = i}) \<and>
    (\<forall>j < 2 ^ k - 1. hashes t ! j = sha (hashes t ! (2 * j + 1) @ hashes t ! (2 * j + 2)) \<and>
        keyCounts t ! j = keyCounts t ! (2 * j + 1) + keyCounts t ! (2 * j + 2)) \<and>
    keyCounts t ! 0 = int (card {key. snd (snd (Get B key st))})"
proof -
  obtain k t where k: "0 < k" "k \<le> 62" "Build B sha srt st n = Some t" "leaf_count n = 2 ^ k"
    "merkle_tree sha k (bt_ascend B (tree st)) t" "NumLeaves t = 2 ^ k" "sint n \<le> 2 ^ k"
    by (rule Build_Some [OF assms])
  let ?c = "keyCounts t"
  have live: "live (contents B st) = {key. snd (snd (Get B key st))}"
    by (rule ordered_tree.live_Get [OF assms(1)])
  have leaf: "?c ! (2 ^ k - 1 + i) = int (length (leaf_items k i (bt_ascend B (tree st))))" if "i < 2 ^ k" for i
    using k(5) that unfolding merkle_tree_def by (simp add: leaf_kvs_def)
  have leaves: "\<exists>kvs. LeafHash t (int i) = Some (leafHash sha kvs) \<and> LeafKeyCount t (int i) = Some (int (length kvs)) \<and>
      sorted_wrt (<) (map kv_key kvs) \<and>
      set kvs = {\<lparr>kv_key = key, kv_value = v, kv_ver = ver\<rparr> | key v ver. Get B key st = (v, ver, True) \<and> leaf_of k (hashKey key) = i}"
    if i: "i < 2 ^ k" for i
    using leaf_access [OF k(5) i] ordered_tree.leaf_kvs_sorted [OF assms(1)] ordered_tree.set_leaf_kvs [OF assms(1)]
    by (intro exI [of _ "leaf_kvs k i (bt_ascend B (tree st))"]) (simp add: leaf_kvs_def)
  have "?c ! 0 = (\<Sum>j = 2 ^ k - 1..<2 ^ Suc k - 1. ?c ! j)"
    using k(5) level_sum [of k "\<lambda>j. ?c ! j" k] unfolding merkle_tree_def by simp
  also have "\<dots> = (\<Sum>i < 2 ^ k. ?c ! (2 ^ k - 1 + i))"
    by (rule sum.reindex_bij_witness [of _ "\<lambda>i. 2 ^ k - 1 + i" "\<lambda>j. j - (2 ^ k - 1)"]) auto
  also have "\<dots> = (\<Sum>i < 2 ^ k. int (length (leaf_items k i (bt_ascend B (tree st)))))"
    by (rule sum.cong) (simp_all only: lessThan_iff leaf)
  also have "\<dots> = int (card (live (contents B st)))"
    using ordered_tree.sum_leaves [OF assms(1), of k] k(2) by simp
  finally have root: "?c ! 0 = int (card {key. snd (snd (Get B key st))})" by (simp add: live)
  have "\<forall>j < 2 ^ k - 1. hashes t ! j = sha (hashes t ! (2 * j + 1) @ hashes t ! (2 * j + 2)) \<and>
      ?c ! j = ?c ! (2 * j + 1) + ?c ! (2 * j + 2)" "length (hashes t) = 2 * 2 ^ k - 1" "length ?c = 2 * 2 ^ k - 1"
    using k(5) unfolding merkle_tree_def by blast+
  moreover have "NumLeaves t = 64" if "sint n \<le> 0"
    using that k(4,6) by (simp add: leaf_count_def roundUpPowerOfTwo_def defaultNumLeaves_def)
  ultimately show ?thesis using k(3,6,7) leaves root by (intro exI [of _ t] exI [of _ k]) simp
qed

theorem Build_is_merkle_tree_witness:
  "\<exists>t. Build alist_btree ex_sha (sort_key kv_key) ex_store 3 = Some t \<and> 3 \<le> NumLeaves t"
  using Build_is_merkle_tree [OF alist.ordered_tree_axioms stable_sort.slice_sort_axioms, of 3 ex_sha ex_store] by fastforce

text \<open>
  C32. One leaf makes \<open>Build\<close> panic: the width of the only leaf, \<open>maxUint64 / 1 + 1\<close>, wraps to 0 and the
  bucket computation divides by it, as soon as the store has a key that can be read.
\<close>

theorem Build_one_leaf_panics:
  assumes "ordered_tree B"
  shows "Build B sha srt st 1 = None \<longleftrightarrow> (\<exists>key. snd (snd (Get B key st)))"
proof -
  have step: "bucket_index 1 h = None" for h by (simp add: bucket_index_def maxUint64_def)
  then have fn: "bucket_fn 1 key e (Some bs) = (False, None)" for key e bs by (simp add: bucket_fn_def)
  have it: "iterate_items (bucket_fn 1) its (Some bs) =
      (if filter (\<lambda>it. \<not> Deleted (snd it)) its = [] then Some bs else None)" for its bs
    by (induction its) (simp_all add: fn)
  have one: "leaf_count 1 = 1" by (simp add: leaf_count_def roundUpPowerOfTwo_def)
  have "(\<exists>key. snd (snd (Get B key st))) \<longleftrightarrow> live (contents B st) \<noteq> {}"
    using ordered_tree.live_Get [OF assms] by auto
  also have "\<dots> \<longleftrightarrow> filter (\<lambda>it. \<not> Deleted (snd it)) (bt_ascend B (tree st)) \<noteq> []"
    using ordered_tree.ascend_distinct [OF assms, of "tree st"]
    by (force simp: live_def contents_def filter_empty_conv)
  finally show ?thesis
    by (simp add: Build_def one Iterate_def it Let_def split: prod.split)
qed

theorem Build_one_leaf_panics_witness:
  "Build alist_btree ex_sha (sort_key kv_key) ex_store 1 = None"
proof -
  have "snd (snd (Get alist_btree ''a'' ex_store))"
    by (simp add: alist.Get_contents contents_def ex_store_items)
  then show ?thesis
    using Build_one_leaf_panics [OF alist.ordered_tree_axioms, of ex_sha "sort_key kv_key" ex_store] by blast
qed

text \<open>
  \<open>roundUpPowerOfTwo\<close> is right up to \<open>2 ^ 32\<close>: it returns the least power of two that is not below its
  argument.
\<close>

theorem roundUpPowerOfTwo_least:
  assumes "0 < sint n" and "sint n \<le> 2 ^ 32"
  shows "\<exists>k. sint (roundUpPowerOfTwo n) = 2 ^ k \<and> sint n \<le> 2 ^ k \<and> (\<forall>j. sint n \<le> 2 ^ j \<longrightarrow> k \<le> j)"
proof -
  obtain k where k: "sint (roundUpPowerOfTwo n) = 2 ^ k" "sint n \<le> 2 ^ k" "2 ^ k < 2 * sint n"
    using roundUpPowerOfTwo_pow2 [OF assms] by blast
  have "k \<le> j" if "sint n \<le> 2 ^ j" for j
  proof -
    have "(2::int) ^ k < 2 ^ Suc j" using k(3) that by simp
    then have "k < Suc j" by (rule power_less_imp_less_exp [rotated]) simp
    then show ?thesis by simp
  qed
  with k(1,2) show ?thesis by blast
qed

theorem roundUpPowerOfTwo_least_witness:
  "\<exists>k. sint (roundUpPowerOfTwo 33) = 2 ^ k \<and> 33 \<le> (2::int) ^ k \<and> (\<forall>j. 33 \<le> (2::int) ^ j \<longrightarrow> k \<le> j)"
  using roundUpPowerOfTwo_least [of 33] by simp

text \<open>
  Above \<open>2 ^ 32\<close> the shift by 32 bits is missing: \<open>2 ^ 32 + 1\<close> is rounded to \<open>2 ^ 33 - 1\<close>, which is not a power of
  two.
\<close>

theorem roundUpPowerOfTwo_wrong_above_2_32:
  "sint (roundUpPowerOfTwo 4294967297) = 2 ^ 33 - 1"
  by (simp add: roundUpPowerOfTwo_def)

text \<open>
  C31. \<open>LeafEntries\<close> returns exactly the live entries whose keys \<open>Build\<close> puts into the leaf, so the
  range test of \<open>LeafBounds\<close> and \<open>inLeafRange\<close> and the division of \<open>Build\<close> agree on every hash, the
  maximal one included, and the leaf's count is their number.
\<close>

theorem LeafEntries_is_bucket:
  assumes "ordered_tree B" and "slice_sort kv_key srt" and "sint n \<le> 2 ^ 32" and "n \<noteq> 1"
    and "Build B sha srt st n = Some t" and "0 \<le> i" and "i < NumLeaves t"
  shows "\<exists>es. LeafEntries B st (NumLeaves t) i = Some es \<and>
    set es = {e. \<exists>key. Snapshot B st key = Some e \<and> \<not> Deleted e \<and>
      bucket_index (NumLeaves t) (hashKey key) = Some (nat i)} \<and>
    LeafKeyCount t i = Some (int (length es))"
proof -
  obtain k where k: "0 < k" "k \<le> 62" "merkle_tree sha k (bt_ascend B (tree st)) t" "NumLeaves t = 2 ^ k"
    using Build_Some [OF assms(1-4), of sha st] assms(5) by (metis option.inject)
  let ?j = "nat i"
  let ?es = "map snd (leaf_items k ?j (bt_ascend B (tree st)))"
  have j: "?j < 2 ^ k" "i = int ?j" using assms(6,7) k(4) by (auto simp: nat_less_iff)
  have "LeafEntries B st (NumLeaves t) i = Some ?es"
    using ordered_tree.LeafEntries_leaf_items [OF assms(1) k(1,2) j(1)] j(2) k(4) by simp
  moreover have "set ?es = {e. \<exists>key. Snapshot B st key = Some e \<and> \<not> Deleted e \<and>
      bucket_index (NumLeaves t) (hashKey key) = Some ?j}"
    by (force simp: ordered_tree.live_leaf_items [OF assms(1)] ordered_tree.Snapshot_contents [OF assms(1)]
        k(4) bucket_index_leaf_of [OF k(1,2)])
  moreover have "LeafKeyCount t i = Some (int (length ?es))"
    using leaf_access(1) [OF k(3) j(1)] j(2) by simp
  ultimately show ?thesis by blast
qed

theorem LeafEntries_is_bucket_witness:
  "\<exists>t es. Build alist_btree ex_sha (sort_key kv_key) ex_store 3 = Some t \<and>
    LeafEntries alist_btree ex_store (NumLeaves t) 0 = Some es \<and> LeafKeyCount t 0 = Some (int (length es))"
proof -
  obtain k t where t: "Build alist_btree ex_sha (sort_key kv_key) ex_store 3 = Some t" "NumLeaves t = 2 ^ k"
    by (rule Build_Some [OF alist.ordered_tree_axioms stable_sort.slice_sort_axioms, of 3 ex_sha ex_store]) simp_all
  from LeafEntries_is_bucket [OF alist.ordered_tree_axioms stable_sort.slice_sort_axioms _ _ t(1), of 0] t
  show ?thesis by auto
qed

text \<open>
  C29. Two trees over the same number of leaves differ in exactly the leaves in which clients of the two
  stores can read something different, a value or a version, provided the digest has no collision
  among the leaf contents at hand and keys and values are shorter than \<open>2 ^ 32\<close> bytes; the length
  prefixes make the encoding of a leaf injective.
\<close>

theorem Diff_finds_differing_leaves:
  assumes "ordered_tree B" and "slice_sort kv_key srt" and "sint n \<le> 2 ^ 32" and "n \<noteq> 1"
    and "Build B sha srt st n = Some t" and "Build B sha srt st' n = Some t'" and "NumLeaves t = 2 ^ k"
    and "inj_on sha (tree_inputs k (bt_ascend B (tree st)) t \<union> tree_inputs k (bt_ascend B (tree st')) t')"
    and "\<forall>it \<in> set (bt_ascend B (tree st)) \<union> set (bt_ascend B (tree st')). small_kv (to_kv it)"
  shows "set (Diff t t') = {i. \<exists>key. leaf_of k (hashKey key) = i \<and> Get B key st \<noteq> Get B key st'}"
proof -
  let ?its = "bt_ascend B (tree st)" and ?its' = "bt_ascend B (tree st')"
  have k: "k \<le> 62" "merkle_tree sha k ?its t" "merkle_tree sha k ?its' t'"
    using Build_Some [OF assms(1-4), of sha st] Build_Some [OF assms(1-4), of sha st'] assms(5-7)
    by (metis option.inject power_inject_exp one_less_numeral_iff semiring_norm(76))+
  have "set (Diff t t') = {i. i < 2 ^ k \<and> leaf_kvs k i ?its \<noteq> leaf_kvs k i ?its'}"
    using Diff_merkle_tree [OF k(2,3)] equal_leaf_hashes [OF assms(8) _ assms(9)] by auto
  then show ?thesis
    using leaf_of_less [of k] k(1) by (auto simp: ordered_tree.leaf_kvs_eq_iff [OF assms(1)])
qed

text \<open>The example digest has no collision on the trees of the example stores.\<close>

lemma be_sum_Suc:
  "sum_list (map of_char (be_bytes (Suc k) n)) = sum_list (map of_char (be_bytes k (n div 256))) + (n mod 256 :: nat)"
  by simp

lemma be_sum_0 [simp]: "sum_list (map of_char (be_bytes k 0)) = (0 :: nat)"
  by (induction k) simp_all

lemma be_sum [simp]:
  "n < 16777216 \<Longrightarrow> sum_list (map of_char (be_bytes 32 n)) = n div 65536 mod 256 + n div 256 mod 256 + n mod 256"
  "n < 256 \<Longrightarrow> sum_list (map of_char (be_bytes 4 n)) = n" "n < 256 \<Longrightarrow> sum_list (map of_char (be_bytes 8 n)) = n"
  using be_sum_Suc [of 31 n] be_sum_Suc [of 30 "n div 256"] be_sum_Suc [of 29 "n div 256 div 256"] be_sum_0 [of 29]
    be_sum_Suc [of 3 n] be_sum_0 [of 3] be_sum_Suc [of 7 n] be_sum_0 [of 7]
  by (simp_all add: div_mult2_eq [symmetric] del: be_bytes.simps)

lemma length_ex_sha [simp]: "length (ex_sha x) = 32"
  by (simp add: ex_sha_def)

lemma ex_sha_eq: "weight x < 16777216 \<Longrightarrow> weight y < 16777216 \<Longrightarrow> ex_sha x = ex_sha y \<Longrightarrow> weight x = weight y"
  using be_bytes_inj [of 32 "weight x" "weight y"] by (simp add: ex_sha_def)

definition ex_kv :: "string \<Rightarrow> kv" where
  "ex_kv v = \<lparr>kv_key = ''a'', kv_value = v, kv_ver = 1\<rparr>"

definition ex_inputs :: "string \<Rightarrow> string set" where
  "ex_inputs v = {[], entry_bytes (ex_kv v),
     if leaf_of 1 (hashKey ''a'') = 0 then ex_sha (entry_bytes (ex_kv v)) @ ex_sha [] else ex_sha [] @ ex_sha (entry_bytes (ex_kv v))}"

lemma ex_weights:
  "weight [] = 0" "weight (entry_bytes (ex_kv ''b'')) = 1179846" "weight (entry_bytes (ex_kv ''c'')) = 1179847"
  "weight (ex_sha [] @ ex_sha (entry_bytes (ex_kv ''b''))) = 4194520" "weight (ex_sha (entry_bytes (ex_kv ''b'')) @ ex_sha []) = 4194520"
  "weight (ex_sha [] @ ex_sha (entry_bytes (ex_kv ''c''))) = 4194521" "weight (ex_sha (entry_bytes (ex_kv ''c'')) @ ex_sha []) = 4194521"
proof -
  show b: "weight [] = 0" "weight (entry_bytes (ex_kv ''b'')) = 1179846" "weight (entry_bytes (ex_kv ''c'')) = 1179847"
    by (simp_all add: weight_def entry_bytes_def ex_kv_def)
  have w: "weight (ex_sha x @ ex_sha y) = sum_list (map of_char (be_bytes 32 (weight x))) + sum_list (map of_char (be_bytes 32 (weight y))) + 4194304"
    for x y by (simp add: ex_sha_def weight_def)
  show "weight (ex_sha [] @ ex_sha (entry_bytes (ex_kv ''b''))) = 4194520" "weight (ex_sha (entry_bytes (ex_kv ''b'')) @ ex_sha []) = 4194520"
    "weight (ex_sha [] @ ex_sha (entry_bytes (ex_kv ''c''))) = 4194521" "weight (ex_sha (entry_bytes (ex_kv ''c'')) @ ex_sha []) = 4194521"
    unfolding w b by simp_all
qed

lemma ex_inputs_inj: "inj_on ex_sha (ex_inputs ''b'' \<union> ex_inputs ''c'')"
proof (rule inj_onI)
  fix x y
  assume mem: "x \<in> ex_inputs ''b'' \<union> ex_inputs ''c''" "y \<in> ex_inputs ''b'' \<union> ex_inputs ''c''" and eq: "ex_sha x = ex_sha y"
  have "weight z < 16777216" if "z \<in> ex_inputs ''b'' \<union> ex_inputs ''c''" for z
    using that unfolding ex_inputs_def by (elim UnE insertE emptyE) (simp_all add: ex_weights)
  then have "weight x = weight y" using ex_sha_eq mem eq by blast
  then show "x = y" using mem unfolding ex_inputs_def by (elim UnE insertE emptyE) (simp_all add: ex_weights split: if_splits)
qed

lemma ex_tree:
  assumes "\<And>i. leaf_kvs 1 i (bt_ascend alist_btree (tree st)) = (if leaf_of 1 (hashKey ''a'') = i then [ex_kv v] else [])"
  obtains t where "Build alist_btree ex_sha (sort_key kv_key) st 2 = Some t" "NumLeaves t = 2 ^ 1"
    "tree_inputs 1 (bt_ascend alist_btree (tree st)) t \<subseteq> ex_inputs v"
proof -
  let ?its = "bt_ascend alist_btree (tree st)"
  obtain k t where t: "Build alist_btree ex_sha (sort_key kv_key) st 2 = Some t" "leaf_count 2 = 2 ^ k"
      "merkle_tree ex_sha k ?its t" "NumLeaves t = 2 ^ k"
    by (rule Build_Some [OF alist.ordered_tree_axioms stable_sort.slice_sort_axioms, of 2 ex_sha st]) simp_all
  have "leaf_count 2 = 2" by (simp add: leaf_count_def roundUpPowerOfTwo_def)
  then have "(2::int) ^ k = 2 ^ 1" using t(2) by simp
  then have k: "k = 1" by (metis one_less_numeral_iff power_inject_exp semiring_norm(76))
  have "hashes t ! (1 + i) = leafHash ex_sha (leaf_kvs 1 i ?its)" if "i < 2" for i
    using t(3) that unfolding merkle_tree_def k by simp
  from this [of 0] this [of 1] have nodes: "hashes t ! 1 @ hashes t ! 2 =
      leafHash ex_sha (leaf_kvs 1 0 ?its) @ leafHash ex_sha (leaf_kvs 1 1 ?its)" by (simp add: numeral_2_eq_2)
  have "leaf_of 1 (hashKey ''a'') < 2" using leaf_of_less [of 1 "hashKey ''a''"] by simp
  then have "leaf_of 1 (hashKey ''a'') = 0 \<or> leaf_of 1 (hashKey ''a'') = 1" by arith
  then have "hashes t ! 1 @ hashes t ! 2 \<in> ex_inputs v"
    unfolding nodes assms ex_inputs_def leafHash_def by auto
  moreover have "concat (map entry_bytes (leaf_kvs 1 i ?its)) \<in> ex_inputs v" for i unfolding assms ex_inputs_def by simp
  moreover have "{..<(2::nat) ^ 1 - 1} = {0}" by auto
  ultimately have "tree_inputs 1 ?its t \<subseteq> ex_inputs v" by (auto simp: tree_inputs_def numeral_2_eq_2)
  with t(1,4) show thesis unfolding k by (rule that)
qed

text \<open>The trees of the example store, of the one with another history, and of the one with another value.\<close>

lemma ex_trees:
  obtains t t' t'' where "Build alist_btree ex_sha (sort_key kv_key) ex_store 2 = Some t"
    "Build alist_btree ex_sha (sort_key kv_key) ex_twin 2 = Some t'"
    "Build alist_btree ex_sha (sort_key kv_key) (ex_store_of ''c'') 2 = Some t''" "NumLeaves t = 2 ^ 1"
    "inj_on ex_sha (tree_inputs 1 (bt_ascend alist_btree (tree ex_store)) t \<union> tree_inputs 1 (bt_ascend alist_btree (tree ex_twin)) t')"
    "inj_on ex_sha (tree_inputs 1 (bt_ascend alist_btree (tree ex_store)) t \<union>
      tree_inputs 1 (bt_ascend alist_btree (tree (ex_store_of ''c''))) t'')"
proof -
  have leaves: "leaf_kvs 1 i (bt_ascend alist_btree (tree ex_store)) = (if leaf_of 1 (hashKey ''a'') = i then [ex_kv ''b''] else [])"
    "leaf_kvs 1 i (bt_ascend alist_btree (tree ex_twin)) = (if leaf_of 1 (hashKey ''a'') = i then [ex_kv ''b''] else [])"
    "leaf_kvs 1 i (bt_ascend alist_btree (tree (ex_store_of ''c''))) = (if leaf_of 1 (hashKey ''a'') = i then [ex_kv ''c''] else [])" for i
    by (simp_all add: leaf_kvs_def leaf_items_def ex_store_items ex_twin_items ex_store_of_items to_kv_def ex_kv_def)
  obtain t where t: "Build alist_btree ex_sha (sort_key kv_key) ex_store 2 = Some t" "NumLeaves t = 2 ^ 1"
    "tree_inputs 1 (bt_ascend alist_btree (tree ex_store)) t \<subseteq> ex_inputs ''b''" by (rule ex_tree [OF leaves(1)])
  obtain t' where t': "Build alist_btree ex_sha (sort_key kv_key) ex_twin 2 = Some t'"
    "tree_inputs 1 (bt_ascend alist_btree (tree ex_twin)) t' \<subseteq> ex_inputs ''b''" by (rule ex_tree [OF leaves(2)])
  obtain t'' where t'': "Build alist_btree ex_sha (sort_key kv_key) (ex_store_of ''c'') 2 = Some t''"
    "tree_inputs 1 (bt_ascend alist_btree (tree (ex_store_of ''c''))) t'' \<subseteq> ex_inputs ''c''" by (rule ex_tree [OF leaves(3)])
  show thesis
    by (rule that [OF t(1) t'(1) t''(1) t(2)]; rule inj_on_subset [OF ex_inputs_inj]) (use t(3) t'(2) t''(2) in blast)+
qed

lemma ex_reads:
  "Get alist_btree key ex_store = Get alist_btree key ex_twin"
  "Get alist_btree key ex_store = Get alist_btree key (ex_store_of ''c'') \<longleftrightarrow> key \<noteq> ''a''"
  by (auto simp: alist.Get_contents contents_def ex_store_items ex_twin_items ex_store_of_items)

lemma ex_small:
  "\<forall>it \<in> set (bt_ascend alist_btree (tree ex_store)) \<union> set (bt_ascend alist_btree (tree ex_twin)). small_kv (to_kv it)"
  "\<forall>it \<in> set (bt_ascend alist_btree (tree ex_store)) \<union> set (bt_ascend alist_btree (tree (ex_store_of ''c''))). small_kv (to_kv it)"
  by (simp_all add: ex_store_items ex_twin_items ex_store_of_items to_kv_def small_kv_def)

theorem Diff_finds_differing_leaves_witness:
  "\<exists>t t' t''. Build alist_btree ex_sha (sort_key kv_key) ex_store 2 = Some t \<and>
    Build alist_btree ex_sha (sort_key kv_key) ex_twin 2 = Some t' \<and>
    Build alist_btree ex_sha (sort_key kv_key) (ex_store_of ''c'') 2 = Some t'' \<and>
    set (Diff t t') = {} \<and> set (Diff t t'') = {leaf_of 1 (hashKey ''a'')}"
proof -
  obtain t t' t'' where t: "Build alist_btree ex_sha (sort_key kv_key) ex_store 2 = Some t"
    "Build alist_btree ex_sha (sort_key kv_key) ex_twin 2 = Some t'"
    "Build alist_btree ex_sha (sort_key kv_key) (ex_store_of ''c'') 2 = Some t''" "NumLeaves t = 2 ^ 1"
    and inj: "inj_on ex_sha (tree_inputs 1 (bt_ascend alist_btree (tree ex_store)) t \<union> tree_inputs 1 (bt_ascend alist_btree (tree ex_twin)) t')"
      "inj_on ex_sha (tree_inputs 1 (bt_ascend alist_btree (tree ex_store)) t \<union>
        tree_inputs 1 (bt_ascend alist_btree (tree (ex_store_of ''c''))) t'')" by (rule ex_trees)
  note diff = Diff_finds_differing_leaves [OF alist.ordered_tree_axioms stable_sort.slice_sort_axioms _ _ t(1) _ t(4)]
  have "set (Diff t t') = {}" using diff [OF _ _ t(2) inj(1) ex_small(1)] by (simp add: ex_reads(1))
  moreover have "set (Diff t t'') = {leaf_of 1 (hashKey ''a'')}" using diff [OF _ _ t(3) inj(2) ex_small(2)] by (auto simp: ex_reads(2))
  ultimately show ?thesis using t(1-3) by blast
qed

text \<open>
  C14. The root hash is a fingerprint of what clients can read: with a digest of fixed size and no
  collision among the inputs hashed, two stores have equal root hashes exactly if every \<open>Get\<close> returns
  the same value and version from both.
\<close>

theorem RootHash_fingerprint:
  assumes "ordered_tree B" and "slice_sort kv_key srt" and "sint n \<le> 2 ^ 32" and "n \<noteq> 1"
    and "Build B sha srt st n = Some t" and "Build B sha srt st' n = Some t'" and "NumLeaves t = 2 ^ k"
    and "inj_on sha (tree_inputs k (bt_ascend B (tree st)) t \<union> tree_inputs k (bt_ascend B (tree st')) t')"
    and "\<forall>it \<in> set (bt_ascend B (tree st)) \<union> set (bt_ascend B (tree st')). small_kv (to_kv it)"
    and "\<forall>x. length (sha x) = 32"
  shows "RootHash t = RootHash t' \<longleftrightarrow> (\<forall>key. Get B key st = Get B key st')"
proof -
  let ?its = "bt_ascend B (tree st)" and ?its' = "bt_ascend B (tree st')"
  have k: "k \<le> 62" "merkle_tree sha k ?its t" "merkle_tree sha k ?its' t'"
    using Build_Some [OF assms(1-4), of sha st] Build_Some [OF assms(1-4), of sha st'] assms(5-7)
    by (metis option.inject power_inject_exp one_less_numeral_iff semiring_norm(76))+
  have same: "(\<forall>key. Get B key st = Get B key st') \<longleftrightarrow> (\<forall>i < 2 ^ k. leaf_kvs k i ?its = leaf_kvs k i ?its')"
    using leaf_of_less [of k] k(1) by (auto simp: ordered_tree.leaf_kvs_eq_iff [OF assms(1)])
  show ?thesis
  proof
    assume "RootHash t = RootHash t'"
    then have root: "hashes t ! 0 = hashes t' ! 0" by (simp add: RootHash_def)
    have "leaf_kvs k i ?its = leaf_kvs k i ?its'" if i: "i < 2 ^ k" for i
    proof -
      have "2 ^ k - 1 + i < 2 * 2 ^ k - 1" using i by arith
      then have "hashes t ! (2 ^ k - 1 + i) = hashes t' ! (2 ^ k - 1 + i)"
        by (rule equal_roots_equal_nodes [OF k(2,3) assms(8,10) root])
      moreover have "hashes t ! (2 ^ k - 1 + i) = leafHash sha (leaf_kvs k i ?its)"
        "hashes t' ! (2 ^ k - 1 + i) = leafHash sha (leaf_kvs k i ?its')"
        using k(2,3) i unfolding merkle_tree_def by blast+
      ultimately show ?thesis using equal_leaf_hashes [OF assms(8) i assms(9)] by simp
    qed
    then show "\<forall>key. Get B key st = Get B key st'" using same by blast
  next
    assume "\<forall>key. Get B key st = Get B key st'"
    then have "t = t'" using same merkle_tree_unique [OF k(2,3)] by blast
    then show "RootHash t = RootHash t'" by simp
  qed
qed

theorem RootHash_fingerprint_witness:
  "\<exists>t t' t''. Build alist_btree ex_sha (sort_key kv_key) ex_store 2 = Some t \<and>
    Build alist_btree ex_sha (sort_key kv_key) ex_twin 2 = Some t' \<and>
    Build alist_btree ex_sha (sort_key kv_key) (ex_store_of ''c'') 2 = Some t'' \<and>
    ex_store \<noteq> ex_twin \<and> RootHash t = RootHash t' \<and> RootHash t \<noteq> RootHash t''"
proof -
  obtain t t' t'' where t: "Build alist_btree ex_sha (sort_key kv_key) ex_store 2 = Some t"
    "Build alist_btree ex_sha (sort_key kv_key) ex_twin 2 = Some t'"
    "Build alist_btree ex_sha (sort_key kv_key) (ex_store_of ''c'') 2 = Some t''" "NumLeaves t = 2 ^ 1"
    and inj: "inj_on ex_sha (tree_inputs 1 (bt_ascend alist_btree (tree ex_store)) t \<union> tree_inputs 1 (bt_ascend alist_btree (tree ex_twin)) t')"
      "inj_on ex_sha (tree_inputs 1 (bt_ascend alist_btree (tree ex_store)) t \<union>
        tree_inputs 1 (bt_ascend alist_btree (tree (ex_store_of ''c''))) t'')" by (rule ex_trees)
  note root = RootHash_fingerprint [OF alist.ordered_tree_axioms stable_sort.slice_sort_axioms _ _ t(1) _ t(4)]
  have "RootHash t = RootHash t'" using root [OF _ _ t(2) inj(1) ex_small(1)] by (simp add: ex_reads(1))
  moreover have "RootHash t \<noteq> RootHash t''" using root [OF _ _ t(3) inj(2) ex_small(2)] by (auto simp: ex_reads(2))
  moreover have "ex_store \<noteq> ex_twin" using ex_store_items ex_twin_items by auto
  ultimately show ?thesis using t(1-3) by blast
qed

end
