(* ===== verification/Gossip.thy ===== *)
theory Gossip
  imports Store Hashring
begin

text \<open>
  The gossip layer, \<open>src/internal/gossip/gossip.go\<close> and the types of \<open>transport.go\<close>: the event log,
  quorum writes, the handlers of incoming messages, and anti-entropy.

  The store and the ring are shared with the server by reference: they are the record \<open>Shared\<close> that
  every operation threads. A handler runs in its own goroutine and touches shared state only through
  the locked operations of the store, the ring and its own mutexes. The protobuf codec, the transport,
  the source of request ids and the order of Go's map iteration are parameters, collected in the record
  \<open>env\<close>; messages handed to \<open>SendReliable\<close> are returned as a list of destinations and bytes.
\<close>

section \<open>The event log\<close>

record ClusterEvent =
  Timestamp :: int
  Type :: string
  NodeName :: string
  ev_Address :: string
  ev_RedisAddr :: string
  Meta :: string

definition zero_event :: ClusterEvent where
  "zero_event = \<lparr>Timestamp = 0, Type = [], NodeName = [], ev_Address = [], ev_RedisAddr = [], Meta = []\<rparr>"

definition eventRingSize :: nat where
  "eventRingSize = 200"

record eventRing =
  buf :: "ClusterEvent list"
  pos :: nat
  ev_count :: nat

definition newEventRing :: "nat \<Rightarrow> eventRing" where
  "newEventRing capacity = \<lparr>buf = replicate capacity zero_event, pos = 0, ev_count = 0\<rparr>"

definition Push :: "ClusterEvent \<Rightarrow> eventRing \<Rightarrow> eventRing" where
  "Push e r =
     (let r1 = r\<lparr>buf := (buf r)[pos r := e]\<rparr>;
          r2 = r1\<lparr>pos := (pos r1 + 1) mod length (buf r1)\<rparr>
      in if ev_count r2 < length (buf r2) then r2\<lparr>ev_count := ev_count r2 + 1\<rparr> else r2)"

text \<open>Go's \<open>copy(dst, src)\<close>: as many elements as fit.\<close>

definition go_copy :: "'a list \<Rightarrow> 'a list \<Rightarrow> 'a list" where
  "go_copy dst src = take (length dst) src @ drop (length src) dst"

definition Recent :: "int \<Rightarrow> eventRing \<Rightarrow> ClusterEvent list" where
  "Recent n r =
     (let n' = (if n \<le> 0 \<or> int (ev_count r) < n then ev_count r else nat n);
          out = replicate n' zero_event
      in if pos r < n'
         then let src = drop (length (buf r) + pos r - n') (buf r);
                  part = min (length out) (length src);
                  out1 = go_copy out src
              in take part out1 @ go_copy (drop part out1) (take (pos r) (buf r))
         else go_copy out (take n' (drop (pos r - n') (buf r))))"

section \<open>Messages\<close>

record pbEntry =
  pb_Key :: string
  pb_Value :: string
  pb_Version :: int64
  pb_Origin :: string
  pb_Deleted :: bool

definition to_entry :: "pbEntry \<Rightarrow> Entry" where
  "to_entry p = \<lparr>Value = pb_Value p, Version = pb_Version p, Origin = pb_Origin p, Deleted = pb_Deleted p\<rparr>"

definition of_entry :: "string \<Rightarrow> Entry \<Rightarrow> pbEntry" where
  "of_entry k e = \<lparr>pb_Key = k, pb_Value = Value e, pb_Version = Version e, pb_Origin = Origin e,
     pb_Deleted = Deleted e\<rparr>"

record ReplicateRequest =
  RequestId :: string
  SenderId :: string
  Entries :: "pbEntry list"

record ReplicateResponse =
  resp_RequestId :: string
  resp_NodeId :: string
  Success :: bool

datatype GossipMessage =
    EntryBatch "pbEntry list"
  | ReplicateReq ReplicateRequest
  | ReplicateResp ReplicateResponse
  | NoPayload

text \<open>The wire format is opaque: \<open>'b\<close> is the type of encoded messages.\<close>

type_synonym 'b sends = "(string \<times> 'b) list"

record MemberInfo =
  Name :: string
  mi_RedisAddr :: string
  Addr :: string
  Status :: string

text \<open>
  The environment: the tree of the store, the hash and the sorter of the ring, \<open>proto.Marshal\<close> and
  \<open>proto.Unmarshal\<close> on gossip messages, the order in which \<open>range\<close> visits a map, and the
  \<open>sort.Slice\<close> on peers.
\<close>

record ('t, 'b) env =
  env_tree :: "'t btree"
  env_hash :: hasher
  env_sort :: ring_sorter
  marshal :: "GossipMessage \<Rightarrow> 'b option"
  unmarshal :: "'b \<Rightarrow> GossipMessage option"
  range_map :: "(string \<rightharpoonup> Entry) \<Rightarrow> item list"
  sort_peers :: "MemberInfo list \<Rightarrow> MemberInfo list"

section \<open>The handler\<close>

record 'a channel =
  capacity :: nat
  queue :: "'a list"

text \<open>A \<open>select\<close> with a send and a \<open>default\<close>: the value is dropped when the buffer is full.\<close>

definition try_send :: "'a \<Rightarrow> 'a channel \<Rightarrow> 'a channel" where
  "try_send x ch = (if length (queue ch) < capacity ch then ch\<lparr>queue := queue ch @ [x]\<rparr> else ch)"

record ackResult =
  ack_nodeID :: string
  ack_err :: bool

text \<open>
  The fields of \<open>Config\<close> and \<open>Handler\<close> that only configure or hold the transport, the clock and the stop
  channel are left out; the store and the ring are in \<open>Shared\<close>.
\<close>

record Config =
  cfg_NodeID :: string
  cfg_RedisAddr :: string
  ReplicaRF :: int
  WriteConcern :: int
  AntiEntropySec :: int

record Handler =
  cfg :: Config
  events :: eventRing
  subNext :: int
  subscribers :: "int \<rightharpoonup> ClusterEvent channel"
  pendingReqs :: "string \<rightharpoonup> ackResult channel"
  antiEntropyPos :: nat

record 't Shared =
  sh_store :: "'t Store"
  sh_ring :: consistentHashring

definition New :: "Config \<Rightarrow> Handler" where
  "New c =
     (let c' = (if WriteConcern c \<le> 0 \<or> ReplicaRF c < WriteConcern c
                then c\<lparr>WriteConcern := ReplicaRF c\<rparr> else c)
      in \<lparr>cfg = c', events = newEventRing eventRingSize, subNext = 0, subscribers = Map.empty,
          pendingReqs = Map.empty, antiEntropyPos = 0\<rparr>)"

definition node_id :: "Handler \<Rightarrow> string" where
  "node_id h = cfg_NodeID (cfg h)"

definition PushEvent :: "ClusterEvent \<Rightarrow> Handler \<Rightarrow> Handler" where
  "PushEvent e h = h\<lparr>events := Push e (events h),
     subscribers := (\<lambda>i. map_option (try_send e) (subscribers h i))\<rparr>"

definition Subscribe :: "ClusterEvent channel \<Rightarrow> Handler \<Rightarrow> int \<times> Handler" where
  "Subscribe ch h =
     (subNext h, h\<lparr>subNext := subNext h + 1, subscribers := (subscribers h)(subNext h \<mapsto> ch)\<rparr>)"

definition unsubscribe :: "int \<Rightarrow> Handler \<Rightarrow> Handler" where
  "unsubscribe i h = h\<lparr>subscribers := (subscribers h)(i := None)\<rparr>"

definition RecentEvents :: "int \<Rightarrow> Handler \<Rightarrow> ClusterEvent list" where
  "RecentEvents n h = Recent n (events h)"

definition KeyCount :: "'t Shared \<Rightarrow> int" where
  "KeyCount sh = Len (sh_store sh)"

section \<open>Membership callbacks\<close>

definition handleJoin :: "('t, 'b) env \<Rightarrow> int \<Rightarrow> string \<Rightarrow> string \<Rightarrow> Handler \<times> 't Shared \<Rightarrow> Handler \<times> 't Shared" where
  "handleJoin E now nodeID redisAddr = (\<lambda>(h, sh).
     (PushEvent (zero_event\<lparr>Timestamp := now, Type := ''join'', NodeName := nodeID, ev_RedisAddr := redisAddr\<rparr>) h,
      sh\<lparr>sh_ring := AddNode (env_hash E) (env_sort E) nodeID redisAddr 256 (sh_ring sh)\<rparr>))"

definition handleLeave :: "int \<Rightarrow> string \<Rightarrow> Handler \<times> 't Shared \<Rightarrow> Handler \<times> 't Shared" where
  "handleLeave now nodeID = (\<lambda>(h, sh).
     (PushEvent (zero_event\<lparr>Timestamp := now, Type := ''leave'', NodeName := nodeID\<rparr>) h,
      sh\<lparr>sh_ring := RemoveNode nodeID (sh_ring sh)\<rparr>))"

definition handleUpdate :: "int \<Rightarrow> string \<Rightarrow> string \<Rightarrow> Handler \<Rightarrow> Handler" where
  "handleUpdate now nodeID redisAddr h =
     PushEvent (zero_event\<lparr>Timestamp := now, Type := ''update'', NodeName := nodeID, ev_RedisAddr := redisAddr\<rparr>) h"

section \<open>Applying replicated entries\<close>

text \<open>The loop over the replicas of a key that looks for this node.\<close>

definition is_replica :: "('t, 'b) env \<Rightarrow> Handler \<Rightarrow> string \<Rightarrow> 't Shared \<Rightarrow> bool" where
  "is_replica E h key sh =
     list_ex (\<lambda>r. NodeID r = node_id h) (GetReplicas (env_hash E) key (ReplicaRF (cfg h)) (sh_ring sh))"

definition set_with_version :: "('t, 'b) env \<Rightarrow> string \<Rightarrow> Entry \<Rightarrow> 't Shared \<Rightarrow> 't Shared" where
  "set_with_version E key e sh = sh\<lparr>sh_store := snd (SetWithVersion (env_tree E) key e (sh_store sh))\<rparr>"

fun HandleReplication :: "('t, 'b) env \<Rightarrow> Handler \<Rightarrow> pbEntry list \<Rightarrow> 't Shared \<Rightarrow> 't Shared" where
  "HandleReplication E h [] sh = sh"
| "HandleReplication E h (e # es) sh =
     (if \<not> is_replica E h (pb_Key e) sh then HandleReplication E h es sh
      else HandleReplication E h es (set_with_version E (pb_Key e) (to_entry e) sh))"

text \<open>The loop of \<open>handleReplicateRequest\<close>, which stops at the first key this node does not replicate.\<close>

fun apply_request :: "('t, 'b) env \<Rightarrow> Handler \<Rightarrow> pbEntry list \<Rightarrow> 't Shared \<Rightarrow> bool \<times> 't Shared" where
  "apply_request E h [] sh = (True, sh)"
| "apply_request E h (e # es) sh =
     (if \<not> is_replica E h (pb_Key e) sh then (False, sh)
      else apply_request E h es (set_with_version E (pb_Key e) (to_entry e) sh))"

definition handleReplicateRequest :: "('t, 'b) env \<Rightarrow> ReplicateRequest \<Rightarrow> Handler \<Rightarrow> 't Shared \<Rightarrow> 'b sends \<times> 't Shared" where
  "handleReplicateRequest E req h sh =
     (case apply_request E h (Entries req) sh of
        (success, sh') \<Rightarrow>
          (case marshal E (ReplicateResp \<lparr>resp_RequestId = RequestId req, resp_NodeId = node_id h, Success = success\<rparr>) of
             None \<Rightarrow> ([], sh')
           | Some b \<Rightarrow> ([(SenderId req, b)], sh')))"

definition handleReplicateResponse :: "ReplicateResponse \<Rightarrow> Handler \<Rightarrow> Handler" where
  "handleReplicateResponse r h =
     (case pendingReqs h (resp_RequestId r) of
        None \<Rightarrow> h
      | Some ch \<Rightarrow>
          h\<lparr>pendingReqs := (pendingReqs h)(resp_RequestId r \<mapsto>
             try_send \<lparr>ack_nodeID = resp_NodeId r, ack_err = (\<not> Success r)\<rparr> ch)\<rparr>)"

definition handleMessage :: "('t, 'b) env \<Rightarrow> 'b \<Rightarrow> Handler \<times> 't Shared \<Rightarrow> 'b sends \<times> Handler \<times> 't Shared" where
  "handleMessage E b = (\<lambda>(h, sh).
     (case unmarshal E b of
        None \<Rightarrow> ([], h, sh)
      | Some (EntryBatch es) \<Rightarrow> ([], h, HandleReplication E h es sh)
      | Some (ReplicateReq req) \<Rightarrow> (case handleReplicateRequest E req h sh of (out, sh') \<Rightarrow> (out, h, sh'))
      | Some (ReplicateResp r) \<Rightarrow> ([], handleReplicateResponse r h, sh)
      | Some NoPayload \<Rightarrow> ([], h, sh)))"

section \<open>Quorum writes\<close>

datatype quorum_error =
    ErrUnavailable int int
  | ErrMarshal
  | ErrUnreachable int int
  | ErrTimeout int int

text \<open>A write that waits for acknowledgements: the locals of \<open>ReplicateWithQuorum\<close> in its wait loop.\<close>

record waiter =
  w_request :: string
  w_need :: int
  w_expected :: "string set"
  w_acks :: int
  w_acked :: "string set"

text \<open>
  \<open>ReplicateWithQuorum\<close> up to its wait loop. \<open>reach\<close> says to which nodes \<open>SendReliable\<close> succeeds. The
  result is \<open>Inl\<close> when the call returns at once (\<open>None\<close>: nil) and \<open>Inr\<close> the waiting call otherwise.
\<close>

definition remote_replicas :: "('t, 'b) env \<Rightarrow> Handler \<Rightarrow> string \<Rightarrow> 't Shared \<Rightarrow> Replica list" where
  "remote_replicas E h key sh =
     filter (\<lambda>r. NodeID r \<noteq> node_id h) (GetReplicas (env_hash E) key (ReplicaRF (cfg h)) (sh_ring sh))"

definition quorum_start :: "('t, 'b) env \<Rightarrow> (string \<Rightarrow> bool) \<Rightarrow> string \<Rightarrow> string \<Rightarrow> Entry \<Rightarrow> int \<Rightarrow> Handler \<times> 't Shared
    \<Rightarrow> (quorum_error option + waiter) \<times> 'b sends \<times> Handler \<times> 't Shared" where
  "quorum_start E reach rid key entry w = (\<lambda>(h, sh0).
     (let sh = set_with_version E key entry sh0
      in if w \<le> 1 then (Inl None, [], h, sh)
         else
           let remoteNodes = remote_replicas E h key sh
           in if int (length remoteNodes) + 1 < w
              then (Inl (Some (ErrUnavailable (int (length remoteNodes) + 1) w)), [], h, sh)
              else (case marshal E (ReplicateReq \<lparr>RequestId = rid, SenderId = node_id h, Entries = [of_entry key entry]\<rparr>) of
                  None \<Rightarrow> (Inl (Some ErrMarshal), [], h, sh)
                | Some reqBuf \<Rightarrow>
                    let out = map (\<lambda>r. (NodeID r, reqBuf)) remoteNodes;
                        sent = filter (\<lambda>r. reach (NodeID r)) remoteNodes
                    in if int (length sent) + 1 < w
                       then (Inl (Some (ErrUnreachable (int (length sent) + 1) w)), out,
                             h\<lparr>pendingReqs := (pendingReqs h)(rid := None)\<rparr>, sh)
                       else (Inr \<lparr>w_request = rid, w_need = w, w_expected = NodeID ` set sent, w_acks = 1, w_acked = {}\<rparr>,
                             out, h\<lparr>pendingReqs := (pendingReqs h)(rid \<mapsto> \<lparr>capacity = length remoteNodes, queue = []\<rparr>)\<rparr>, sh))))"

text \<open>One result received from the channel.\<close>

definition count_ack :: "ackResult \<Rightarrow> waiter \<Rightarrow> waiter" where
  "count_ack res wt =
     (if ack_nodeID res \<in> w_expected wt \<and> \<not> ack_err res \<and> ack_nodeID res \<notin> w_acked wt
      then wt\<lparr>w_acked := insert (ack_nodeID res) (w_acked wt), w_acks := w_acks wt + 1\<rparr>
      else wt)"

text \<open>
  One turn of the wait loop: a receive, if there is something to receive, or the deadline. A call that
  returns removes its pending request, as the deferred function does.
\<close>

definition remove_pending :: "string \<Rightarrow> Handler \<Rightarrow> Handler" where
  "remove_pending rid h = h\<lparr>pendingReqs := (pendingReqs h)(rid := None)\<rparr>"

definition wait_receive :: "waiter \<Rightarrow> Handler \<Rightarrow> ((quorum_error option + waiter) \<times> Handler) option" where
  "wait_receive wt h =
     (case pendingReqs h (w_request wt) of
        None \<Rightarrow> None
      | Some ch \<Rightarrow>
          (case queue ch of
             [] \<Rightarrow> None
           | res # rest \<Rightarrow>
               let wt' = count_ack res wt;
                   h' = h\<lparr>pendingReqs := (pendingReqs h)(w_request wt \<mapsto> ch\<lparr>queue := rest\<rparr>)\<rparr>
               in if w_acks wt' < w_need wt' then Some (Inr wt', h')
                  else Some (Inl None, remove_pending (w_request wt) h')))"

definition wait_deadline :: "waiter \<Rightarrow> Handler \<Rightarrow> quorum_error \<times> Handler" where
  "wait_deadline wt h = (ErrTimeout (w_acks wt) (w_need wt), remove_pending (w_request wt) h)"

text \<open>
  \<open>ReplicateWithQuorum\<close> as a whole, as a function of the results it receives before its deadline.
\<close>

fun wait_loop :: "waiter \<Rightarrow> ackResult list \<Rightarrow> quorum_error option" where
  "wait_loop wt [] = Some (ErrTimeout (w_acks wt) (w_need wt))"
| "wait_loop wt (res # results) =
     (let wt' = count_ack res wt
      in if w_acks wt' < w_need wt' then wait_loop wt' results else None)"

definition ReplicateWithQuorum :: "('t, 'b) env \<Rightarrow> (string \<Rightarrow> bool) \<Rightarrow> string \<Rightarrow> ackResult list \<Rightarrow> string \<Rightarrow> Entry \<Rightarrow> int
    \<Rightarrow> Handler \<times> 't Shared \<Rightarrow> quorum_error option \<times> 'b sends \<times> Handler \<times> 't Shared" where
  "ReplicateWithQuorum E reach rid results key entry w s =
     (case quorum_start E reach rid key entry w s of
        (Inl r, out, h, sh) \<Rightarrow> (r, out, h, sh)
      | (Inr wt, out, h, sh) \<Rightarrow> (wait_loop wt results, out, remove_pending rid h, sh))"

section \<open>Anti-entropy\<close>

definition serializeStore :: "('t, 'b) env \<Rightarrow> 't Shared \<Rightarrow> GossipMessage option" where
  "serializeStore E sh =
     (let entries = map (\<lambda>(k, e). of_entry k e) (range_map E (Snapshot (env_tree E) (sh_store sh)))
      in if entries = [] then None else Some (EntryBatch entries))"

text \<open>One round of anti-entropy, with the members the transport reports.\<close>

definition exchangeState :: "('t, 'b) env \<Rightarrow> MemberInfo list \<Rightarrow> Handler \<times> 't Shared \<Rightarrow> 'b sends \<times> Handler" where
  "exchangeState E members = (\<lambda>(h, sh).
     (case serializeStore E sh of
        None \<Rightarrow> ([], h)
      | Some snapshot \<Rightarrow>
          if length members \<le> 1 then ([], h)
          else
            let peers = filter (\<lambda>m. Name m \<noteq> node_id h) members
            in if peers = [] then ([], h)
               else
                 let ps = sort_peers E peers;
                     index = antiEntropyPos h mod length ps;
                     peer = ps ! index;
                     h' = h\<lparr>antiEntropyPos := (index + 1) mod length ps\<rparr>
                 in (case marshal E snapshot of
                       None \<Rightarrow> ([], h')
                     | Some b \<Rightarrow> ([(Name peer, b)], h'))))"

definition handleLocalState :: "('t, 'b) env \<Rightarrow> 't Shared \<Rightarrow> 'b option" where
  "handleLocalState E sh =
     (case serializeStore E sh of None \<Rightarrow> None | Some snapshot \<Rightarrow> marshal E snapshot)"

definition handleMergeRemoteState :: "('t, 'b) env \<Rightarrow> 'b \<Rightarrow> Handler \<Rightarrow> 't Shared \<Rightarrow> 't Shared" where
  "handleMergeRemoteState E b h sh =
     (case unmarshal E b of
        Some (EntryBatch es) \<Rightarrow> HandleReplication E h es sh
      | _ \<Rightarrow> sh)"

text \<open>
  The anti-entropy loop as a function of its ticks, up to the tick at which it is stopped: what the
  transport reports as members and what is shared at each of them.
\<close>

fun antiEntropyLoop :: "('t, 'b) env \<Rightarrow> Handler \<Rightarrow> (MemberInfo list \<times> 't Shared) list \<Rightarrow> 'b sends \<times> Handler" where
  "antiEntropyLoop E h [] = ([], h)"
| "antiEntropyLoop E h ((members, sh) # ticks) =
     (case exchangeState E members (h, sh) of
        (out, h') \<Rightarrow> (case antiEntropyLoop E h' ticks of (outs, h'') \<Rightarrow> (out @ outs, h'')))"

section \<open>Starting and joining\<close>

text \<open>
  One turn of the retry loop: it is stopped, or its ticker fires while the transport has some number of
  members, \<open>Discover\<close> gives an error (\<open>None\<close>) or seeds, and \<open>Join\<close> succeeds or not.
\<close>

datatype retry_tick = Stopped | Ticked nat "string list option" bool

text \<open>The lists of seeds the loop tries to join, in order.\<close>

fun retry_loop :: "retry_tick list \<Rightarrow> string list list" where
  "retry_loop [] = []"
| "retry_loop (Stopped # ticks) = []"
| "retry_loop (Ticked members found joined # ticks) =
     (if 1 < members then []
      else (case found of
          None \<Rightarrow> retry_loop ticks
        | Some seeds \<Rightarrow>
            if seeds = [] then retry_loop ticks
            else if joined then [seeds]
            else seeds # retry_loop ticks))"

definition retryJoin :: "string list \<Rightarrow> nat \<Rightarrow> retry_tick list \<Rightarrow> string list list" where
  "retryJoin seeds members ticks =
     (if seeds = [] then [] else if 1 < members then [] else retry_loop ticks)"

text \<open>
  \<open>Start\<close>: \<open>started\<close> says whether the transport started; \<open>discovered\<close> is \<open>None\<close> without a discoverer
  and otherwise what \<open>Discover\<close> returned, seeds and whether there was an error. The result is whether
  \<open>Start\<close> succeeded, the joins attempted by it and by its retry loop, and the handler.
\<close>

definition Start :: "bool \<Rightarrow> (string list \<times> bool) option \<Rightarrow> nat \<Rightarrow> retry_tick list \<Rightarrow> Handler \<Rightarrow> bool \<times> string list list \<times> Handler" where
  "Start started discovered members ticks h0 =
     (let h = (if AntiEntropySec (cfg h0) \<le> 0 then h0\<lparr>cfg := (cfg h0)\<lparr>AntiEntropySec := 30\<rparr>\<rparr> else h0)
      in if \<not> started then (False, [], h)
         else (case discovered of
             None \<Rightarrow> (True, [], h)
           | Some (seeds, failed) \<Rightarrow>
               (True, (if \<not> failed \<and> seeds \<noteq> [] then [seeds] else []) @ retryJoin seeds members ticks, h)))"

text \<open>
  \<open>Join\<close> and \<open>Leave\<close>: the transport's own are parameters, giving an error or nil. \<open>Leave\<close> closes \<open>stopCh\<close>, which
  stops the loops; \<open>stopped\<close> says whether it is closed, and closing it again panics, which is \<open>None\<close>.
\<close>

definition Join :: "(string list \<Rightarrow> 'e + int) \<Rightarrow> string \<Rightarrow> 'e option" where
  "Join transport_join address = (case transport_join [address] of Inl err \<Rightarrow> Some err | Inr _ \<Rightarrow> None)"

definition Leave :: "'e option \<Rightarrow> bool \<Rightarrow> ('e option \<times> bool) option" where
  "Leave transport_leave stopped = (if stopped then None else Some (transport_leave, True))"

text \<open>\<open>decode\<close> is \<open>proto.Unmarshal\<close> of a \<open>NodeMeta\<close>, giving its Redis address.\<close>

definition DecodeMetaRedisAddr :: "(string \<Rightarrow> string option) \<Rightarrow> string \<Rightarrow> string" where
  "DecodeMetaRedisAddr decode meta =
     (if meta = [] then [] else (case decode meta of None \<Rightarrow> [] | Some addr \<Rightarrow> addr))"

section \<open>The event log holds the latest events\<close>

definition log_holds :: "ClusterEvent list \<Rightarrow> nat \<Rightarrow> eventRing \<Rightarrow> bool" where
  "log_holds es c r \<longleftrightarrow> 0 < c \<and> length (buf r) = c \<and> pos r = length es mod c \<and> ev_count r = min c (length es) \<and>
     (\<forall>j < length es. length es \<le> j + c \<longrightarrow> buf r ! (j mod c) = es ! j)"

lemma log_holds_new: "0 < c \<Longrightarrow> log_holds [] c (newEventRing c)"
  by (simp add: log_holds_def newEventRing_def)

lemma mod_neq_close:
  assumes "j < n" and "n < j + c"
  shows "j mod c \<noteq> n mod (c :: nat)"
proof
  assume "j mod c = n mod c"
  then have "c dvd n - j" using assms(1) by (metis less_imp_le mod_eq_dvd_iff_nat)
  then have "c \<le> n - j" using assms(1) by (intro dvd_imp_le) auto
  with assms show False by simp
qed

lemma log_holds_Push:
  assumes "log_holds es c r"
  shows "log_holds (es @ [e]) c (Push e r)"
proof -
  have c: "0 < c" "length (buf r) = c" "pos r = length es mod c" "ev_count r = min c (length es)"
    and old: "\<And>j. j < length es \<Longrightarrow> length es \<le> j + c \<Longrightarrow> buf r ! (j mod c) = es ! j"
    using assms by (auto simp: log_holds_def)
  have fields: "buf (Push e r) = (buf r)[length es mod c := e]" "pos (Push e r) = Suc (length es) mod c"
    "ev_count (Push e r) = min c (Suc (length es))"
    using c by (simp_all add: Push_def Let_def mod_Suc_eq)
  have "buf (Push e r) ! (j mod c) = (es @ [e]) ! j" if j: "j < Suc (length es)" "Suc (length es) \<le> j + c" for j
  proof (cases "j = length es")
    case True
    with c fields show ?thesis by simp
  next
    case False
    with j mod_neq_close [of j "length es" c] have "j mod c \<noteq> length es mod c" by simp
    with False j old [of j] fields(1) show ?thesis by (simp add: nth_append)
  qed
  with c fields show ?thesis by (simp add: log_holds_def)
qed

lemma log_holds_run: "log_holds es c r \<Longrightarrow> log_holds (es @ new) c (fold Push new r)"
proof (induction new arbitrary: es r)
  case (Cons e new)
  from Cons.IH [OF log_holds_Push [OF Cons.prems, of e]] show ?case by simp
qed simp

lemma go_copy_all: "length src \<le> length dst \<Longrightarrow> go_copy dst src = src @ drop (length src) dst"
  by (simp add: go_copy_def)

lemma log_entry:
  assumes "log_holds es c r" and "i < length es" and "length es \<le> i + c" and "i = q * c + m" and "m < c"
  shows "es ! i = buf r ! m"
  using assms by (auto simp: log_holds_def)

text \<open>The latest events lie around the end of the buffer, or in one piece before the write position.\<close>

lemma log_wrapped:
  assumes "log_holds es c r" and "k \<le> c" and "k \<le> length es" and "length es mod c < k"
  shows "drop (c + length es mod c - k) (buf r) @ take (length es mod c) (buf r) = drop (length es - k) es"
proof (rule nth_equalityI)
  let ?p = "length es mod c" and ?q = "length es div c"
  have c: "0 < c" "length (buf r) = c" using assms(1) by (simp_all add: log_holds_def)
  have p: "?p < c" "length es = ?q * c + ?p" using c(1) by simp_all
  have l: "length (drop (c + ?p - k) (buf r)) = k - ?p" using c(2) assms(2,4) p(1) by simp
  show "length (drop (c + ?p - k) (buf r) @ take ?p (buf r)) = length (drop (length es - k) es)"
    using l c(2) assms(3,4) p(1) by simp
  fix i
  assume "i < length (drop (c + ?p - k) (buf r) @ take ?p (buf r))"
  then have i: "i < k" using l c(2) assms(4) p(1) by simp
  note entry = log_entry [OF assms(1), of "length es - k + i"]
  show "(drop (c + ?p - k) (buf r) @ take ?p (buf r)) ! i = drop (length es - k) es ! i"
  proof (cases "i < k - ?p")
    case lt: True
    obtain q0 where q0: "?q = Suc q0" using assms(3,4) p(2) by (cases ?q) auto
    have "length es - k + i = q0 * c + (c + ?p - k + i)" using p(2) assms(2,4) unfolding q0 by simp
    then have "es ! (length es - k + i) = buf r ! (c + ?p - k + i)" using lt i assms(2,3,4) by (intro entry) auto
    then show ?thesis using lt l assms(3) c(2) by (simp add: nth_append)
  next
    case False
    have "length es - k + i = ?q * c + (i - (k - ?p))" using p(2) assms(3,4) False by linarith
    then have "es ! (length es - k + i) = buf r ! (i - (k - ?p))" using False i assms(2,3) p(1) by (intro entry) auto
    then show ?thesis using False l i assms(3,4) by (simp add: nth_append)
  qed
qed

lemma log_contiguous:
  assumes "log_holds es c r" and "k \<le> length es mod c"
  shows "take k (drop (length es mod c - k) (buf r)) = drop (length es - k) es"
proof (rule nth_equalityI)
  let ?p = "length es mod c" and ?q = "length es div c"
  have c: "0 < c" "length (buf r) = c" using assms(1) by (simp_all add: log_holds_def)
  have p: "?p < c" "length es = ?q * c + ?p" using c(1) by simp_all
  have k: "k \<le> length es" using assms(2) p(2) by linarith
  show "length (take k (drop (?p - k) (buf r))) = length (drop (length es - k) es)"
    using c(2) assms(2) p(1) k by simp
  fix i
  assume "i < length (take k (drop (?p - k) (buf r)))"
  then have i: "i < k" by simp
  have at: "length es - k + i = ?q * c + (?p - k + i)" using p(2) assms(2) by linarith
  have "es ! (length es - k + i) = buf r ! (?p - k + i)"
    by (rule log_entry [OF assms(1) _ _ at]) (use i assms(2) p(1) k in auto)
  then show "take k (drop (?p - k) (buf r)) ! i = drop (length es - k) es ! i"
    using i c(2) p(1) k by simp
qed

lemma Recent_log:
  assumes "log_holds es c r"
  shows "Recent n r =
    (let k = (if n \<le> 0 \<or> int (min c (length es)) < n then min c (length es) else nat n) in drop (length es - k) es)"
proof -
  define k where "k = (if n \<le> 0 \<or> int (min c (length es)) < n then min c (length es) else nat n)"
  let ?p = "length es mod c"
  have c: "length (buf r) = c" "pos r = ?p" "ev_count r = min c (length es)" "?p < c"
    using assms by (auto simp: log_holds_def)
  have k: "k \<le> c" "k \<le> length es" by (auto simp: k_def)
  have rec: "Recent n r =
      (let out = replicate k zero_event
       in if ?p < k
          then let src = drop (c + ?p - k) (buf r); part = min (length out) (length src); out1 = go_copy out src
               in take part out1 @ go_copy (drop part out1) (take ?p (buf r))
          else go_copy out (take k (drop (?p - k) (buf r))))"
    unfolding Recent_def c(1-3) k_def [symmetric] Let_def ..
  have "Recent n r = drop (length es - k) es"
  proof (cases "?p < k")
    case True
    then have "Recent n r = drop (c + ?p - k) (buf r) @ take ?p (buf r)"
      using c(1,4) k(1) by (simp add: rec Let_def go_copy_all)
    with log_wrapped [OF assms k True] show ?thesis by simp
  next
    case False
    then have "Recent n r = take k (drop (?p - k) (buf r))"
      using c(1,4) k(1) by (simp add: rec Let_def go_copy_all)
    with log_contiguous [OF assms, of k] False show ?thesis by simp
  qed
  then show ?thesis by (simp add: k_def Let_def)
qed

section \<open>What the handlers rely on\<close>

text \<open>
  The contracts of the environment: the store's tree, the two uses of \<open>sort.Slice\<close>, a codec that reads
  back what it wrote, and map iteration that visits every entry once.
\<close>

locale gossip_env =
  fixes E :: "('t, 'b) env"
  assumes tree: "ordered_tree (env_tree E)"
    and ring_sort: "slice_sort re_hash (env_sort E)"
    and peer_sort: "slice_sort Name (sort_peers E)"
    and codec: "marshal E m = Some b \<Longrightarrow> unmarshal E b = Some m"
    and range: "finite (dom snap) \<Longrightarrow> distinct (map fst (range_map E snap)) \<and> map_of (range_map E snap) = snap"

definition view :: "('t, 'b) env \<Rightarrow> 't Shared \<Rightarrow> (string \<rightharpoonup> Entry)" where
  "view E sh = contents (env_tree E) (sh_store sh)"

lemma to_entry_of_entry [simp]: "to_entry (of_entry k e) = e"
  by (simp add: to_entry_def of_entry_def)

lemma pb_Key_of_entry [simp]: "pb_Key (of_entry k e) = k"
  by (simp add: of_entry_def)

lemma set_with_version_ring [simp]: "sh_ring (set_with_version E k e sh) = sh_ring sh"
  by (simp add: set_with_version_def)

lemma is_replica_set_with_version [simp]: "is_replica E h key (set_with_version E k e sh) = is_replica E h key sh"
  by (simp add: is_replica_def)

lemma HandleReplication_ring [simp]: "sh_ring (HandleReplication E h es sh) = sh_ring sh"
  by (induction E h es sh rule: HandleReplication.induct) simp_all

text \<open>Merging one map into another, keeping the newer entry of each key.\<close>

definition lww_join :: "Entry option \<Rightarrow> Entry option \<Rightarrow> Entry option" where
  "lww_join a b =
     (case b of None \<Rightarrow> a
      | Some e \<Rightarrow> (case a of None \<Rightarrow> Some e | Some e' \<Rightarrow> if newer e e' then Some e else Some e'))"

lemma lww_join_None [simp]: "lww_join a None = a" "lww_join None b = b"
  by (auto simp: lww_join_def split: option.split)

lemma lww_join_idem [simp]: "lww_join a a = a"
  by (auto simp: lww_join_def split: option.split)

lemma lww_join_commute: "lww_join a b = lww_join b a"
  by (auto simp: lww_join_def newer_iff_rank not_less_iff_gr_or_eq split: option.split)

lemma lww_join_absorb [simp]: "lww_join (lww_join a b) b = lww_join a b" "lww_join a (lww_join a b) = lww_join a b"
  by (auto simp: lww_join_def newer_iff_rank not_less_iff_gr_or_eq split: option.split)

lemma lww_put_eq_join: "lww_put k e m x = (if x = k then lww_join (m k) (Some e) else m x)"
  by (auto simp: lww_put_def lww_join_def split: option.split)

lemma fold_lww_put_distinct:
  "distinct (map fst its) \<Longrightarrow> fold (\<lambda>(k, e). lww_put k e) its m x = lww_join (m x) (map_of its x)"
proof (induction its arbitrary: m)
  case (Cons it its)
  obtain k e where it: "it = (k, e)" by fastforce
  have "map_of its k = None" using Cons.prems it by (simp add: map_of_eq_None_iff)
  then show ?case using Cons it by (auto simp: lww_put_eq_join)
qed simp

lemma map_of_filter_key: "map_of (filter (\<lambda>(k, e). P k) its) k = (if P k then map_of its k else None)"
  by (induction its) auto

lemma read_of_entries:
  "map (\<lambda>p. (pb_Key p, to_entry p)) (filter (\<lambda>p. P (pb_Key p)) (map (\<lambda>(k, e). of_entry k e) its)) =
    filter (\<lambda>(k, e). P k) its"
  by (induction its) auto

lemma fold_lww_put_cong:
  "set us = set vs \<Longrightarrow> fold (\<lambda>(k, e). lww_put k e) us m = fold (\<lambda>(k, e). lww_put k e) vs m"
  by (simp add: lww.fold_set_fold [symmetric])

lemma fold_lww_put_other: "k \<notin> fst ` set us \<Longrightarrow> fold (\<lambda>(k, e). lww_put k e) us m k = m k"
  by (induction us arbitrary: m) (auto simp: lww_put_eq_join)

lemma fold_lww_put_extensive: "map_newer_eq m (fold (\<lambda>(k, e). lww_put k e) us m)"
proof (induction us arbitrary: m)
  case (Cons u us)
  show ?case using map_newer_eq_trans [OF lww_put_extensive Cons [of "lww_put (fst u) (snd u) m"]] by (cases u) simp
qed simp

lemma fold_lww_put_covers:
  assumes "(k, e) \<in> set us"
  shows "\<exists>e'. fold (\<lambda>(k, e). lww_put k e) us m k = Some e' \<and> entry_rank e \<le> entry_rank e'"
proof -
  have "fold (\<lambda>(k, e). lww_put k e) us m = fold (\<lambda>(k, e). lww_put k e) ((k, e) # us) m"
    using assms by (intro fold_lww_put_cong) auto
  moreover obtain e1 where "lww_put k e m k = Some e1" "entry_rank e \<le> entry_rank e1" using lww_put_covers by blast
  ultimately show ?thesis
    using fold_lww_put_extensive [of "lww_put k e m" us] unfolding map_newer_eq_def by fastforce
qed

context gossip_env
begin

lemma view_set_with_version: "view E (set_with_version E k e sh) = lww_put k e (view E sh)"
  using ordered_tree.contents_SetWithVersion [OF tree] by (simp add: view_def set_with_version_def)

lemma finite_view: "finite (dom (view E sh))"
  by (simp add: view_def contents_def finite_dom_map_of)

lemma view_HandleReplication:
  "view E (HandleReplication E h es sh) =
    fold (\<lambda>(k, e). lww_put k e) (map (\<lambda>p. (pb_Key p, to_entry p)) (filter (\<lambda>p. is_replica E h (pb_Key p) sh) es)) (view E sh)"
  by (induction es arbitrary: sh) (simp_all add: view_set_with_version)

lemma set_with_version_extensive:
  "map_newer_eq (view E (set_with_version E k e sh)) m \<Longrightarrow> map_newer_eq (view E sh) m"
  unfolding view_set_with_version using lww_put_extensive map_newer_eq_trans by blast

lemma HandleReplication_extensive: "map_newer_eq (view E sh) (view E (HandleReplication E h es sh))"
proof (induction es arbitrary: sh)
  case (Cons p es)
  then show ?case
    by (auto intro: set_with_version_extensive)
qed simp

lemma apply_request_extensive: "apply_request E h es sh = (ok, sh') \<Longrightarrow> map_newer_eq (view E sh) (view E sh')"
proof (induction es arbitrary: sh)
  case (Cons p es)
  then show ?case
    by (auto split: if_splits intro: set_with_version_extensive)
qed simp

lemma apply_request_covers:
  assumes "apply_request E h es sh = (True, sh')" and "p \<in> set es"
  shows "\<exists>e'. view E sh' (pb_Key p) = Some e' \<and> entry_rank (to_entry p) \<le> entry_rank e'"
  using assms
proof (induction es arbitrary: sh)
  case (Cons q es)
  let ?sh = "set_with_version E (pb_Key q) (to_entry q) sh"
  have rest: "apply_request E h es ?sh = (True, sh')" using Cons.prems(1) by (simp split: if_splits)
  show ?case
  proof (cases "p \<in> set es")
    case True
    with Cons.IH rest show ?thesis by blast
  next
    case False
    then have pq: "p = q" using Cons.prems(2) by simp
    obtain e where "view E ?sh (pb_Key q) = Some e" "entry_rank (to_entry q) \<le> entry_rank e"
      using lww_put_covers [of "pb_Key q" "to_entry q" "view E sh"] view_set_with_version by auto
    moreover obtain e' where "view E sh' (pb_Key q) = Some e'" "entry_rank e \<le> entry_rank e'"
      using apply_request_extensive [OF rest] calculation(1) unfolding map_newer_eq_def by blast
    ultimately show ?thesis unfolding pq by (meson order_trans)
  qed
qed simp

text \<open>What a node sends of its store is its whole view, and merging it joins the two views.\<close>

lemma serializeStore_spec:
  "serializeStore E sh =
    (if view E sh = Map.empty then None else Some (EntryBatch (map (\<lambda>(k, e). of_entry k e) (range_map E (view E sh)))))"
proof -
  have snap: "Snapshot (env_tree E) (sh_store sh) = view E sh" by (simp add: ordered_tree.Snapshot_contents [OF tree] view_def)
  have "range_map E (view E sh) = [] \<longleftrightarrow> view E sh = Map.empty"
    using range [OF finite_view [of sh]] by (metis map_of_eq_empty_iff)
  then show ?thesis by (simp add: serializeStore_def snap)
qed

lemma HandleReplication_snapshot:
  "view E (HandleReplication E h (map (\<lambda>(k, e). of_entry k e) (range_map E (view E shA))) sh) k =
    (if is_replica E h k sh then lww_join (view E sh k) (view E shA k) else view E sh k)"
proof -
  let ?its = "range_map E (view E shA)"
  let ?flt = "filter (\<lambda>(k, e). is_replica E h k sh) ?its"
  have r: "distinct (map fst ?its)" "map_of ?its = view E shA" using range [OF finite_view] by blast+
  have "view E (HandleReplication E h (map (\<lambda>(k, e). of_entry k e) ?its) sh) =
      fold (\<lambda>(k, e). lww_put k e) ?flt (view E sh)"
    unfolding view_HandleReplication read_of_entries [where P = "\<lambda>k. is_replica E h k sh"] ..
  moreover have "distinct (map fst ?flt)" using r(1) by (rule distinct_map_filter)
  moreover have "map_of ?flt k = (if is_replica E h k sh then view E shA k else None)"
    using map_of_filter_key [of "\<lambda>k. is_replica E h k sh" ?its k] unfolding r(2) .
  ultimately show ?thesis using fold_lww_put_distinct [of ?flt "view E sh" k] by simp
qed

lemma handleMessage_snapshot:
  assumes "exchangeState E ms (hA, shA) = (out, hA')" and "(d, b) \<in> set out"
  shows "handleMessage E b (h, sh) = ([], h, HandleReplication E h (map (\<lambda>(k, e). of_entry k e) (range_map E (view E shA))) sh)"
proof -
  obtain snap where "serializeStore E shA = Some snap" "marshal E snap = Some b"
    using assms by (auto simp: exchangeState_def Let_def split: option.splits if_splits)
  then show ?thesis
    using codec by (auto simp: serializeStore_spec handleMessage_def split: if_splits)
qed

end

sublocale gossip_env \<subseteq> shared: lww_replica "view E" "set_with_version E"
  by unfold_locales (rule view_set_with_version)

section \<open>The wait loop\<close>

definition waiter_inv :: "waiter \<Rightarrow> bool" where
  "waiter_inv wt \<longleftrightarrow> finite (w_expected wt) \<and> w_acked wt \<subseteq> w_expected wt \<and> w_acks wt = int (card (w_acked wt)) + 1"

definition succeeded :: "string set \<Rightarrow> ackResult list \<Rightarrow> string set" where
  "succeeded expected results = ack_nodeID ` {r \<in> set results. \<not> ack_err r} \<inter> expected"

lemma finite_acked: "waiter_inv wt \<Longrightarrow> finite (w_acked wt)"
  by (auto simp: waiter_inv_def intro: finite_subset)

lemma waiter_inv_count_ack: "waiter_inv wt \<Longrightarrow> waiter_inv (count_ack res wt)"
  using finite_acked [of wt] by (auto simp: waiter_inv_def count_ack_def)

lemma count_ack_fixed [simp]:
  "w_expected (count_ack res wt) = w_expected wt" "w_need (count_ack res wt) = w_need wt"
  "w_request (count_ack res wt) = w_request wt"
  by (simp_all add: count_ack_def)

lemma w_acked_count_ack: "waiter_inv wt \<Longrightarrow> w_acked (count_ack res wt) = w_acked wt \<union> succeeded (w_expected wt) [res]"
  by (auto simp: waiter_inv_def count_ack_def succeeded_def)

lemma succeeded_Cons: "succeeded X (r # rs) = succeeded X [r] \<union> succeeded X rs"
  by (auto simp: succeeded_def)

lemma wait_loop_None:
  assumes "waiter_inv wt" and "w_acks wt < w_need wt"
  shows "wait_loop wt results = None \<longleftrightarrow> w_need wt \<le> int (card (w_acked wt \<union> succeeded (w_expected wt) results)) + 1"
  using assms
proof (induction results arbitrary: wt)
  case Nil
  then show ?case by (simp add: waiter_inv_def succeeded_def)
next
  case (Cons r rs)
  let ?wt = "count_ack r wt"
  have inv: "waiter_inv ?wt" using Cons.prems(1) by (rule waiter_inv_count_ack)
  have all: "w_acked wt \<union> succeeded (w_expected wt) (r # rs) = w_acked ?wt \<union> succeeded (w_expected ?wt) rs"
    using w_acked_count_ack [OF Cons.prems(1), of r] succeeded_Cons [of "w_expected wt" r rs] by (simp add: Un_assoc)
  show ?case
  proof (cases "w_acks ?wt < w_need ?wt")
    case True
    then show ?thesis using Cons.IH [OF inv True] all by simp
  next
    case False
    have "finite (w_acked ?wt \<union> succeeded (w_expected ?wt) rs)"
      using inv by (auto simp: waiter_inv_def succeeded_def intro: finite_subset)
    then have "card (w_acked ?wt) \<le> card (w_acked ?wt \<union> succeeded (w_expected ?wt) rs)" by (intro card_mono) auto
    then have "w_need wt \<le> int (card (w_acked ?wt \<union> succeeded (w_expected ?wt) rs)) + 1"
      using False inv by (simp add: waiter_inv_def)
    with False all show ?thesis by simp
  qed
qed

text \<open>The replicas to which the request was sent.\<close>

definition reached :: "('t, 'b) env \<Rightarrow> (string \<Rightarrow> bool) \<Rightarrow> string \<Rightarrow> Handler \<times> 't Shared \<Rightarrow> string set" where
  "reached E reach key s = {n \<in> NodeID ` set (remote_replicas E (fst s) key (snd s)). reach n}"

lemma remote_replicas_set_with_version [simp]:
  "remote_replicas E h key (set_with_version E k e sh) = remote_replicas E h key sh"
  by (simp add: remote_replicas_def)

lemma quorum_start_waits:
  assumes "quorum_start E reach rid key entry w (h, sh) = (Inr wt, out, h', sh')"
  shows "waiter_inv wt" "w_acks wt < w_need wt" "w_request wt = rid" "w_need wt = w" "w_acked wt = {}"
    "w_expected wt = reached E reach key (h, sh)" "1 < w"
    "h' = h\<lparr>pendingReqs := (pendingReqs h)(rid \<mapsto> \<lparr>capacity = length (remote_replicas E h key sh), queue = []\<rparr>)\<rparr>"
  using assms
  by (auto simp: quorum_start_def Let_def waiter_inv_def reached_def split: if_splits option.splits)

lemma quorum_start_shared:
  "quorum_start E reach rid key entry w (h, sh) = (r, out, h', sh') \<Longrightarrow> sh' = set_with_version E key entry sh"
  by (auto simp: quorum_start_def Let_def split: if_splits option.splits)

lemma quorum_start_sends:
  assumes "quorum_start E reach rid key entry w (h, sh) = (r, out, h', sh')" and "(d, b) \<in> set out"
  shows "marshal E (ReplicateReq \<lparr>RequestId = rid, SenderId = node_id h, Entries = [of_entry key entry]\<rparr>) = Some b"
  using assms by (auto simp: quorum_start_def Let_def split: if_splits option.splits)

lemma card_reached_le: "card (reached E reach key (h, sh)) \<le> length (filter (\<lambda>r. reach (NodeID r)) (remote_replicas E h key sh))"
proof -
  have "reached E reach key (h, sh) = set (map NodeID (filter (\<lambda>r. reach (NodeID r)) (remote_replicas E h key sh)))"
    by (auto simp: reached_def)
  then show ?thesis using card_length by (metis length_map)
qed

lemma quorum_start_early:
  assumes "quorum_start E reach rid key entry w (h, sh) = (Inl r, out, h', sh')"
  shows "r = None \<longleftrightarrow> w \<le> 1"
    and "r \<noteq> None \<Longrightarrow> marshal E (ReplicateReq \<lparr>RequestId = rid, SenderId = node_id h, Entries = [of_entry key entry]\<rparr>) = None
        \<or> int (card (reached E reach key (h, sh))) + 1 < w"
proof -
  let ?R = "remote_replicas E h key sh"
  have "length (filter (\<lambda>r. reach (NodeID r)) ?R) \<le> length ?R" by simp
  with card_reached_le [of E reach key h sh]
  have le: "card (reached E reach key (h, sh)) \<le> length ?R" by linarith
  show "r = None \<longleftrightarrow> w \<le> 1"
    using assms by (auto simp: quorum_start_def Let_def split: if_splits option.splits)
  show "marshal E (ReplicateReq \<lparr>RequestId = rid, SenderId = node_id h, Entries = [of_entry key entry]\<rparr>) = None
        \<or> int (card (reached E reach key (h, sh))) + 1 < w" if "r \<noteq> None"
    using assms that le card_reached_le [of E reach key h sh]
    by (auto simp: quorum_start_def Let_def split: if_splits option.splits)
qed

section \<open>Rounds of anti-entropy\<close>

text \<open>A store that can be sent: it is not empty and the codec accepts it.\<close>

definition sendable :: "('t, 'b) env \<Rightarrow> 't Shared \<Rightarrow> bool" where
  "sendable E sh \<longleftrightarrow> (\<exists>snapshot b. serializeStore E sh = Some snapshot \<and> marshal E snapshot = Some b)"

definition peers_of :: "Handler \<Rightarrow> MemberInfo list \<Rightarrow> MemberInfo list" where
  "peers_of h members = filter (\<lambda>m. Name m \<noteq> node_id h) members"

lemma peers_of_pos [simp]: "peers_of (h\<lparr>antiEntropyPos := p\<rparr>) members = peers_of h members"
  by (simp add: peers_of_def node_id_def)

lemma exchangeState_sendable:
  assumes "sendable E sh" and "peers_of h members \<noteq> []" and "1 < length members"
  shows "\<exists>b. exchangeState E members (h, sh) =
    (let ps = sort_peers E (peers_of h members); i = antiEntropyPos h mod length ps
     in ([(Name (ps ! i), b)], h\<lparr>antiEntropyPos := (i + 1) mod length ps\<rparr>))"
  using assms by (auto simp: sendable_def exchangeState_def peers_of_def Let_def)

lemma antiEntropyLoop_sendable:
  assumes "\<forall>t \<in> set ticks. fst t = members \<and> sendable E (snd t)"
    and "peers_of h members \<noteq> []" and "1 < length members" and "sort_peers E (peers_of h members) = ps"
  shows "map fst (fst (antiEntropyLoop E h ticks)) =
    map (\<lambda>i. Name (ps ! ((antiEntropyPos h + i) mod length ps))) [0..<length ticks]"
  using assms
proof (induction ticks arbitrary: h)
  case (Cons t ticks)
  obtain sh where t: "t = (members, sh)" "sendable E sh" using Cons.prems(1) by (cases t) auto
  let ?h = "h\<lparr>antiEntropyPos := (antiEntropyPos h mod length ps + 1) mod length ps\<rparr>"
  obtain b where ex: "exchangeState E members (h, sh) = ([(Name (ps ! (antiEntropyPos h mod length ps)), b)], ?h)"
    using exchangeState_sendable [OF t(2) Cons.prems(2,3)] Cons.prems(4) by (auto simp: Let_def)
  have "map fst (fst (antiEntropyLoop E ?h ticks)) =
      map (\<lambda>i. Name (ps ! ((antiEntropyPos ?h + i) mod length ps))) [0..<length ticks]"
    using Cons.prems by (intro Cons.IH) simp_all
  also have "\<dots> = map (\<lambda>i. Name (ps ! ((antiEntropyPos h + Suc i) mod length ps))) [0..<length ticks]"
    by (simp add: mod_add_left_eq mod_Suc_eq)
  finally show ?case
    by (simp add: t(1) ex split_beta upt_conv_Cons map_Suc_upt [symmetric] del: upt_Suc)
qed simp

lemma rotation_covers:
  assumes "ps \<noteq> []"
  shows "mset (map (\<lambda>i. ps ! ((p + i) mod length ps)) [0..<length ps]) = mset ps"
proof -
  have "map (\<lambda>i. ps ! ((p + i) mod length ps)) [0..<length ps] = rotate p ps"
    using assms by (intro nth_equalityI) (simp_all add: nth_rotate add.commute)
  then show ?thesis by (metis rotate_drop_take mset_append append_take_drop_id union_commute)
qed

section \<open>A reference environment\<close>

text \<open>
  The association-list tree, a small string hash, stable sorting, messages as their own encoding, and
  iteration in key order.
\<close>

definition ref_env :: "(alist_tree, GossipMessage) env" where
  "ref_env = \<lparr>env_tree = alist_btree, env_hash = ex_hash, env_sort = sort_key re_hash,
     marshal = Some, unmarshal = Some,
     range_map = \<lambda>m. map (\<lambda>k. (k, the (m k))) (sorted_list_of_set (dom m)),
     sort_peers = sort_key Name\<rparr>"

lemma map_of_the: "set ks = dom m \<Longrightarrow> map_of (map (\<lambda>k. (k, the (m k))) ks) = m"
  by (rule ext) (auto simp: map_of_map_restrict restrict_map_def domIff)

interpretation ref: gossip_env ref_env
  by (intro gossip_env.intro)
    (simp_all add: ref_env_def alist.ordered_tree_axioms stable_sort.slice_sort_axioms comp_def map_of_the)

section \<open>Joining\<close>

text \<open>
  A discovery that fails and gives no seeds is never retried: the retry loop returns at once on empty seeds.
  Otherwise the loop ends with its first successful join.
\<close>

lemma Start_failed_discovery_never_joins:
  "fst (snd (Start started (Some ([], True)) members ticks h)) = []"
  by (simp add: Start_def retryJoin_def Let_def)

lemma retry_loop_stops:
  "seeds \<noteq> [] \<Longrightarrow> retry_loop (pre @ Ticked m (Some seeds) True # post) = retry_loop (pre @ [Ticked m (Some seeds) True])"
  by (induction pre rule: retry_loop.induct) (auto split: option.split)

section \<open>Example nodes\<close>

text \<open>Three nodes that replicate every key, for the examples.\<close>

definition ex_handler :: "string \<Rightarrow> Handler" where
  "ex_handler node = New \<lparr>cfg_NodeID = node, cfg_RedisAddr = [], ReplicaRF = 3, WriteConcern = 2, AntiEntropySec = 0\<rparr>"

definition ex_shared :: "alist_tree Shared" where
  "ex_shared = \<lparr>sh_store = Store.New alist_btree, sh_ring = ex_ring\<rparr>"

lemma ex_handler_sel [simp]:
  "node_id (ex_handler n) = n" "ReplicaRF (cfg (ex_handler n)) = 3" "pendingReqs (ex_handler n) = Map.empty"
  "antiEntropyPos (ex_handler n) = 0"
  by (simp_all add: ex_handler_def New_def node_id_def)

lemma ex_shared_ring [simp]: "sh_ring ex_shared = ex_ring"
  by (simp add: ex_shared_def)

lemma ref_env_sel [simp]:
  "env_tree ref_env = alist_btree" "env_hash ref_env = ex_hash" "marshal ref_env = Some" "unmarshal ref_env = Some"
  by (simp_all add: ref_env_def)

lemma ex_replica [simp]: "(\<exists>rep \<in> set (GetReplicas ex_hash key 3 ex_ring). NodeID rep = n) \<longleftrightarrow> n \<in> {''a'', ''b'', ''c''}"
  unfolding ex_GetReplicas [of key, symmetric] by auto

lemma is_replica_ex [simp]: "is_replica ref_env (ex_handler n) k (ex_shared\<lparr>sh_store := s\<rparr>) \<longleftrightarrow> n \<in> {''a'', ''b'', ''c''}"
  using ex_replica [of k n] by (simp add: is_replica_def list_ex_iff)

definition ex_members :: "MemberInfo list" where
  "ex_members = [\<lparr>Name = ''a'', mi_RedisAddr = [], Addr = [], Status = ''alive''\<rparr>,
     \<lparr>Name = ''b'', mi_RedisAddr = [], Addr = [], Status = ''alive''\<rparr>]"

definition ex_holding :: "Entry \<Rightarrow> alist_tree Shared" where
  "ex_holding e = set_with_version ref_env ''k'' e ex_shared"

lemma view_ex_holding [simp]: "view ref_env (ex_holding e) = [''k'' \<mapsto> e]"
proof -
  have "view ref_env ex_shared = Map.empty"
    by (simp add: view_def ex_shared_def contents_def Store.New_def alist_btree_def)
  then show ?thesis by (simp add: ex_holding_def ref.view_set_with_version lww_put_def)
qed

lemma serializeStore_single: "view ref_env sh = [''k'' \<mapsto> e] \<Longrightarrow> serializeStore ref_env sh = Some (EntryBatch [of_entry ''k'' e])"
  by (simp add: ref.serializeStore_spec) (simp add: ref_env_def)

text \<open>A codec that refuses batches with a key or value beyond ASCII.\<close>

definition ascii_env :: "(alist_tree, GossipMessage) env" where
  "ascii_env = ref_env\<lparr>marshal := \<lambda>m. (case m of
     EntryBatch es \<Rightarrow> if list_all (\<lambda>p. ascii (pb_Key p) \<and> ascii (pb_Value p)) es then Some m else None | _ \<Rightarrow> Some m)\<rparr>"

interpretation ascii: gossip_env ascii_env
  by (intro gossip_env.intro)
    (auto simp: ascii_env_def ref_env_def alist.ordered_tree_axioms stable_sort.slice_sort_axioms comp_def map_of_the
      split: GossipMessage.splits if_splits)

section \<open>Properties\<close>

text \<open>
  C4. \<open>ReplicateWithQuorum\<close> returns nil exactly when no more than one copy is asked for, or the request
  can be encoded and at least \<open>w - 1\<close> different replicas other than the coordinator, to which the
  request was sent, answered with success before the deadline: duplicates, rejections and answers of
  other nodes do not count. On every outcome the entry is merged into the local store, the ring is
  unchanged, and no pending request is left behind.
\<close>

theorem ReplicateWithQuorum_nil_iff:
  assumes "gossip_env E" and "pendingReqs h rid = None"
    and "ReplicateWithQuorum E reach rid results key entry w (h, sh) = (r, out, h', sh')"
  shows "(r = None \<longleftrightarrow> w \<le> 1 \<or>
      (marshal E (ReplicateReq \<lparr>RequestId = rid, SenderId = node_id h, Entries = [of_entry key entry]\<rparr>) \<noteq> None \<and>
       w - 1 \<le> int (card {n. (\<exists>res \<in> set results. ack_nodeID res = n \<and> \<not> ack_err res) \<and> reach n \<and> n \<noteq> node_id h \<and>
          (\<exists>rep \<in> set (GetReplicas (env_hash E) key (ReplicaRF (cfg h)) (sh_ring sh)). NodeID rep = n)}))) \<and>
    view E sh' = lww_put key entry (view E sh) \<and> sh_ring sh' = sh_ring sh \<and> h' = h"
proof -
  let ?req = "ReplicateReq \<lparr>RequestId = rid, SenderId = node_id h, Entries = [of_entry key entry]\<rparr>"
  let ?R = "reached E reach key (h, sh)"
  have acks: "{n. (\<exists>res \<in> set results. ack_nodeID res = n \<and> \<not> ack_err res) \<and> reach n \<and> n \<noteq> node_id h \<and>
      (\<exists>rep \<in> set (GetReplicas (env_hash E) key (ReplicaRF (cfg h)) (sh_ring sh)). NodeID rep = n)} = succeeded ?R results"
    by (auto simp: succeeded_def reached_def remote_replicas_def image_iff)
  have R: "finite ?R" by (simp add: reached_def)
  have few: "card (succeeded ?R results) \<le> card ?R" using R by (auto simp: succeeded_def intro: card_mono)
  obtain q out1 h1 sh1 where st: "quorum_start E reach rid key entry w (h, sh) = (q, out1, h1, sh1)"
    by (metis prod_cases4)
  have "sh' = sh1" using assms(3) st by (auto simp: ReplicateWithQuorum_def split: sum.splits)
  then have sh': "sh' = set_with_version E key entry sh" using quorum_start_shared [OF st] by simp
  have fresh: "h\<lparr>pendingReqs := (pendingReqs h)(rid := None)\<rparr> = h" using assms(2) by (simp add: fun_upd_idem)
  have "(r = None \<longleftrightarrow> w \<le> 1 \<or> (marshal E ?req \<noteq> None \<and> w - 1 \<le> int (card (succeeded ?R results)))) \<and> h' = h"
  proof (cases q)
    case (Inl r0)
    then have r: "r = r0" "h' = h1" using assms(3) st by (auto simp: ReplicateWithQuorum_def)
    have "h1 = h" using st Inl fresh by (auto simp: quorum_start_def Let_def split: if_splits option.splits)
    then show ?thesis using quorum_start_early [OF st [unfolded Inl]] few unfolding r by fastforce
  next
    case (Inr wt)
    note w = quorum_start_waits [OF st [unfolded Inr]]
    have r: "r = wait_loop wt results" "h' = remove_pending rid h1"
      using assms(3) st Inr by (auto simp: ReplicateWithQuorum_def)
    have "marshal E ?req \<noteq> None" using st Inr by (auto simp: quorum_start_def Let_def split: if_splits option.splits)
    moreover have "h' = h" using fresh by (simp add: r(2) w(8) remove_pending_def)
    moreover have "r = None \<longleftrightarrow> w \<le> int (card (succeeded ?R results)) + 1"
      using wait_loop_None [OF w(1,2), of results] by (simp add: r(1) w)
    ultimately show ?thesis using w(7) by auto
  qed
  then show ?thesis
    unfolding acks using sh' gossip_env.view_set_with_version [OF assms(1)] by simp
qed

theorem ReplicateWithQuorum_nil_iff_witness:
  "fst (ReplicateWithQuorum ref_env (\<lambda>_. True) ''id'' [\<lparr>ack_nodeID = ''z'', ack_err = False\<rparr>, \<lparr>ack_nodeID = ''b'', ack_err = False\<rparr>]
     ''k'' (ex_entry ''v'' 1 ''a'' False) 2 (ex_handler ''a'', ex_shared)) = None"
proof -
  let ?acks = "[\<lparr>ack_nodeID = ''z'', ack_err = False\<rparr>, \<lparr>ack_nodeID = ''b'', ack_err = False\<rparr>]"
  obtain r out h sh where call: "ReplicateWithQuorum ref_env (\<lambda>_. True) ''id'' ?acks ''k'' (ex_entry ''v'' 1 ''a'' False) 2
      (ex_handler ''a'', ex_shared) = (r, out, h, sh)" by (metis prod_cases4)
  have set: "{n. (\<exists>res \<in> set ?acks. ack_nodeID res = n \<and> \<not> ack_err res) \<and> True \<and> n \<noteq> node_id (ex_handler ''a'') \<and>
      (\<exists>rep \<in> set (GetReplicas (env_hash ref_env) ''k'' (ReplicaRF (cfg (ex_handler ''a''))) (sh_ring ex_shared)). NodeID rep = n)} = {''b''}"
    by auto
  have "pendingReqs (ex_handler ''a'') ''id'' = None" by simp
  from ReplicateWithQuorum_nil_iff [OF ref.gossip_env_axioms this call, unfolded set]
  have "r = None" by simp
  with call show ?thesis by simp
qed

text \<open>
  C5. Replicated batches converge: nodes of the same name with the same ring and the same view that apply the same set of
  entries, in any order and with repeats, end with the same view. A key that the node does not
  replicate keeps its entry, every other entry of the batch is covered by one at least as new, and no key moves to an older entry.
\<close>

theorem HandleReplication_converges:
  assumes "gossip_env E" and "sh_ring sh = sh_ring sh'" and "view E sh = view E sh'" and "set es = set es'"
  shows "view E (HandleReplication E h es sh) = view E (HandleReplication E h es' sh') \<and>
    (\<forall>k. \<not> is_replica E h k sh \<longrightarrow> view E (HandleReplication E h es sh) k = view E sh k) \<and>
    (\<forall>p \<in> set es. is_replica E h (pb_Key p) sh \<longrightarrow>
      (\<exists>e'. view E (HandleReplication E h es sh) (pb_Key p) = Some e' \<and> entry_rank (to_entry p) \<le> entry_rank e')) \<and>
    map_newer_eq (view E sh) (view E (HandleReplication E h es sh))"
proof -
  let ?us = "\<lambda>es. map (\<lambda>p. (pb_Key p, to_entry p)) (filter (\<lambda>p. is_replica E h (pb_Key p) sh) es)"
  have v: "view E (HandleReplication E h es sh) = fold (\<lambda>(k, e). lww_put k e) (?us es) (view E sh)" for es
    by (rule gossip_env.view_HandleReplication [OF assms(1)])
  have r: "is_replica E h k sh' = is_replica E h k sh" for k by (simp add: is_replica_def assms(2))
  have v': "view E (HandleReplication E h es' sh') = fold (\<lambda>(k, e). lww_put k e) (?us es') (view E sh)"
    unfolding gossip_env.view_HandleReplication [OF assms(1)] r assms(3) ..
  have "set (?us es) = set (?us es')" using assms(4) by simp
  then have "view E (HandleReplication E h es sh) = view E (HandleReplication E h es' sh')"
    unfolding v v' by (rule fold_lww_put_cong)
  moreover have "view E (HandleReplication E h es sh) k = view E sh k" if "\<not> is_replica E h k sh" for k
    unfolding v by (rule fold_lww_put_other) (use that in auto)
  moreover have "\<exists>e'. view E (HandleReplication E h es sh) (pb_Key p) = Some e' \<and> entry_rank (to_entry p) \<le> entry_rank e'"
    if "p \<in> set es" "is_replica E h (pb_Key p) sh" for p
    unfolding v by (rule fold_lww_put_covers) (use that in auto)
  moreover have "map_newer_eq (view E sh) (view E (HandleReplication E h es sh))"
    by (rule gossip_env.HandleReplication_extensive [OF assms(1)])
  ultimately show ?thesis by blast
qed

theorem HandleReplication_converges_witness:
  "let x = of_entry ''k'' (ex_entry ''x'' 1 ''a'' False); y = of_entry ''k'' (ex_entry ''y'' 1 ''b'' False)
   in view ref_env (HandleReplication ref_env (ex_handler ''a'') [x, y] ex_shared) =
        view ref_env (HandleReplication ref_env (ex_handler ''a'') [y, x, x] ex_shared) \<and>
      view ref_env (HandleReplication ref_env (ex_handler ''a'') [x, y] ex_shared) ''k'' \<noteq> None"
proof -
  let ?x = "of_entry ''k'' (ex_entry ''x'' 1 ''a'' False)" and ?y = "of_entry ''k'' (ex_entry ''y'' 1 ''b'' False)"
  have s: "set [?x, ?y] = set [?y, ?x, ?x]" by auto
  have r: "is_replica ref_env (ex_handler ''a'') ''k'' ex_shared"
    using is_replica_ex [of "''a''" "''k''" "sh_store ex_shared"] by simp
  have "view ref_env (HandleReplication ref_env (ex_handler ''a'') [?x, ?y] ex_shared) (pb_Key ?x) \<noteq> None"
    using HandleReplication_converges [OF ref.gossip_env_axioms refl refl s, where h = "ex_handler ''a''" and sh = ex_shared] r
    by (metis list.set_intros(1) option.distinct(1) pb_Key_of_entry)
  then show ?thesis
    using HandleReplication_converges [OF ref.gossip_env_axioms refl refl s, where h = "ex_handler ''a''" and sh = ex_shared]
    by (simp add: Let_def)
qed

text \<open>
  C6. Anti-entropy repairs divergence: after node A sends its store to node B in a round, and B then sends
  its own to A, both hold the same entry for every key they both replicate, the newer of the two they
  started with.
\<close>

theorem anti_entropy_pair_converges:
  assumes "gossip_env E"
    and "exchangeState E membersA (hA, shA) = ([(node_id hB, toB)], hA')"
    and "handleMessage E toB (hB, shB) = (outB, hB', shB')"
    and "exchangeState E membersB (hB', shB') = ([(node_id hA, toA)], hB'')"
    and "handleMessage E toA (hA', shA) = (outA, hA'', shA')"
    and "is_replica E hA k shA" and "is_replica E hB k shB"
  shows "view E shA' k = view E shB' k \<and> view E shB' k = lww_join (view E shA k) (view E shB k) \<and>
    outA = [] \<and> outB = []"
proof -
  have B: "outB = []" "hB' = hB"
    "view E shB' k = lww_join (view E shB k) (view E shA k)"
    using gossip_env.handleMessage_snapshot [OF assms(1,2), of "node_id hB" toB hB shB] assms(3,7)
      gossip_env.HandleReplication_snapshot [OF assms(1), of hB shA shB k] by auto
  have "is_replica E hA' k shA"
    using assms(2,6) by (auto simp: exchangeState_def Let_def is_replica_def node_id_def split: option.splits if_splits)
  then have A: "outA = []" "view E shA' k = lww_join (view E shA k) (view E shB' k)"
    using gossip_env.handleMessage_snapshot [OF assms(1,4), of "node_id hA" toA hA' shA] assms(5)
      gossip_env.HandleReplication_snapshot [OF assms(1), of hA' shB' shA k] by auto
  show ?thesis using A B by (simp add: lww_join_commute)
qed

theorem anti_entropy_pair_converges_witness:
  "let x = ex_entry ''x'' 1 ''a'' False; y = ex_entry ''y'' 2 ''b'' False;
     (outA, hA) = exchangeState ref_env ex_members (ex_handler ''a'', ex_holding x);
     (_, hB, shB) = handleMessage ref_env (snd (hd outA)) (ex_handler ''b'', ex_holding y);
     (outB, _) = exchangeState ref_env ex_members (hB, shB);
     (_, _, shA) = handleMessage ref_env (snd (hd outB)) (hA, ex_holding x)
   in view ref_env shA ''k'' = Some y \<and> view ref_env shB ''k'' = Some y"
proof -
  let ?x = "ex_entry ''x'' 1 ''a'' False" and ?y = "ex_entry ''y'' 2 ''b'' False"
  have newer: "newer ?y ?x" "\<not> newer ?x ?y" by (simp_all add: newer_def ex_entry_def)
  have ra: "is_replica ref_env (ex_handler ''a'') ''k'' (ex_holding ?x)" and rb: "is_replica ref_env (ex_handler ''b'') ''k'' (ex_holding ?y)"
    using is_replica_ex [of "''a''" "''k''" "sh_store ex_shared"] is_replica_ex [of "''b''" "''k''" "sh_store ex_shared"]
    by (simp_all add: ex_holding_def)
  have a: "exchangeState ref_env ex_members (ex_handler ''a'', ex_holding ?x) =
      ([(node_id (ex_handler ''b''), EntryBatch [of_entry ''k'' ?x])], ex_handler ''a''\<lparr>antiEntropyPos := 0\<rparr>)"
    by (simp add: exchangeState_def serializeStore_single ex_members_def) (simp add: ref_env_def)
  let ?shB = "set_with_version ref_env ''k'' ?x (ex_holding ?y)"
  have b: "handleMessage ref_env (EntryBatch [of_entry ''k'' ?x]) (ex_handler ''b'', ex_holding ?y) = ([], ex_handler ''b'', ?shB)"
    using rb by (simp add: handleMessage_def)
  have "view ref_env ?shB = [''k'' \<mapsto> ?y]" using newer by (simp add: ref.view_set_with_version lww_put_def)
  then have c: "exchangeState ref_env ex_members (ex_handler ''b'', ?shB) =
      ([(node_id (ex_handler ''a''), EntryBatch [of_entry ''k'' ?y])], ex_handler ''b''\<lparr>antiEntropyPos := 0\<rparr>)"
    by (simp add: exchangeState_def serializeStore_single ex_members_def) (simp add: ref_env_def)
  obtain out h sh where d: "handleMessage ref_env (EntryBatch [of_entry ''k'' ?y]) (ex_handler ''a''\<lparr>antiEntropyPos := 0\<rparr>, ex_holding ?x) = (out, h, sh)"
    by (metis prod_cases3)
  from anti_entropy_pair_converges [OF ref.gossip_env_axioms a b c d ra rb] newer
  show ?thesis by (simp add: a b c d lww_join_def)
qed

text \<open>
  C33. Anti-entropy is fair: over as many rounds as a node has peers, with the same members reported at
  each and a store that can be sent, the node sends its store exactly once to every peer, wherever its
  position in the list of peers was.
\<close>

theorem antiEntropyLoop_round_robin:
  assumes "gossip_env E" and "\<forall>t \<in> set ticks. fst t = members \<and> sendable E (snd t)"
    and "peers_of h members \<noteq> []" and "1 < length members" and "length ticks = length (peers_of h members)"
  shows "mset (map fst (fst (antiEntropyLoop E h ticks))) = mset (map Name (peers_of h members))"
proof -
  let ?ps = "sort_peers E (peers_of h members)"
  have perm: "mset ?ps = mset (peers_of h members)"
    using assms(1) by (simp add: gossip_env_def slice_sort_def)
  then have len: "length ticks = length ?ps" and ne: "?ps \<noteq> []" using assms(3,5) by (metis size_mset, auto)
  have "map fst (fst (antiEntropyLoop E h ticks)) =
      map Name (map (\<lambda>i. ?ps ! ((antiEntropyPos h + i) mod length ?ps)) [0..<length ?ps])"
    using antiEntropyLoop_sendable [OF assms(2-4) refl] len by simp
  then have "mset (map fst (fst (antiEntropyLoop E h ticks))) =
      image_mset Name (mset (map (\<lambda>i. ?ps ! ((antiEntropyPos h + i) mod length ?ps)) [0..<length ?ps]))"
    by (simp only: mset_map)
  also have "\<dots> = image_mset Name (mset (peers_of h members))" unfolding rotation_covers [OF ne] perm ..
  finally show ?thesis by simp
qed

theorem antiEntropyLoop_round_robin_witness:
  "map fst (fst (antiEntropyLoop ref_env (ex_handler ''a'') [(ex_members, ex_holding (ex_entry ''x'' 1 ''a'' False))])) = [''b'']"
proof -
  let ?t = "(ex_members, ex_holding (ex_entry ''x'' 1 ''a'' False))"
  have "\<forall>t \<in> set [?t]. fst t = ex_members \<and> sendable ref_env (snd t)" by (simp add: sendable_def serializeStore_single)
  from antiEntropyLoop_round_robin [OF ref.gossip_env_axioms this, of "ex_handler ''a''"]
  have "mset (map fst (fst (antiEntropyLoop ref_env (ex_handler ''a'') [?t]))) = {#''b''#}"
    by (simp add: peers_of_def ex_members_def del: mset_map antiEntropyLoop.simps)
  then show ?thesis by (simp only: mset_single_iff)
qed

text \<open>
  C34. One entry that the codec refuses stops anti-entropy: protobuf does not encode a batch with a string
  that is not valid UTF-8, and a key or value may hold any bytes. A node that stores such an entry sends
  no snapshot to anyone, neither in its rounds nor in the exchange at a join, whatever else it holds.
\<close>

theorem refused_entry_stops_anti_entropy:
  assumes "gossip_env E" and "view E sh k = Some e"
    and refused: "\<And>es. of_entry k e \<in> set es \<Longrightarrow> marshal E (EntryBatch es) = None"
  shows "fst (exchangeState E members (h, sh)) = [] \<and> handleLocalState E sh = None"
proof -
  let ?its = "range_map E (view E sh)"
  have "map_of ?its k = Some e"
    using assms(1,2) gossip_env.finite_view [OF assms(1), of sh] by (metis gossip_env.range)
  then have "of_entry k e \<in> set (map (\<lambda>(k, e). of_entry k e) ?its)"
    by (force dest: map_of_SomeD)
  then have "marshal E (EntryBatch (map (\<lambda>(k, e). of_entry k e) ?its)) = None" by (rule refused)
  then show ?thesis
    using assms(2)
    by (auto simp: exchangeState_def handleLocalState_def gossip_env.serializeStore_spec [OF assms(1)] Let_def)
qed

theorem refused_entry_stops_anti_entropy_witness:
  "let sh = set_with_version ascii_env [char_of (255 :: nat)] (ex_entry ''x'' 1 ''a'' False) (ex_holding (ex_entry ''x'' 1 ''a'' False))
   in fst (exchangeState ascii_env ex_members (ex_handler ''a'', sh)) = [] \<and>
      fst (exchangeState ascii_env ex_members (ex_handler ''a'', ex_holding (ex_entry ''x'' 1 ''a'' False))) \<noteq> []"
proof -
  let ?e = "ex_entry ''x'' 1 ''a'' False" and ?k = "[char_of (255 :: nat)]"
  let ?sh = "set_with_version ascii_env ?k ?e (ex_holding ?e)"
  have "view ascii_env (ex_holding ?e) = [''k'' \<mapsto> ?e]" using view_ex_holding by (simp add: ascii_env_def view_def)
  then have "view ascii_env ?sh ?k = Some ?e" by (simp add: ascii.view_set_with_version lww_put_def)
  moreover have "marshal ascii_env (EntryBatch es) = None" if "of_entry ?k ?e \<in> set es" for es
    using that by (force simp: ascii_env_def ascii_def list_all_iff)
  ultimately have "fst (exchangeState ascii_env ex_members (ex_handler ''a'', ?sh)) = []"
    using refused_entry_stops_anti_entropy [OF ascii.gossip_env_axioms] by blast
  moreover have "serializeStore ascii_env (ex_holding ?e) = Some (EntryBatch [of_entry ''k'' ?e])"
    using serializeStore_single [OF view_ex_holding] by (simp add: serializeStore_def ascii_env_def)
  then have "fst (exchangeState ascii_env ex_members (ex_handler ''a'', ex_holding ?e)) \<noteq> []"
    by (simp add: exchangeState_def ex_members_def ascii_env_def ascii_def of_entry_def ex_entry_def Let_def)
  ultimately show ?thesis by (simp add: Let_def)
qed

text \<open>
  The event log keeps the latest 200 events: after any sequence of events \<open>RecentEvents n\<close> is the last
  \<open>n\<close> of them in order, or as many as there are up to 200 when \<open>n\<close> is not positive or asks for more.
\<close>

theorem RecentEvents_latest:
  "RecentEvents n (fold PushEvent evs (New c)) =
    (let have = min 200 (length evs); k = (if n \<le> 0 \<or> int have < n then have else nat n)
     in drop (length evs - k) evs)"
proof -
  have "events (fold PushEvent evs h) = fold Push evs (events h)" for h
    by (induction evs arbitrary: h) (simp_all add: PushEvent_def)
  moreover have "events (New c) = newEventRing 200" by (simp add: New_def Let_def eventRingSize_def)
  moreover have "log_holds evs 200 (fold Push evs (newEventRing 200))"
    using log_holds_run [OF log_holds_new [of 200], of evs] by simp
  ultimately show ?thesis using Recent_log by (simp add: RecentEvents_def)
qed

end
