(* ===== verification/Cluster.thy ===== *)
theory Cluster
  imports Gossip
begin

text \<open>
  A cluster of nodes as a step relation over the handlers of \<open>src/internal/gossip/gossip.go\<close>.

  Every node has its handler, its shared store and ring, and the quorum writes that wait in it. Messages
  handed to the transport stay in the network: they may be delivered late, in any order, many times or
  never. A node may crash at any time, which loses its memory, and start anew. Steps of different nodes
  interleave freely; one step is a handler run, one turn of a wait loop, or one operation of the store. A handler that takes the store's lock several times, for the entries of a
  batch or before it reads the ring, is also covered when others run in between: each of its merges is a
  step of its own among the store operations.
\<close>

section \<open>Nodes and the network\<close>

record 't node =
  nd_handler :: Handler
  nd_shared :: "'t Shared"
  nd_waits :: "string \<rightharpoonup> waiter \<times> string \<times> Entry \<times> string list \<times> (string \<Rightarrow> nat)"

text \<open>
  How a call of \<open>ReplicateWithQuorum\<close> ended: at which node, for which write, with which result.
  \<open>o_replicas\<close> remembers the replicas the ring of the coordinator named for the key when the write started,
  \<open>o_crashes\<close> how often each node had crashed by then.
\<close>

record outcome =
  o_node :: string
  o_key :: string
  o_entry :: Entry
  o_replicas :: "string list"
  o_crashes :: "string \<Rightarrow> nat"
  o_need :: int
  o_result :: "quorum_error option"

text \<open>
  \<open>crashes\<close> counts the crashes of each node. \<open>issued\<close> remembers what was written under each request id, and the
  crashes until then: \<open>uuid.New\<close> never repeats an id.
\<close>

record ('t, 'b) world =
  node_of :: "string \<Rightarrow> 't node"
  net :: "(string \<times> 'b) set"
  issued :: "string \<rightharpoonup> string \<times> Entry \<times> (string \<Rightarrow> nat)"
  outcomes :: "outcome set"
  crashes :: "string \<Rightarrow> nat"

definition put :: "string \<Rightarrow> 't node \<Rightarrow> 'b sends \<Rightarrow> ('t, 'b) world \<Rightarrow> ('t, 'b) world" where
  "put n nd out W = W\<lparr>node_of := (node_of W)(n := nd), net := net W \<union> set out\<rparr>"

definition issue :: "string \<Rightarrow> string \<Rightarrow> Entry \<Rightarrow> ('t, 'b) world \<Rightarrow> ('t, 'b) world" where
  "issue rid key e W = W\<lparr>issued := (issued W)(rid \<mapsto> (key, e, crashes W))\<rparr>"

definition finish :: "outcome \<Rightarrow> ('t, 'b) world \<Rightarrow> ('t, 'b) world" where
  "finish res W = W\<lparr>outcomes := insert res (outcomes W)\<rparr>"

definition crash :: "string \<Rightarrow> 't node \<Rightarrow> ('t, 'b) world \<Rightarrow> ('t, 'b) world" where
  "crash n nd W = (put n nd [] W)\<lparr>crashes := (crashes W)(n := Suc (crashes W n))\<rparr>"

definition fresh_node :: "('t, 'b) env \<Rightarrow> Config \<Rightarrow> consistentHashring \<Rightarrow> 't node" where
  "fresh_node E c ring =
     \<lparr>nd_handler = Gossip.New c, nd_shared = \<lparr>sh_store = Store.New (env_tree E), sh_ring = ring\<rparr>, nd_waits = Map.empty\<rparr>"

definition initial :: "('t, 'b) env \<Rightarrow> ('t, 'b) world \<Rightarrow> bool" where
  "initial E W \<longleftrightarrow> net W = {} \<and> issued W = Map.empty \<and> outcomes W = {} \<and> crashes W = (\<lambda>_. 0) \<and>
     (\<forall>n. \<exists>c ring. cfg_NodeID c = n \<and> node_of W n = fresh_node E c ring)"

definition replica_ids :: "('t, 'b) env \<Rightarrow> string \<Rightarrow> Handler \<Rightarrow> 't Shared \<Rightarrow> string list" where
  "replica_ids E key h sh = map NodeID (GetReplicas (env_hash E) key (ReplicaRF (cfg h)) (sh_ring sh))"

text \<open>
  The steps: a store operation of a client, within the range of the version clock; the start of a quorum
  write, which returns at once or waits; the delivery of a message; a turn of a wait loop that goes on,
  returns, or meets the deadline; a round of anti-entropy; the two halves of a push-pull; the
  membership callbacks; and a crash, after which the node starts anew with nothing in memory.
\<close>

inductive cluster_step :: "('t, 'b) env \<Rightarrow> ('t, 'b) world \<Rightarrow> ('t, 'b) world \<Rightarrow> bool" for E where
  store_op: "node_of W n = \<lparr>nd_handler = h, nd_shared = sh, nd_waits = ws\<rparr> \<Longrightarrow> op_in_range x (sh_store sh) \<Longrightarrow>
    cluster_step E W (put n \<lparr>nd_handler = h, nd_shared = sh\<lparr>sh_store := apply_op (env_tree E) x (sh_store sh)\<rparr>, nd_waits = ws\<rparr> [] W)"
| write_returns: "node_of W n = \<lparr>nd_handler = h, nd_shared = sh, nd_waits = ws\<rparr> \<Longrightarrow> rid \<notin> dom (issued W) \<Longrightarrow>
    quorum_start E reach rid key e w (h, sh) = (Inl r, out, h', sh') \<Longrightarrow> rs = replica_ids E key h sh \<Longrightarrow>
    cluster_step E W (finish \<lparr>o_node = n, o_key = key, o_entry = e, o_replicas = rs, o_crashes = crashes W, o_need = w, o_result = r\<rparr>
      (issue rid key e (put n \<lparr>nd_handler = h', nd_shared = sh', nd_waits = ws\<rparr> out W)))"
| write_waits: "node_of W n = \<lparr>nd_handler = h, nd_shared = sh, nd_waits = ws\<rparr> \<Longrightarrow> rid \<notin> dom (issued W) \<Longrightarrow>
    quorum_start E reach rid key e w (h, sh) = (Inr wt, out, h', sh') \<Longrightarrow> rs = replica_ids E key h sh \<Longrightarrow>
    cluster_step E W
      (issue rid key e (put n \<lparr>nd_handler = h', nd_shared = sh', nd_waits = ws(rid \<mapsto> (wt, key, e, rs, crashes W))\<rparr> out W))"
| deliver: "node_of W n = \<lparr>nd_handler = h, nd_shared = sh, nd_waits = ws\<rparr> \<Longrightarrow> (n, b) \<in> net W \<Longrightarrow>
    handleMessage E b (h, sh) = (out, h', sh') \<Longrightarrow>
    cluster_step E W (put n \<lparr>nd_handler = h', nd_shared = sh', nd_waits = ws\<rparr> out W)"
| receive_waits: "node_of W n = \<lparr>nd_handler = h, nd_shared = sh, nd_waits = ws\<rparr> \<Longrightarrow> ws rid = Some (wt, key, e, rs, cs) \<Longrightarrow>
    wait_receive wt h = Some (Inr wt', h') \<Longrightarrow>
    cluster_step E W (put n \<lparr>nd_handler = h', nd_shared = sh, nd_waits = ws(rid \<mapsto> (wt', key, e, rs, cs))\<rparr> [] W)"
| receive_returns: "node_of W n = \<lparr>nd_handler = h, nd_shared = sh, nd_waits = ws\<rparr> \<Longrightarrow> ws rid = Some (wt, key, e, rs, cs) \<Longrightarrow>
    wait_receive wt h = Some (Inl r, h') \<Longrightarrow>
    cluster_step E W (finish \<lparr>o_node = n, o_key = key, o_entry = e, o_replicas = rs, o_crashes = cs, o_need = w_need wt, o_result = r\<rparr>
      (put n \<lparr>nd_handler = h', nd_shared = sh, nd_waits = ws(rid := None)\<rparr> [] W))"
| deadline: "node_of W n = \<lparr>nd_handler = h, nd_shared = sh, nd_waits = ws\<rparr> \<Longrightarrow> ws rid = Some (wt, key, e, rs, cs) \<Longrightarrow>
    wait_deadline wt h = (err, h') \<Longrightarrow>
    cluster_step E W (finish \<lparr>o_node = n, o_key = key, o_entry = e, o_replicas = rs, o_crashes = cs, o_need = w_need wt, o_result = Some err\<rparr>
      (put n \<lparr>nd_handler = h', nd_shared = sh, nd_waits = ws(rid := None)\<rparr> [] W))"
| anti_entropy: "node_of W n = \<lparr>nd_handler = h, nd_shared = sh, nd_waits = ws\<rparr> \<Longrightarrow>
    exchangeState E members (h, sh) = (out, h') \<Longrightarrow>
    cluster_step E W (put n \<lparr>nd_handler = h', nd_shared = sh, nd_waits = ws\<rparr> out W)"
| push_state: "node_of W n = \<lparr>nd_handler = h, nd_shared = sh, nd_waits = ws\<rparr> \<Longrightarrow> handleLocalState E sh = Some b \<Longrightarrow>
    cluster_step E W (put n \<lparr>nd_handler = h, nd_shared = sh, nd_waits = ws\<rparr> [(m, b)] W)"
| pull_state: "node_of W n = \<lparr>nd_handler = h, nd_shared = sh, nd_waits = ws\<rparr> \<Longrightarrow> (n, b) \<in> net W \<Longrightarrow>
    cluster_step E W (put n \<lparr>nd_handler = h, nd_shared = handleMergeRemoteState E b h sh, nd_waits = ws\<rparr> [] W)"
| node_joins: "node_of W n = \<lparr>nd_handler = h, nd_shared = sh, nd_waits = ws\<rparr> \<Longrightarrow>
    handleJoin E now m addr (h, sh) = (h', sh') \<Longrightarrow>
    cluster_step E W (put n \<lparr>nd_handler = h', nd_shared = sh', nd_waits = ws\<rparr> [] W)"
| node_leaves: "node_of W n = \<lparr>nd_handler = h, nd_shared = sh, nd_waits = ws\<rparr> \<Longrightarrow>
    handleLeave now m (h, sh) = (h', sh') \<Longrightarrow>
    cluster_step E W (put n \<lparr>nd_handler = h', nd_shared = sh', nd_waits = ws\<rparr> [] W)"
| node_updated: "node_of W n = \<lparr>nd_handler = h, nd_shared = sh, nd_waits = ws\<rparr> \<Longrightarrow>
    cluster_step E W (put n \<lparr>nd_handler = handleUpdate now m addr h, nd_shared = sh, nd_waits = ws\<rparr> [] W)"
| node_crashes: "cfg_NodeID c = n \<Longrightarrow> cluster_step E W (crash n (fresh_node E c ring) W)"

section \<open>The invariant of quorum writes\<close>

text \<open>
  Node \<open>n\<close>, if it has not crashed since it had crashed \<open>cs n\<close> times, holds an entry for \<open>key\<close> at least as new as \<open>e\<close>;
  node \<open>n\<close>, if it has not crashed since request \<open>rid\<close> was issued, holds what the request wrote.
\<close>

definition holds :: "('t, 'b) env \<Rightarrow> ('t, 'b) world \<Rightarrow> (string \<Rightarrow> nat) \<Rightarrow> string \<Rightarrow> string \<Rightarrow> Entry \<Rightarrow> bool" where
  "holds E W cs n key e \<longleftrightarrow> cs n \<le> crashes W n \<and>
     (crashes W n = cs n \<longrightarrow> (\<exists>e'. view E (nd_shared (node_of W n)) key = Some e' \<and> entry_rank e \<le> entry_rank e'))"

definition confirmed :: "('t, 'b) env \<Rightarrow> ('t, 'b) world \<Rightarrow> string \<Rightarrow> string \<Rightarrow> bool" where
  "confirmed E W rid n \<longleftrightarrow> (\<exists>key e cs. issued W rid = Some (key, e, cs) \<and> holds E W cs n key e)"

definition msg_ok :: "('t, 'b) env \<Rightarrow> ('t, 'b) world \<Rightarrow> 'b \<Rightarrow> bool" where
  "msg_ok E W b \<longleftrightarrow>
     (\<forall>req. unmarshal E b = Some (ReplicateReq req) \<longrightarrow>
        (\<exists>key e cs. issued W (RequestId req) = Some (key, e, cs) \<and> Entries req = [of_entry key e] \<and> cs \<le> crashes W)) \<and>
     (\<forall>r. unmarshal E b = Some (ReplicateResp r) \<and> Success r \<longrightarrow> confirmed E W (resp_RequestId r) (resp_NodeId r))"

definition handler_ok :: "('t, 'b) env \<Rightarrow> ('t, 'b) world \<Rightarrow> string \<Rightarrow> Handler \<Rightarrow> bool" where
  "handler_ok E W n h \<longleftrightarrow> node_id h = n \<and>
     (\<forall>rid ch a. pendingReqs h rid = Some ch \<and> a \<in> set (queue ch) \<and> \<not> ack_err a \<longrightarrow> confirmed E W rid (ack_nodeID a))"

definition waits_ok :: "('t, 'b) env \<Rightarrow> ('t, 'b) world \<Rightarrow> string
    \<Rightarrow> (string \<rightharpoonup> waiter \<times> string \<times> Entry \<times> string list \<times> (string \<Rightarrow> nat)) \<Rightarrow> bool" where
  "waits_ok E W n ws \<longleftrightarrow>
     (\<forall>rid wt key e rs cs. ws rid = Some (wt, key, e, rs, cs) \<longrightarrow>
        w_request wt = rid \<and> issued W rid = Some (key, e, cs) \<and> waiter_inv wt \<and> n \<notin> w_expected wt \<and> w_expected wt \<subseteq> set rs \<and>
        holds E W cs n key e \<and> (\<forall>m \<in> w_acked wt. holds E W cs m key e))"

definition durable :: "('t, 'b) env \<Rightarrow> ('t, 'b) world \<Rightarrow> outcome \<Rightarrow> bool" where
  "durable E W res \<longleftrightarrow> (o_result res = None \<longrightarrow>
     (\<exists>S. S \<subseteq> insert (o_node res) (set (o_replicas res)) \<and> o_node res \<in> S \<and> o_need res \<le> int (card S) \<and>
        (\<forall>m \<in> S. holds E W (o_crashes res) m (o_key res) (o_entry res))))"

definition cluster_inv :: "('t, 'b) env \<Rightarrow> ('t, 'b) world \<Rightarrow> bool" where
  "cluster_inv E W \<longleftrightarrow>
     (\<forall>n. handler_ok E W n (nd_handler (node_of W n)) \<and> waits_ok E W n (nd_waits (node_of W n)) \<and>
        clock_inv (env_tree E) (sh_store (nd_shared (node_of W n)))) \<and>
     (\<forall>(d, b) \<in> net W. msg_ok E W b) \<and> (\<forall>res \<in> outcomes W. durable E W res)"

text \<open>Every part of the invariant survives when nodes learn newer entries or crash and requests are issued.\<close>

definition grows :: "('t, 'b) env \<Rightarrow> ('t, 'b) world \<Rightarrow> ('t, 'b) world \<Rightarrow> bool" where
  "grows E W W' \<longleftrightarrow> issued W \<subseteq>\<^sub>m issued W' \<and> crashes W \<le> crashes W' \<and>
     (\<forall>n. crashes W' n = crashes W n \<longrightarrow> map_newer_eq (view E (nd_shared (node_of W n))) (view E (nd_shared (node_of W' n))))"

lemma holds_grows:
  assumes "grows E W W'" and "holds E W cs n key e"
  shows "holds E W' cs n key e"
proof -
  have le: "cs n \<le> crashes W n" "crashes W n \<le> crashes W' n" using assms by (simp_all add: holds_def grows_def le_fun_def)
  show ?thesis
  proof (cases "crashes W' n = cs n")
    case True
    then have "crashes W' n = crashes W n" "crashes W n = cs n" using le by simp_all
    then show ?thesis using assms le unfolding grows_def holds_def map_newer_eq_def by (metis order_trans)
  qed (use le in \<open>simp add: holds_def\<close>)
qed

lemma crashes_grows: "grows E W W' \<Longrightarrow> cs \<le> crashes W \<Longrightarrow> cs \<le> crashes W'"
  unfolding grows_def by (meson order_trans)

lemma issued_grows: "grows E W W' \<Longrightarrow> issued W rid = Some x \<Longrightarrow> issued W' rid = Some x"
  unfolding grows_def map_le_def by (metis domI)

lemma confirmed_grows: "grows E W W' \<Longrightarrow> confirmed E W rid n \<Longrightarrow> confirmed E W' rid n"
  unfolding confirmed_def using holds_grows issued_grows by blast

lemma msg_ok_grows: "grows E W W' \<Longrightarrow> msg_ok E W b \<Longrightarrow> msg_ok E W' b"
  unfolding msg_ok_def using confirmed_grows issued_grows crashes_grows by meson

lemma handler_ok_grows: "grows E W W' \<Longrightarrow> handler_ok E W n h \<Longrightarrow> handler_ok E W' n h"
  unfolding handler_ok_def using confirmed_grows by meson

lemma waits_ok_grows: "grows E W W' \<Longrightarrow> waits_ok E W n ws \<Longrightarrow> waits_ok E W' n ws"
  unfolding waits_ok_def using holds_grows issued_grows by meson

lemma durable_grows: "grows E W W' \<Longrightarrow> durable E W res \<Longrightarrow> durable E W' res"
  unfolding durable_def using holds_grows by meson

lemmas grows_rules = msg_ok_grows handler_ok_grows waits_ok_grows durable_grows

lemma world_sel [simp]:
  "node_of (put n nd out W) = (node_of W)(n := nd)" "net (put n nd out W) = net W \<union> set out"
  "issued (put n nd out W) = issued W" "outcomes (put n nd out W) = outcomes W"
  "node_of (issue rid key e W) = node_of W" "net (issue rid key e W) = net W"
  "issued (issue rid key e W) = (issued W)(rid \<mapsto> (key, e, crashes W))" "outcomes (issue rid key e W) = outcomes W"
  "node_of (finish res W) = node_of W" "net (finish res W) = net W"
  "issued (finish res W) = issued W" "outcomes (finish res W) = insert res (outcomes W)"
  "crashes (put n nd out W) = crashes W" "crashes (issue rid key e W) = crashes W" "crashes (finish res W) = crashes W"
  "node_of (crash n nd W) = (node_of W)(n := nd)" "net (crash n nd W) = net W" "issued (crash n nd W) = issued W"
  "outcomes (crash n nd W) = outcomes W" "crashes (crash n nd W) = (crashes W)(n := Suc (crashes W n))"
  by (simp_all add: put_def issue_def finish_def crash_def)

text \<open>The frame of a step: what is left to show concerns the node that moved.\<close>

lemma cluster_inv_step:
  assumes "cluster_inv E W" and "node_of W' = (node_of W)(n := nd)" and "issued W \<subseteq>\<^sub>m issued W'"
    and "crashes W \<le> crashes W' \<and> (crashes W' n = crashes W n \<longrightarrow> map_newer_eq (view E (nd_shared (node_of W n))) (view E (nd_shared nd)))"
    and "net W' = net W \<union> set out" and "outcomes W' = outcomes W \<union> R"
    and "grows E W W' \<Longrightarrow> handler_ok E W' n (nd_handler nd)"
    and "grows E W W' \<Longrightarrow> waits_ok E W' n (nd_waits nd)"
    and "clock_inv (env_tree E) (sh_store (nd_shared nd))"
    and "\<And>d b. grows E W W' \<Longrightarrow> (d, b) \<in> set out \<Longrightarrow> msg_ok E W' b"
    and "\<And>res. grows E W W' \<Longrightarrow> res \<in> R \<Longrightarrow> durable E W' res"
  shows "cluster_inv E W'"
proof -
  have g: "grows E W W'" using assms(2-4) by (simp add: grows_def)
  note new = assms(7,8,10,11) [OF g]
  have old: "handler_ok E W' m (nd_handler (node_of W m))" "waits_ok E W' m (nd_waits (node_of W m))"
    "clock_inv (env_tree E) (sh_store (nd_shared (node_of W m)))" for m
    using assms(1) grows_rules [OF g] by (auto simp: cluster_inv_def)
  have msgs: "msg_ok E W' b" if "(d, b) \<in> net W'" for d b
    using that assms(1,5) new(3) msg_ok_grows [OF g] by (auto simp: cluster_inv_def)
  have res: "durable E W' res" if "res \<in> outcomes W'" for res
    using that assms(1,6) new(4) durable_grows [OF g] by (auto simp: cluster_inv_def)
  show ?thesis
    unfolding cluster_inv_def using old new(1,2) assms(2,9) msgs res by auto
qed

section \<open>What the handlers keep\<close>

lemma handler_ok_same:
  "handler_ok E W n h \<Longrightarrow> node_id h' = node_id h \<Longrightarrow> pendingReqs h' = pendingReqs h \<Longrightarrow> handler_ok E W n h'"
  unfolding handler_ok_def by metis

lemma handler_okD:
  "handler_ok E W n h \<Longrightarrow> pendingReqs h rid = Some ch \<Longrightarrow> a \<in> set (queue ch) \<Longrightarrow> \<not> ack_err a \<Longrightarrow>
    confirmed E W rid (ack_nodeID a)"
  unfolding handler_ok_def by blast

lemma handler_ok_forget: "handler_ok E W n h \<Longrightarrow> handler_ok E W n (h\<lparr>pendingReqs := (pendingReqs h)(rid := None)\<rparr>)"
  by (auto simp: handler_ok_def node_id_def)

lemma handler_ok_queue:
  assumes "handler_ok E W n h"
    and "\<And>a. a \<in> set (queue ch) \<Longrightarrow> \<not> ack_err a \<Longrightarrow> confirmed E W rid (ack_nodeID a)"
  shows "handler_ok E W n (h\<lparr>pendingReqs := (pendingReqs h)(rid \<mapsto> ch)\<rparr>)"
  using assms by (auto simp: handler_ok_def node_id_def)

lemma handleReplicateResponse_ok:
  assumes "handler_ok E W n h" and "Success r \<Longrightarrow> confirmed E W (resp_RequestId r) (resp_NodeId r)"
  shows "handler_ok E W n (handleReplicateResponse r h)"
proof (cases "pendingReqs h (resp_RequestId r)")
  case None
  with assms show ?thesis by (simp add: handleReplicateResponse_def)
next
  case (Some ch)
  let ?a = "\<lparr>ack_nodeID = resp_NodeId r, ack_err = (\<not> Success r)\<rparr>"
  have "handler_ok E W n (h\<lparr>pendingReqs := (pendingReqs h)(resp_RequestId r \<mapsto> try_send ?a ch)\<rparr>)"
    using assms handler_okD [OF assms(1) Some]
    by (intro handler_ok_queue) (auto simp: try_send_def split: if_splits)
  with Some show ?thesis by (simp add: handleReplicateResponse_def)
qed

lemma exchangeState_keeps:
  assumes "exchangeState E members (h, sh) = (out, h')"
  shows "node_id h' = node_id h" "pendingReqs h' = pendingReqs h"
    "(d, b) \<in> set out \<Longrightarrow> \<exists>es. marshal E (EntryBatch es) = Some b"
  using assms by (auto simp: exchangeState_def serializeStore_def node_id_def Let_def split: option.splits if_splits)

lemma PushEvent_keeps [simp]: "node_id (PushEvent e h) = node_id h" "pendingReqs (PushEvent e h) = pendingReqs h"
  by (simp_all add: PushEvent_def node_id_def)

lemma waits_ok_upd:
  assumes "waits_ok E W n ws"
    and "w_request wt = rid" "issued W rid = Some (key, e, cs)" "waiter_inv wt" "n \<notin> w_expected wt" "w_expected wt \<subseteq> set rs"
      "holds E W cs n key e" "\<And>m. m \<in> w_acked wt \<Longrightarrow> holds E W cs m key e"
  shows "waits_ok E W n (ws(rid \<mapsto> (wt, key, e, rs, cs)))"
  using assms by (auto simp: waits_ok_def)

lemma waits_ok_forget: "waits_ok E W n ws \<Longrightarrow> waits_ok E W n (ws(rid := None))"
  by (auto simp: waits_ok_def)

text \<open>An acknowledgement taken from the channel of a request is counted only for a node that holds the entry.\<close>

lemma count_ack_holds:
  assumes "handler_ok E W n h" and "pendingReqs h (w_request wt) = Some ch" and "res \<in> set (queue ch)"
    and "issued W (w_request wt) = Some (key, e, cs)" and "\<And>m. m \<in> w_acked wt \<Longrightarrow> holds E W cs m key e"
    and "m \<in> w_acked (count_ack res wt)"
  shows "holds E W cs m key e"
proof (cases "m \<in> w_acked wt")
  case False
  then have m: "m = ack_nodeID res" "\<not> ack_err res" using assms(6) by (auto simp: count_ack_def split: if_splits)
  then have "confirmed E W (w_request wt) m" using handler_okD [OF assms(1-3)] by simp
  with assms(4) show ?thesis by (auto simp: confirmed_def)
qed (rule assms(5))

lemma durable_acked:
  assumes "waiter_inv wt" and "n \<notin> w_expected wt" and "w_expected wt \<subseteq> set rs" and "w_need wt \<le> w_acks wt"
    and "holds E W cs n key e" and "\<And>m. m \<in> w_acked wt \<Longrightarrow> holds E W cs m key e"
  shows "durable E W \<lparr>o_node = n, o_key = key, o_entry = e, o_replicas = rs, o_crashes = cs, o_need = w_need wt, o_result = r\<rparr>"
proof -
  have "n \<notin> w_acked wt" "finite (w_acked wt)" using assms(1,2) finite_acked [OF assms(1)] by (auto simp: waiter_inv_def)
  then have "w_need wt \<le> int (card (insert n (w_acked wt)))" using assms(1,4) by (simp add: waiter_inv_def)
  moreover have "insert n (w_acked wt) \<subseteq> insert n (set rs)" using assms(1,3) by (auto simp: waiter_inv_def)
  ultimately show ?thesis
    using assms(5,6) unfolding durable_def by (intro impI exI [of _ "insert n (w_acked wt)"]) auto
qed

lemma wait_receive_cases:
  assumes "wait_receive wt h = Some (q, h')"
  obtains ch res rest where "pendingReqs h (w_request wt) = Some ch" "queue ch = res # rest"
    "q = (if w_acks (count_ack res wt) < w_need wt then Inr (count_ack res wt) else Inl None)"
    "\<And>E W n. handler_ok E W n h \<Longrightarrow> handler_ok E W n h'"
proof -
  obtain ch res rest where c: "pendingReqs h (w_request wt) = Some ch" "queue ch = res # rest"
    using assms by (auto simp: wait_receive_def split: option.splits list.splits)
  let ?h = "h\<lparr>pendingReqs := (pendingReqs h)(w_request wt \<mapsto> ch\<lparr>queue := rest\<rparr>)\<rparr>"
  have q: "q = (if w_acks (count_ack res wt) < w_need wt then Inr (count_ack res wt) else Inl None)"
    "h' = ?h \<or> h' = remove_pending (w_request wt) ?h"
    using assms c by (auto simp: wait_receive_def Let_def split: if_splits)
  have "handler_ok E W n ?h" if "handler_ok E W n h" for E :: "('x, 'y) env" and W n
    using that c handler_okD [OF that c(1)] by (intro handler_ok_queue) auto
  then have "handler_ok E W n h'" if "handler_ok E W n h" for E :: "('x, 'y) env" and W n
    using that q(2) handler_ok_forget unfolding remove_pending_def by fastforce
  with c q(1) that show thesis by blast
qed

context gossip_env
begin

lemma clock_inv_set_with_version:
  "clock_inv (env_tree E) (sh_store sh) \<Longrightarrow> clock_inv (env_tree E) (sh_store (set_with_version E k e sh))"
  using ordered_tree.clock_inv_SetWithVersion [OF tree] by (simp add: set_with_version_def)

lemma clock_inv_HandleReplication:
  "clock_inv (env_tree E) (sh_store sh) \<Longrightarrow> clock_inv (env_tree E) (sh_store (HandleReplication E h es sh))"
  by (induction es arbitrary: sh) (simp_all add: clock_inv_set_with_version)

lemma clock_inv_apply_request:
  "clock_inv (env_tree E) (sh_store sh) \<Longrightarrow> apply_request E h es sh = (ok, sh') \<Longrightarrow> clock_inv (env_tree E) (sh_store sh')"
proof (induction es arbitrary: sh)
  case (Cons p es)
  show ?case
    using Cons.IH [OF clock_inv_set_with_version [OF Cons.prems(1)]] Cons.prems by (auto split: if_splits)
qed simp

lemma handleMergeRemoteState_keeps:
  "map_newer_eq (view E sh) (view E (handleMergeRemoteState E b h sh))"
  "clock_inv (env_tree E) (sh_store sh) \<Longrightarrow> clock_inv (env_tree E) (sh_store (handleMergeRemoteState E b h sh))"
  by (auto simp: handleMergeRemoteState_def HandleReplication_extensive clock_inv_HandleReplication
      split: option.split GossipMessage.split)

lemma handleMessage_keeps:
  assumes "handleMessage E b (h, sh) = (out, h', sh')"
  shows "map_newer_eq (view E sh) (view E sh')"
    and "clock_inv (env_tree E) (sh_store sh) \<Longrightarrow> clock_inv (env_tree E) (sh_store sh')"
    and "h' = h \<or> (\<exists>r. unmarshal E b = Some (ReplicateResp r) \<and> h' = handleReplicateResponse r h)"
  using assms
  by (auto simp: handleMessage_def handleReplicateRequest_def HandleReplication_extensive clock_inv_HandleReplication
      clock_inv_apply_request apply_request_extensive split: option.splits GossipMessage.splits prod.splits)

text \<open>A node answers only requests, and with success only if it holds what the request carries.\<close>

lemma handleMessage_sends:
  assumes "handleMessage E b (h, sh) = (out, h', sh')" and "(d, b') \<in> set out"
  obtains req r where "unmarshal E b = Some (ReplicateReq req)" "unmarshal E b' = Some (ReplicateResp r)"
    "resp_RequestId r = RequestId req" "resp_NodeId r = node_id h"
    "\<And>p. Success r \<Longrightarrow> p \<in> set (Entries req) \<Longrightarrow>
      \<exists>e'. view E sh' (pb_Key p) = Some e' \<and> entry_rank (to_entry p) \<le> entry_rank e'"
proof -
  obtain req ok where req: "unmarshal E b = Some (ReplicateReq req)" "apply_request E h (Entries req) sh = (ok, sh')"
    "marshal E (ReplicateResp \<lparr>resp_RequestId = RequestId req, resp_NodeId = node_id h, Success = ok\<rparr>) = Some b'"
    using assms by (auto simp: handleMessage_def handleReplicateRequest_def
        split: option.splits GossipMessage.splits prod.splits)
  show thesis
    by (rule that [OF req(1) codec [OF req(3)]]) (use apply_request_covers req(2) in auto)
qed

end

section \<open>Every step keeps the invariant\<close>

lemma cluster_invD:
  assumes "cluster_inv E W" and "node_of W n = \<lparr>nd_handler = h, nd_shared = sh, nd_waits = ws\<rparr>"
  shows "handler_ok E W n h" "waits_ok E W n ws" "clock_inv (env_tree E) (sh_store sh)"
  using assms unfolding cluster_inv_def by (metis node.select_convs)+

lemma cluster_inv_msg: "cluster_inv E W \<Longrightarrow> (d, b) \<in> net W \<Longrightarrow> msg_ok E W b"
  by (auto simp: cluster_inv_def)

lemma msg_ok_batch: "unmarshal E b = Some (EntryBatch es) \<Longrightarrow> msg_ok E W b"
  by (simp add: msg_ok_def)

context gossip_env
begin

lemma inv_quiet:
  assumes "cluster_inv E W" and "node_of W n = \<lparr>nd_handler = h, nd_shared = sh, nd_waits = ws\<rparr>"
    and "map_newer_eq (view E sh) (view E sh')" and "clock_inv (env_tree E) (sh_store sh')"
    and "node_id h' = node_id h" and "pendingReqs h' = pendingReqs h"
    and "\<And>d b. (d, b) \<in> set out \<Longrightarrow> \<exists>es. marshal E (EntryBatch es) = Some b"
  shows "cluster_inv E (put n \<lparr>nd_handler = h', nd_shared = sh', nd_waits = ws\<rparr> out W)"
proof (rule cluster_inv_step [where W = W and n = n and out = out and R = "{}"])
  note inv = cluster_invD [OF assms(1,2)]
  let ?W = "put n \<lparr>nd_handler = h', nd_shared = sh', nd_waits = ws\<rparr> out W"
  show "handler_ok E ?W n (nd_handler \<lparr>nd_handler = h', nd_shared = sh', nd_waits = ws\<rparr>)" if "grows E W ?W"
    using handler_ok_same [OF handler_ok_grows [OF that inv(1)] assms(5,6)] by simp
  show "waits_ok E ?W n (nd_waits \<lparr>nd_handler = h', nd_shared = sh', nd_waits = ws\<rparr>)" if "grows E W ?W"
    using waits_ok_grows [OF that inv(2)] by simp
  show "msg_ok E ?W b" if sent: "(d, b) \<in> set out" for d b
  proof -
    obtain es where "marshal E (EntryBatch es) = Some b" using assms(7) [OF sent] by blast
    then show ?thesis by (rule msg_ok_batch [OF codec])
  qed
qed (use assms in simp_all)

lemma inv_deliver:
  assumes "cluster_inv E W" and "node_of W n = \<lparr>nd_handler = h, nd_shared = sh, nd_waits = ws\<rparr>"
    and "(n, b) \<in> net W" and "handleMessage E b (h, sh) = (out, h', sh')"
  shows "cluster_inv E (put n \<lparr>nd_handler = h', nd_shared = sh', nd_waits = ws\<rparr> out W)"
proof (rule cluster_inv_step [where W = W and n = n and out = out and R = "{}"])
  note inv = cluster_invD [OF assms(1,2)] and msg = cluster_inv_msg [OF assms(1,3)]
  let ?nd = "\<lparr>nd_handler = h', nd_shared = sh', nd_waits = ws\<rparr>"
  let ?W = "put n ?nd out W"
  show "handler_ok E ?W n (nd_handler ?nd)" if g: "grows E W ?W"
  proof (cases "h' = h")
    case True
    then show ?thesis using handler_ok_grows [OF g inv(1)] by simp
  next
    case False
    then obtain r where r: "unmarshal E b = Some (ReplicateResp r)" "h' = handleReplicateResponse r h"
      using handleMessage_keeps(3) [OF assms(4)] by blast
    have "confirmed E ?W (resp_RequestId r) (resp_NodeId r)" if "Success r"
      using that r(1) msg_ok_grows [OF g msg] by (simp add: msg_ok_def)
    from handleReplicateResponse_ok [OF handler_ok_grows [OF g inv(1)] this] show ?thesis by (simp add: r(2))
  qed
  show "waits_ok E ?W n (nd_waits ?nd)" if "grows E W ?W" using waits_ok_grows [OF that inv(2)] by simp
  show "msg_ok E ?W b'" if sent: "(d, b') \<in> set out" and g: "grows E W ?W" for d b'
  proof -
    obtain req r where q: "unmarshal E b = Some (ReplicateReq req)" "unmarshal E b' = Some (ReplicateResp r)"
      "resp_RequestId r = RequestId req" "resp_NodeId r = node_id h"
      and cov: "\<And>p. Success r \<Longrightarrow> p \<in> set (Entries req) \<Longrightarrow>
        \<exists>e'. view E sh' (pb_Key p) = Some e' \<and> entry_rank (to_entry p) \<le> entry_rank e'"
      using handleMessage_sends [OF assms(4) sent] by blast
    obtain key e cs where e: "issued ?W (RequestId req) = Some (key, e, cs)" "Entries req = [of_entry key e]" "cs \<le> crashes ?W"
      using msg q(1) by (auto simp: msg_ok_def)
    have n: "node_id h = n" using inv(1) by (simp add: handler_ok_def)
    have "confirmed E ?W (RequestId req) n" if "Success r"
      using cov [OF that, of "of_entry key e"] e by (auto simp: confirmed_def holds_def le_fun_def)
    then show ?thesis using q n by (simp add: msg_ok_def)
  qed
qed (use assms handleMessage_keeps [OF assms(4)] cluster_invD [OF assms(1,2)] in simp_all)

lemma quorum_start_holds:
  assumes "quorum_start E reach rid key e w (h, sh) = (q, out, h', sh')"
  shows "map_newer_eq (view E sh) (view E sh')" "\<exists>e'. view E sh' key = Some e' \<and> entry_rank e \<le> entry_rank e'"
    "clock_inv (env_tree E) (sh_store sh) \<Longrightarrow> clock_inv (env_tree E) (sh_store sh')"
  using quorum_start_shared [OF assms] lww_put_extensive lww_put_covers clock_inv_set_with_version
  by (simp_all add: view_set_with_version)

lemma quorum_start_msg_ok:
  assumes "quorum_start E reach rid key e w (h, sh) = (q, out, h', sh')" and "(d, b) \<in> set out"
    and "issued W rid = Some (key, e, cs)" and "cs \<le> crashes W"
  shows "msg_ok E W b"
  using codec [OF quorum_start_sends [OF assms(1,2)]] assms(3,4) by (simp add: msg_ok_def)

lemma quorum_start_handler_ok:
  assumes "quorum_start E reach rid key e w (h, sh) = (q, out, h', sh')" and "handler_ok E W n h"
  shows "handler_ok E W n h'"
proof -
  have "h' = h \<or> h' = h\<lparr>pendingReqs := (pendingReqs h)(rid := None)\<rparr> \<or>
      (\<exists>c. h' = h\<lparr>pendingReqs := (pendingReqs h)(rid \<mapsto> \<lparr>capacity = c, queue = []\<rparr>)\<rparr>)"
    using assms(1) by (auto simp: quorum_start_def Let_def split: if_splits option.splits)
  then show ?thesis using assms(2) handler_ok_forget handler_ok_queue by fastforce
qed

lemma issue_le: "rid \<notin> dom (issued W) \<Longrightarrow> issued W \<subseteq>\<^sub>m (issued W)(rid \<mapsto> x)"
  by (auto simp: map_le_def)

lemma inv_write_returns:
  assumes "cluster_inv E W" and "node_of W n = \<lparr>nd_handler = h, nd_shared = sh, nd_waits = ws\<rparr>"
    and "rid \<notin> dom (issued W)" and "quorum_start E reach rid key e w (h, sh) = (Inl r, out, h', sh')"
  shows "cluster_inv E (finish \<lparr>o_node = n, o_key = key, o_entry = e, o_replicas = rs, o_crashes = crashes W, o_need = w, o_result = r\<rparr>
      (issue rid key e (put n \<lparr>nd_handler = h', nd_shared = sh', nd_waits = ws\<rparr> out W)))" (is "cluster_inv E ?W")
proof (rule cluster_inv_step [where W = W and n = n and out = out
      and R = "{\<lparr>o_node = n, o_key = key, o_entry = e, o_replicas = rs, o_crashes = crashes W, o_need = w, o_result = r\<rparr>}"])
  note inv = cluster_invD [OF assms(1,2)] and q = quorum_start_holds [OF assms(4)]
  let ?nd = "\<lparr>nd_handler = h', nd_shared = sh', nd_waits = ws\<rparr>"
  show "handler_ok E ?W n (nd_handler ?nd)" if "grows E W ?W"
    using quorum_start_handler_ok [OF assms(4) handler_ok_grows [OF that inv(1)]] by simp
  show "waits_ok E ?W n (nd_waits ?nd)" if "grows E W ?W" using waits_ok_grows [OF that inv(2)] by simp
  show "msg_ok E ?W b" if "(d, b) \<in> set out" for d b by (rule quorum_start_msg_ok [OF assms(4) that, where cs = "crashes W"]) simp_all
  show "durable E ?W res" if "res \<in> {\<lparr>o_node = n, o_key = key, o_entry = e, o_replicas = rs, o_crashes = crashes W, o_need = w, o_result = r\<rparr>}" for res
    using that q(2) quorum_start_early(1) [OF assms(4)] unfolding durable_def
    by (auto simp: holds_def intro!: exI [of _ "{n}"])
qed (use assms quorum_start_holds [OF assms(4)] cluster_invD [OF assms(1,2)] issue_le in simp_all)

lemma inv_write_waits:
  assumes "cluster_inv E W" and "node_of W n = \<lparr>nd_handler = h, nd_shared = sh, nd_waits = ws\<rparr>"
    and "rid \<notin> dom (issued W)" and "quorum_start E reach rid key e w (h, sh) = (Inr wt, out, h', sh')"
    and "rs = replica_ids E key h sh"
  shows "cluster_inv E
      (issue rid key e (put n \<lparr>nd_handler = h', nd_shared = sh', nd_waits = ws(rid \<mapsto> (wt, key, e, rs, crashes W))\<rparr> out W))"
    (is "cluster_inv E ?W")
proof (rule cluster_inv_step [where W = W and n = n and out = out and R = "{}"])
  note inv = cluster_invD [OF assms(1,2)] and q = quorum_start_holds [OF assms(4)] and w = quorum_start_waits [OF assms(4)]
  let ?nd = "\<lparr>nd_handler = h', nd_shared = sh', nd_waits = ws(rid \<mapsto> (wt, key, e, rs, crashes W))\<rparr>"
  show "handler_ok E ?W n (nd_handler ?nd)" if "grows E W ?W"
    using quorum_start_handler_ok [OF assms(4) handler_ok_grows [OF that inv(1)]] by simp
  have "n \<notin> reached E reach key (h, sh)" "reached E reach key (h, sh) \<subseteq> set rs"
    using inv(1) assms(5) by (auto simp: reached_def remote_replicas_def handler_ok_def replica_ids_def)
  then have "waits_ok E ?W n (ws(rid \<mapsto> (wt, key, e, rs, crashes W)))" if "grows E W ?W"
    using waits_ok_grows [OF that inv(2)] w q(2) by (intro waits_ok_upd) (auto simp: holds_def)
  then show "waits_ok E ?W n (nd_waits ?nd)" if "grows E W ?W" using that by simp
  show "msg_ok E ?W b" if "(d, b) \<in> set out" for d b by (rule quorum_start_msg_ok [OF assms(4) that, where cs = "crashes W"]) simp_all
qed (use assms quorum_start_holds [OF assms(4)] cluster_invD [OF assms(1,2)] issue_le in simp_all)

lemma inv_receive_waits:
  assumes "cluster_inv E W" and "node_of W n = \<lparr>nd_handler = h, nd_shared = sh, nd_waits = ws\<rparr>"
    and "ws rid = Some (wt, key, e, rs, cs)" and "wait_receive wt h = Some (Inr wt', h')"
  shows "cluster_inv E (put n \<lparr>nd_handler = h', nd_shared = sh, nd_waits = ws(rid \<mapsto> (wt', key, e, rs, cs))\<rparr> [] W)"
    (is "cluster_inv E ?W")
proof (rule cluster_inv_step [where W = W and n = n and out = "[]" and R = "{}"])
  note inv = cluster_invD [OF assms(1,2)]
  let ?nd = "\<lparr>nd_handler = h', nd_shared = sh, nd_waits = ws(rid \<mapsto> (wt', key, e, rs, cs))\<rparr>"
  obtain ch res rest where r: "pendingReqs h (w_request wt) = Some ch" "res \<in> set (queue ch)" "wt' = count_ack res wt"
    and ok: "\<And>W. handler_ok E W n h \<Longrightarrow> handler_ok E W n h'"
    using wait_receive_cases [OF assms(4)] by (metis Inl_Inr_False list.set_intros(1) sum.inject(2))
  show "handler_ok E ?W n (nd_handler ?nd)" if "grows E W ?W" using ok [OF handler_ok_grows [OF that inv(1)]] by simp
  have w: "w_request wt = rid" "issued W rid = Some (key, e, cs)" "waiter_inv wt" "n \<notin> w_expected wt" "w_expected wt \<subseteq> set rs" "holds E W cs n key e"
    "\<And>m. m \<in> w_acked wt \<Longrightarrow> holds E W cs m key e"
    using inv(2) assms(3) unfolding waits_ok_def by blast+
  have "holds E W cs m key e" if "m \<in> w_acked wt'" for m
    by (rule count_ack_holds [OF inv(1) r(1,2) _ w(7)]) (use that w(1,2) r(3) in simp_all)
  then have "waits_ok E W n (ws(rid \<mapsto> (wt', key, e, rs, cs)))"
    using inv(2) w waiter_inv_count_ack [OF w(3)] by (intro waits_ok_upd) (simp_all add: r(3))
  then show "waits_ok E ?W n (nd_waits ?nd)" if "grows E W ?W" using waits_ok_grows [OF that] by simp
qed (use assms cluster_invD [OF assms(1,2)] in simp_all)

lemma inv_receive_returns:
  assumes "cluster_inv E W" and "node_of W n = \<lparr>nd_handler = h, nd_shared = sh, nd_waits = ws\<rparr>"
    and "ws rid = Some (wt, key, e, rs, cs)" and "wait_receive wt h = Some (Inl r, h')"
  shows "cluster_inv E (finish \<lparr>o_node = n, o_key = key, o_entry = e, o_replicas = rs, o_crashes = cs, o_need = w_need wt, o_result = r\<rparr>
      (put n \<lparr>nd_handler = h', nd_shared = sh, nd_waits = ws(rid := None)\<rparr> [] W))" (is "cluster_inv E ?W")
proof (rule cluster_inv_step [where W = W and n = n and out = "[]"
      and R = "{\<lparr>o_node = n, o_key = key, o_entry = e, o_replicas = rs, o_crashes = cs, o_need = w_need wt, o_result = r\<rparr>}"])
  note inv = cluster_invD [OF assms(1,2)]
  let ?nd = "\<lparr>nd_handler = h', nd_shared = sh, nd_waits = ws(rid := None)\<rparr>"
  obtain ch res rest where c: "pendingReqs h (w_request wt) = Some ch" "res \<in> set (queue ch)"
      "\<not> w_acks (count_ack res wt) < w_need wt" and ok: "\<And>W. handler_ok E W n h \<Longrightarrow> handler_ok E W n h'"
    using wait_receive_cases [OF assms(4)] by (metis Inl_Inr_False list.set_intros(1))
  show "handler_ok E ?W n (nd_handler ?nd)" if "grows E W ?W" using ok [OF handler_ok_grows [OF that inv(1)]] by simp
  show "waits_ok E ?W n (nd_waits ?nd)" if "grows E W ?W"
    using waits_ok_forget [OF waits_ok_grows [OF that inv(2)]] by simp
  have w: "w_request wt = rid" "issued W rid = Some (key, e, cs)" "waiter_inv wt" "n \<notin> w_expected wt" "w_expected wt \<subseteq> set rs" "holds E W cs n key e"
    "\<And>m. m \<in> w_acked wt \<Longrightarrow> holds E W cs m key e"
    using inv(2) assms(3) unfolding waits_ok_def by blast+
  have "holds E W cs m key e" if "m \<in> w_acked (count_ack res wt)" for m
    by (rule count_ack_holds [OF inv(1) c(1,2) _ w(7) that]) (use w(1,2) in simp_all)
  then have "durable E W \<lparr>o_node = n, o_key = key, o_entry = e, o_replicas = rs, o_crashes = cs, o_need = w_need (count_ack res wt), o_result = r\<rparr>"
    using waiter_inv_count_ack [OF w(3)] w(4-6) c(3) by (intro durable_acked) simp_all
  then show "durable E ?W res" if "grows E W ?W"
    "res \<in> {\<lparr>o_node = n, o_key = key, o_entry = e, o_replicas = rs, o_crashes = cs, o_need = w_need wt, o_result = r\<rparr>}" for res
    using that(2) durable_grows [OF that(1)] by simp
qed (use assms cluster_invD [OF assms(1,2)] in simp_all)

lemma inv_deadline:
  assumes "cluster_inv E W" and "node_of W n = \<lparr>nd_handler = h, nd_shared = sh, nd_waits = ws\<rparr>"
    and "ws rid = Some (wt, key, e, rs, cs)" and "wait_deadline wt h = (err, h')"
  shows "cluster_inv E (finish \<lparr>o_node = n, o_key = key, o_entry = e, o_replicas = rs, o_crashes = cs, o_need = w_need wt, o_result = Some err\<rparr>
      (put n \<lparr>nd_handler = h', nd_shared = sh, nd_waits = ws(rid := None)\<rparr> [] W))" (is "cluster_inv E ?W")
proof (rule cluster_inv_step [where W = W and n = n and out = "[]"
      and R = "{\<lparr>o_node = n, o_key = key, o_entry = e, o_replicas = rs, o_crashes = cs, o_need = w_need wt, o_result = Some err\<rparr>}"])
  note inv = cluster_invD [OF assms(1,2)]
  let ?nd = "\<lparr>nd_handler = h', nd_shared = sh, nd_waits = ws(rid := None)\<rparr>"
  show "handler_ok E ?W n (nd_handler ?nd)" if "grows E W ?W"
    using handler_ok_forget [OF handler_ok_grows [OF that inv(1)]] assms(4)
    by (auto simp: wait_deadline_def remove_pending_def)
  show "waits_ok E ?W n (nd_waits ?nd)" if "grows E W ?W"
    using waits_ok_forget [OF waits_ok_grows [OF that inv(2)]] by simp
qed (use assms cluster_invD [OF assms(1,2)] in \<open>simp_all add: durable_def\<close>)

lemma fresh_node_ok:
  assumes "cfg_NodeID c = n"
  shows "handler_ok E W n (nd_handler (fresh_node E c ring))" "waits_ok E W n (nd_waits (fresh_node E c ring))"
    "clock_inv (env_tree E) (sh_store (nd_shared (fresh_node E c ring)))"
  using assms ordered_tree.contents_New [OF tree]
  by (auto simp: fresh_node_def handler_ok_def waits_ok_def clock_inv_def Gossip.New_def node_id_def Let_def)

lemma inv_crash:
  assumes "cluster_inv E W" and "cfg_NodeID c = n"
  shows "cluster_inv E (crash n (fresh_node E c ring) W)"
  by (rule cluster_inv_step [where W = W and n = n and out = "[]" and R = "{}"])
    (use assms fresh_node_ok [OF assms(2)] in \<open>auto simp: le_fun_def\<close>)

lemma cluster_inv_initial: "initial E W \<Longrightarrow> cluster_inv E W"
proof -
  assume init: "initial E W"
  have "handler_ok E W n (nd_handler (node_of W n)) \<and> waits_ok E W n (nd_waits (node_of W n)) \<and>
      clock_inv (env_tree E) (sh_store (nd_shared (node_of W n)))" for n
  proof -
    obtain c ring where "cfg_NodeID c = n" "node_of W n = fresh_node E c ring"
      using init unfolding initial_def by blast
    then show ?thesis using fresh_node_ok by simp
  qed
  then show ?thesis using init by (simp add: cluster_inv_def initial_def)
qed

lemma cluster_inv_keeps: "cluster_step E W W' \<Longrightarrow> cluster_inv E W \<Longrightarrow> cluster_inv E W'"
proof (induction rule: cluster_step.induct)
  case (store_op W n h sh ws x)
  note c = cluster_invD(3) [OF store_op(3,1)]
  show ?case
    by (rule inv_quiet [OF store_op(3,1)])
      (use ordered_tree.apply_op_extensive [OF tree c store_op(2)] ordered_tree.clock_inv_apply_op [OF tree c store_op(2)] in
        \<open>simp_all add: view_def\<close>)
next
  case (anti_entropy W n h sh ws members out h')
  show ?case
    by (rule inv_quiet [OF anti_entropy(3,1)])
      (use exchangeState_keeps [OF anti_entropy(2)] cluster_invD(3) [OF anti_entropy(3,1)] in simp_all)
next
  case (push_state W n h sh ws b m)
  show ?case
    by (rule inv_quiet [OF push_state(3,1)])
      (use push_state(2) cluster_invD(3) [OF push_state(3,1)] in
        \<open>auto simp: handleLocalState_def serializeStore_def Let_def split: option.splits if_splits\<close>)
next
  case (pull_state W n h sh ws b)
  show ?case
    by (rule inv_quiet [OF pull_state(3,1)]) (use handleMergeRemoteState_keeps cluster_invD(3) [OF pull_state(3,1)] in simp_all)
next
  case (node_joins W n h sh ws now m addr h' sh')
  show ?case
    by (rule inv_quiet [OF node_joins(3,1)])
      (use node_joins(2) cluster_invD(3) [OF node_joins(3,1)] in \<open>auto simp: handleJoin_def view_def\<close>)
next
  case (node_leaves W n h sh ws now m h' sh')
  show ?case
    by (rule inv_quiet [OF node_leaves(3,1)])
      (use node_leaves(2) cluster_invD(3) [OF node_leaves(3,1)] in \<open>auto simp: handleLeave_def view_def\<close>)
next
  case (node_updated W n h sh ws now m addr)
  show ?case
    by (rule inv_quiet [OF node_updated(2,1)])
      (use cluster_invD(3) [OF node_updated(2,1)] in \<open>simp_all add: handleUpdate_def\<close>)
qed (blast intro: inv_write_returns inv_write_waits inv_deliver inv_receive_waits inv_receive_returns inv_deadline inv_crash)+

lemma cluster_inv_reachable: "(cluster_step E)\<^sup>*\<^sup>* W W' \<Longrightarrow> cluster_inv E W \<Longrightarrow> cluster_inv E W'"
  by (induction rule: rtranclp_induct) (auto intro: cluster_inv_keeps)

end

text \<open>A write that waited for all replicas of its key, the coordinator among them, is at each of them.\<close>

lemma durable_all_replicas:
  assumes "durable E W res" and "o_result res = None" and "int (length (o_replicas res)) \<le> o_need res"
    and "o_node res \<in> set (o_replicas res)" and "m \<in> set (o_replicas res)"
  shows "holds E W (o_crashes res) m (o_key res) (o_entry res)"
proof -
  obtain S where S: "S \<subseteq> set (o_replicas res)" "o_need res \<le> int (card S)" "\<forall>m \<in> S. holds E W (o_crashes res) m (o_key res) (o_entry res)"
    using assms(1,2,4) unfolding durable_def by (metis insert_absorb)
  have "card (set (o_replicas res)) \<le> card S" using S(2) assms(3) card_length [of "o_replicas res"] by simp
  then have "S = set (o_replicas res)" using S(1) by (intro card_seteq) simp_all
  with S(3) assms(5) show ?thesis by simp
qed

section \<open>An example run\<close>

text \<open>
  Three nodes over a given ring that have crashed the given number of times; \<open>''a''\<close> writes with write concern 2 and
  gets the answer of \<open>''b''\<close>. The ring is that of all three nodes, or that of \<open>''a''\<close> and \<open>''b''\<close> alone.
\<close>

definition ex_node :: "consistentHashring \<Rightarrow> alist_tree Shared" where
  "ex_node ring = ex_shared\<lparr>sh_ring := ring\<rparr>"

definition ex_world :: "consistentHashring \<Rightarrow> (string \<Rightarrow> nat) \<Rightarrow> (alist_tree, GossipMessage) world" where
  "ex_world ring cs = \<lparr>node_of = \<lambda>n. \<lparr>nd_handler = ex_handler n, nd_shared = ex_node ring, nd_waits = Map.empty\<rparr>,
     net = {}, issued = Map.empty, outcomes = {}, crashes = cs\<rparr>"

lemma ex_world_node:
  "\<exists>c. cfg_NodeID c = n \<and> node_of (ex_world ring cs) n = fresh_node ref_env c ring"
  by (rule exI [of _ "\<lparr>cfg_NodeID = n, cfg_RedisAddr = [], ReplicaRF = 3, WriteConcern = 2, AntiEntropySec = 0\<rparr>"])
    (simp add: ex_world_def ex_handler_def ex_shared_def ex_node_def fresh_node_def)

lemma ex_world_initial: "initial ref_env (ex_world ring (\<lambda>_. 0))"
  unfolding initial_def using ex_world_node [of _ ring "\<lambda>_. 0"] by (simp add: ex_world_def) blast

lemma ex_world_crash: "cluster_step ref_env (ex_world ring cs) (ex_world ring (cs(n := Suc (cs n))))"
proof -
  obtain c where c: "cfg_NodeID c = n" "node_of (ex_world ring cs) n = fresh_node ref_env c ring" using ex_world_node by blast
  have "crash n (fresh_node ref_env c ring) (ex_world ring cs) = ex_world ring (cs(n := Suc (cs n)))"
    unfolding c(2) [symmetric] by (simp add: crash_def put_def ex_world_def fun_upd_idem)
  with node_crashes [OF c(1), of ref_env "ex_world ring cs" ring] show ?thesis by simp
qed

definition ex_request :: "Entry \<Rightarrow> GossipMessage" where
  "ex_request e = ReplicateReq \<lparr>RequestId = ''id'', SenderId = ''a'', Entries = [of_entry ''k'' e]\<rparr>"

definition ex_answer :: GossipMessage where
  "ex_answer = ReplicateResp \<lparr>resp_RequestId = ''id'', resp_NodeId = ''b'', Success = True\<rparr>"

definition ex_pending :: "nat \<Rightarrow> ackResult list \<Rightarrow> Handler" where
  "ex_pending c q = ex_handler ''a''\<lparr>pendingReqs := [''id'' \<mapsto> \<lparr>capacity = c, queue = q\<rparr>]\<rparr>"

definition ex_waiter :: "string set \<Rightarrow> waiter" where
  "ex_waiter X = \<lparr>w_request = ''id'', w_need = 2, w_expected = X, w_acks = 1, w_acked = {}\<rparr>"

definition ex_replicas :: "consistentHashring \<Rightarrow> string list" where
  "ex_replicas ring = map NodeID (GetReplicas ex_hash ''k'' 3 ring)"

lemma replica_ids_ex [simp]: "replica_ids ref_env ''k'' (ex_handler n) (ex_node ring) = ex_replicas ring"
  by (simp add: replica_ids_def ex_replicas_def ex_node_def)

lemma ex_remote:
  "NodeID ` set (remote_replicas ref_env (ex_handler ''a'') ''k'' (ex_node ring)) = set (ex_replicas ring) - {''a''}"
  by (auto simp: remote_replicas_def ex_replicas_def ex_node_def)

lemma ex_start:
  assumes "''b'' \<in> set (ex_replicas ring)"
  shows "\<exists>c out. 0 < c \<and> (''b'', ex_request e) \<in> set out \<and>
    quorum_start ref_env (\<lambda>_. True) ''id'' ''k'' e 2 (ex_handler ''a'', ex_node ring) =
      (Inr (ex_waiter (set (ex_replicas ring) - {''a''})), out, ex_pending c [], set_with_version ref_env ''k'' e (ex_node ring))"
proof -
  let ?R = "remote_replicas ref_env (ex_handler ''a'') ''k'' (ex_node ring)"
  have b: "''b'' \<in> NodeID ` set ?R" using assms ex_remote [of ring] by simp
  then have ne: "0 < length ?R" by (cases ?R) auto
  have "quorum_start ref_env (\<lambda>_. True) ''id'' ''k'' e 2 (ex_handler ''a'', ex_node ring) =
      (Inr (ex_waiter (set (ex_replicas ring) - {''a''})), map (\<lambda>r. (NodeID r, ex_request e)) ?R, ex_pending (length ?R) [],
        set_with_version ref_env ''k'' e (ex_node ring))"
    using ne ex_remote [of ring]
    by (simp add: quorum_start_def Let_def ex_request_def ex_waiter_def ex_pending_def)
  moreover have "(''b'', ex_request e) \<in> set (map (\<lambda>r. (NodeID r, ex_request e)) ?R)" using b by force
  ultimately show ?thesis using ne by blast
qed

lemma ex_handle_request:
  assumes "''b'' \<in> set (ex_replicas ring)"
  shows "handleMessage ref_env (ex_request e) (ex_handler ''b'', ex_node ring) =
    ([(''a'', ex_answer)], ex_handler ''b'', set_with_version ref_env ''k'' e (ex_node ring))"
proof -
  have "is_replica ref_env (ex_handler ''b'') ''k'' (ex_node ring)"
    using assms by (auto simp: is_replica_def list_ex_iff ex_replicas_def ex_node_def)
  then show ?thesis by (simp add: handleMessage_def ex_request_def handleReplicateRequest_def ex_answer_def)
qed

lemma ex_handle_answer:
  "0 < c \<Longrightarrow> handleMessage ref_env ex_answer (ex_pending c [], sh) =
    ([], ex_pending c [\<lparr>ack_nodeID = ''b'', ack_err = False\<rparr>], sh)"
  by (simp add: handleMessage_def ex_answer_def handleReplicateResponse_def ex_pending_def try_send_def)

lemma ex_receive:
  "''b'' \<in> X \<Longrightarrow> \<exists>h'. wait_receive (ex_waiter X) (ex_pending c [\<lparr>ack_nodeID = ''b'', ack_err = False\<rparr>]) = Some (Inl None, h')"
  by (simp add: wait_receive_def ex_waiter_def ex_pending_def count_ack_def Let_def)

lemma ex_run:
  assumes "''b'' \<in> set (ex_replicas ring)"
  shows "\<exists>W. (cluster_step ref_env)\<^sup>*\<^sup>* (ex_world ring cs) W \<and> crashes W = cs \<and>
    \<lparr>o_node = ''a'', o_key = ''k'', o_entry = e, o_replicas = ex_replicas ring, o_crashes = cs, o_need = 2, o_result = None\<rparr> \<in> outcomes W"
proof -
  let ?X = "set (ex_replicas ring) - {''a''}"
  obtain c out where c: "0 < c" "(''b'', ex_request e) \<in> set out"
    and start: "quorum_start ref_env (\<lambda>_. True) ''id'' ''k'' e 2 (ex_handler ''a'', ex_node ring) =
      (Inr (ex_waiter ?X), out, ex_pending c [], set_with_version ref_env ''k'' e (ex_node ring))" using ex_start [OF assms] by blast
  obtain h' where recv: "wait_receive (ex_waiter ?X) (ex_pending c [\<lparr>ack_nodeID = ''b'', ack_err = False\<rparr>]) = Some (Inl None, h')"
    using ex_receive [of ?X c] assms by auto
  let ?sh = "set_with_version ref_env ''k'' e (ex_node ring)" and ?ws = "[''id'' \<mapsto> (ex_waiter ?X, ''k'', e, ex_replicas ring, cs)]"
  define W1 where "W1 = issue ''id'' ''k'' e (put ''a'' \<lparr>nd_handler = ex_pending c [], nd_shared = ?sh, nd_waits = ?ws\<rparr> out (ex_world ring cs))"
  define W2 where "W2 = put ''b'' \<lparr>nd_handler = ex_handler ''b'', nd_shared = ?sh, nd_waits = Map.empty\<rparr> [(''a'', ex_answer)] W1"
  define W3 where "W3 = put ''a'' \<lparr>nd_handler = ex_pending c [\<lparr>ack_nodeID = ''b'', ack_err = False\<rparr>], nd_shared = ?sh, nd_waits = ?ws\<rparr> [] W2"
  have "cluster_step ref_env (ex_world ring cs) W1"
    using write_waits [OF _ _ start, of "ex_world ring cs" "''a''" Map.empty "ex_replicas ring"] by (simp add: W1_def ex_world_def)
  moreover have "cluster_step ref_env W1 W2"
    unfolding W2_def by (rule deliver [OF _ _ ex_handle_request [OF assms]]) (use c in \<open>simp_all add: W1_def ex_world_def\<close>)
  moreover have "cluster_step ref_env W2 W3"
    unfolding W3_def by (rule deliver [OF _ _ ex_handle_answer [OF c(1)]]) (simp_all add: W2_def W1_def)
  moreover obtain W4 where "cluster_step ref_env W3 W4" "crashes W4 = crashes W3"
      "outcomes W4 = insert \<lparr>o_node = ''a'', o_key = ''k'', o_entry = e, o_replicas = ex_replicas ring, o_crashes = cs,
        o_need = w_need (ex_waiter ?X), o_result = None\<rparr> (outcomes W3)"
    using receive_returns [of W3 "''a''" _ ?sh ?ws "''id''" "ex_waiter ?X" "''k''" e "ex_replicas ring" cs None h' ref_env, OF _ _ recv]
    by (fastforce simp: W3_def)
  moreover have "crashes W3 = cs" by (simp add: W3_def W2_def W1_def ex_world_def)
  ultimately have "(cluster_step ref_env)\<^sup>*\<^sup>* (ex_world ring cs) W4" "crashes W4 = cs"
    "\<lparr>o_node = ''a'', o_key = ''k'', o_entry = e, o_replicas = ex_replicas ring, o_crashes = cs, o_need = 2, o_result = None\<rparr> \<in> outcomes W4"
    by (auto simp: ex_waiter_def)
  then show ?thesis by blast
qed

lemma ex_replicas_all: "set (ex_replicas ex_ring) = {''a'', ''b'', ''c''}"
  using ex_GetReplicas [of "''k''"] by (simp add: ex_replicas_def)

section \<open>Properties\<close>

text \<open>
  C1. A quorum write that succeeded is held by a quorum: in every state that any interleaving of client
  operations, messages delivered late, repeatedly, out of order or never, anti-entropy, push-pulls,
  membership changes and crashes can reach, whenever a call of \<open>ReplicateWithQuorum\<close> has returned nil, there are at
  least as many different nodes as the write concern asked for, the coordinator and otherwise replicas of the key in
  its ring when the write started, of which each that has not crashed since then holds an entry for the key that is
  the written one or newer. A crash before the write does not count. The operations of clients are those of a
  store whose version clock does not overflow.
\<close>

theorem quorum_write_durable:
  assumes "gossip_env E" and "initial E W0" and "(cluster_step E)\<^sup>*\<^sup>* W0 W"
    and "res \<in> outcomes W" and "o_result res = None"
  shows "\<exists>S. S \<subseteq> insert (o_node res) (set (o_replicas res)) \<and> o_node res \<in> S \<and> o_need res \<le> int (card S) \<and>
    (\<forall>n \<in> S. crashes W n = o_crashes res n \<longrightarrow>
      (\<exists>e'. view E (nd_shared (node_of W n)) (o_key res) = Some e' \<and> entry_rank (o_entry res) \<le> entry_rank e'))"
proof -
  have "cluster_inv E W"
    by (rule gossip_env.cluster_inv_reachable [OF assms(1,3) gossip_env.cluster_inv_initial [OF assms(1,2)]])
  then have "durable E W res" using assms(4) by (simp add: cluster_inv_def)
  then show ?thesis using assms(5) unfolding durable_def holds_def by blast
qed

theorem quorum_write_durable_witness:
  "\<exists>W res. (cluster_step ref_env)\<^sup>*\<^sup>* (ex_world ex_ring (\<lambda>_. 0)) W \<and> res \<in> outcomes W \<and> o_need res = 2 \<and> crashes W ''b'' = 1 \<and>
    (\<exists>S. S \<subseteq> {''a'', ''b'', ''c''} \<and> ''a'' \<in> S \<and> 2 \<le> int (card S) \<and> (\<forall>n \<in> S. view ref_env (nd_shared (node_of W n)) ''k'' \<noteq> None))"
proof -
  let ?cs = "(\<lambda>_. 0)(''b'' := Suc 0)"
  obtain W where W: "(cluster_step ref_env)\<^sup>*\<^sup>* (ex_world ex_ring ?cs) W" "crashes W = ?cs"
    "\<lparr>o_node = ''a'', o_key = ''k'', o_entry = ex_entry ''v'' 1 ''a'' False, o_replicas = ex_replicas ex_ring, o_crashes = ?cs,
      o_need = 2, o_result = None\<rparr> \<in> outcomes W"
    using ex_run [of ex_ring ?cs "ex_entry ''v'' 1 ''a'' False"] by (auto simp: ex_replicas_all)
  have run: "(cluster_step ref_env)\<^sup>*\<^sup>* (ex_world ex_ring (\<lambda>_. 0)) W"
    using converse_rtranclp_into_rtranclp [OF ex_world_crash W(1)] by blast
  obtain S where S: "S \<subseteq> {''a'', ''b'', ''c''}" "''a'' \<in> S" "2 \<le> int (card S)"
    and h: "\<forall>n \<in> S. \<exists>e'. view ref_env (nd_shared (node_of W n)) ''k'' = Some e' \<and>
      entry_rank (ex_entry ''v'' 1 ''a'' False) \<le> entry_rank e'"
    using quorum_write_durable [OF ref.gossip_env_axioms ex_world_initial run W(3)] unfolding W(2) by (auto simp: ex_replicas_all)
  from h have "\<forall>n \<in> S. view ref_env (nd_shared (node_of W n)) ''k'' \<noteq> None" by fastforce
  with run W(2,3) S show ?thesis by (metis outcome.select_convs(6) fun_upd_same One_nat_def)
qed

end
