(* ===== verification/Server.thy ===== *)
theory Server
  imports Cluster Resp
begin

text \<open>
  The Redis-compatible server, \<open>src/internal/server/server.go\<close>: the loop of a connection with its
  authentication, the commands, and the cluster commands.

  An operation returns the values it writes to the connection with \<open>WriteValue\<close>, in order, the gossip messages
  it hands to the transport, and the new state of the server. What a command meets outside the server is a parameter:
  for each key the transport and the acknowledgements its \<open>ReplicateWithQuorum\<close> sees, and the members the
  transport reports. The accept loop and the shutdown are the matter of \<open>Lifecycle\<close>.
\<close>

section \<open>Library functions\<close>

text \<open>
  \<open>strings.ToUpper\<close> maps ASCII letters; a string with other bytes goes through Unicode's tables, which are
  a parameter.
\<close>

definition ascii_upper :: "char \<Rightarrow> char" where
  "ascii_upper c =
     (if 97 \<le> (of_char c :: nat) \<and> (of_char c :: nat) \<le> 122 then char_of (of_char c - 32 :: nat) else c)"

definition ToUpper :: "(string \<Rightarrow> string) \<Rightarrow> string \<Rightarrow> string" where
  "ToUpper unicode_upper s = (if ascii s then map ascii_upper s else unicode_upper s)"

text \<open>The first and the last position of a byte.\<close>

fun index_byte :: "char \<Rightarrow> string \<Rightarrow> nat option" where
  "index_byte c [] = None"
| "index_byte c (x # s) = (if x = c then Some 0 else map_option Suc (index_byte c s))"

definition last_index_byte :: "char \<Rightarrow> string \<Rightarrow> nat option" where
  "last_index_byte c s = map_option (\<lambda>i. length s - Suc i) (index_byte c (rev s))"

text \<open>\<open>net.SplitHostPort\<close>; \<open>None\<close> is any of its errors, with which it returns empty strings.\<close>

definition SplitHostPort :: "string \<Rightarrow> (string \<times> string) option" where
  "SplitHostPort hostport =
     (case last_index_byte CHR '':'' hostport of
        None \<Rightarrow> None
      | Some i \<Rightarrow>
          let port = drop (Suc i) hostport
          in if hd hostport = CHR ''['' then
               (case index_byte CHR '']'' hostport of
                  None \<Rightarrow> None
                | Some close \<Rightarrow>
                    if Suc close \<noteq> i then None
                    else if CHR ''['' \<in> set (drop 1 hostport) \<or> CHR '']'' \<in> set (drop (Suc close) hostport) then None
                    else Some (drop 1 (take close hostport), port))
             else if CHR '':'' \<in> set (take i hostport) then None
             else if CHR ''['' \<in> set hostport \<or> CHR '']'' \<in> set hostport then None
             else Some (take i hostport, port))"

fun join :: "string \<Rightarrow> string list \<Rightarrow> string" where
  "join sep [] = []"
| "join sep [s] = s"
| "join sep (s # t # ss) = s @ sep @ join sep (t # ss)"

section \<open>The server\<close>

text \<open>
  The store and the ring are shared with the gossip handler. \<open>ln\<close> is the address of the listener once it
  listens.
\<close>

record 't Server =
  srv_addr :: string
  ln :: "string option"
  localID :: string
  srv_shared :: "'t Shared"
  gossip :: "Handler option"
  writeConcern :: int
  authToken :: string

text \<open>What one call of \<open>ReplicateWithQuorum\<close> meets.\<close>

record call =
  call_reach :: "string \<Rightarrow> bool"
  call_id :: string
  call_results :: "ackResult list"

text \<open>
  What a command meets: the calls for each key and the members of the cluster. What does not change: the
  SHA-256 digest, the Unicode tables and the text of a codec error.
\<close>

record command_env =
  calls :: "string \<Rightarrow> call"
  MembersInfo :: "MemberInfo list"

record lib =
  sha256 :: "string \<Rightarrow> string"
  unicode_upper :: "string \<Rightarrow> string"
  marshal_error :: string

definition New :: "('t, 'b) env \<Rightarrow> string \<Rightarrow> string \<Rightarrow> 't Server" where
  "New E addr nodeID =
     \<lparr>srv_addr = addr, ln = None, localID = nodeID,
      srv_shared = \<lparr>sh_store = Store.New (env_tree E),
        sh_ring = AddNode (env_hash E) (env_sort E) nodeID addr 256 (Hashring.New nodeID)\<rparr>,
      gossip = None, writeConcern = 1, authToken = []\<rparr>"

definition SetGossip :: "Handler \<Rightarrow> 't Server \<Rightarrow> 't Server" where
  "SetGossip g s = s\<lparr>gossip := Some g\<rparr>"

definition SetWriteConcern :: "int \<Rightarrow> 't Server \<Rightarrow> 't Server" where
  "SetWriteConcern w s = s\<lparr>writeConcern := w\<rparr>"

definition SetAuthToken :: "string \<Rightarrow> 't Server \<Rightarrow> 't Server" where
  "SetAuthToken token s = s\<lparr>authToken := token\<rparr>"

text \<open>A change of the ring, which the server shares.\<close>

definition update_ring :: "(consistentHashring \<Rightarrow> consistentHashring) \<Rightarrow> 't Server \<Rightarrow> 't Server" where
  "update_ring f s = s\<lparr>srv_shared := (srv_shared s)\<lparr>sh_ring := f (sh_ring (srv_shared s))\<rparr>\<rparr>"

definition SetAdvertiseAddr :: "('t, 'b) env \<Rightarrow> string \<Rightarrow> 't Server \<Rightarrow> 't Server" where
  "SetAdvertiseAddr E addr s = update_ring (AddNode (env_hash E) (env_sort E) (localID s) addr 256) s"

definition nodeID :: "'t Server \<Rightarrow> string" where
  "nodeID s = (case gossip s of Some g \<Rightarrow> node_id g | None \<Rightarrow> localID s)"

definition Addr :: "'t Server \<Rightarrow> string" where
  "Addr s = (case ln s of Some a \<Rightarrow> a | None \<Rightarrow> srv_addr s)"

definition buildInfo :: "'t Server \<Rightarrow> string" where
  "buildInfo s =
     (let portStr = (case SplitHostPort (Server.Addr s) of None \<Rightarrow> [] | Some (_, p) \<Rightarrow> p);
          portStr' = (if portStr = [] then ''6379'' else portStr)
      in ''# Server'' @ CRLF @ ''redis_version:7.2.0'' @ CRLF @ ''os:Linux'' @ CRLF @ ''tcp_port:'' @ portStr' @ CRLF @ CRLF
         @ ''# Cluster'' @ CRLF @ ''cluster_enabled:1'' @ CRLF)"

text \<open>\<open>getBulkString\<close>; \<open>None\<close> is a value that is no bulk string or a nil one.\<close>

fun getBulkString :: "Value \<Rightarrow> string option" where
  "getBulkString (BulkString (Some b)) = Some b"
| "getBulkString _ = None"

text \<open>The text of an error of \<open>ReplicateWithQuorum\<close>.\<close>

fun quorum_error_text :: "lib \<Rightarrow> quorum_error \<Rightarrow> string" where
  "quorum_error_text L (ErrUnavailable n w) =
     ''quorum not reachable: '' @ itoa n @ '' replicas available, need '' @ itoa w"
| "quorum_error_text L ErrMarshal = ''marshal replicate request: '' @ marshal_error L"
| "quorum_error_text L (ErrUnreachable n w) =
     ''quorum not reachable: '' @ itoa n @ '' replicas reachable, need '' @ itoa w"
| "quorum_error_text L (ErrTimeout n w) = ''quorum not reached: '' @ itoa n @ ''/'' @ itoa w @ '' ACKs after 2s''"

section \<open>Key commands\<close>

text \<open>The call of \<open>ReplicateWithQuorum\<close> by a command, with the write concern raised to one.\<close>

definition replicate_key :: "('t, 'b) env \<Rightarrow> command_env \<Rightarrow> string \<Rightarrow> Entry \<Rightarrow> Handler \<Rightarrow> 't Server
    \<Rightarrow> quorum_error option \<times> 'b sends \<times> 't Server" where
  "replicate_key E C key entry g s =
     (let c = calls C key; w = (if writeConcern s \<le> 0 then 1 else writeConcern s)
      in case ReplicateWithQuorum E (call_reach c) (call_id c) (call_results c) key entry w (g, srv_shared s) of
           (r, out, g', sh') \<Rightarrow> (r, out, s\<lparr>gossip := Some g', srv_shared := sh'\<rparr>))"

definition update_store :: "('t Store \<Rightarrow> 't Store) \<Rightarrow> 't Server \<Rightarrow> 't Server" where
  "update_store f s = s\<lparr>srv_shared := (srv_shared s)\<lparr>sh_store := f (sh_store (srv_shared s))\<rparr>\<rparr>"

text \<open>The function that \<open>SET\<close> runs on the key and value, and that of \<open>GET\<close>.\<close>

definition set_fn :: "('t, 'b) env \<Rightarrow> lib \<Rightarrow> command_env \<Rightarrow> string \<Rightarrow> string \<Rightarrow> 't Server \<Rightarrow> Value list \<times> 'b sends \<times> 't Server" where
  "set_fn E L C key value s =
     (let entry = fst (SetFrom (env_tree E) key value (nodeID s) (sh_store (srv_shared s)));
          s1 = update_store (\<lambda>st. snd (SetFrom (env_tree E) key value (nodeID s) st)) s
      in case gossip s1 of
           None \<Rightarrow> ([OK], [], s1)
         | Some g \<Rightarrow>
             (case replicate_key E C key entry g s1 of
                (Some err, out, s2) \<Rightarrow> ([Error (''ERR '' @ quorum_error_text L err)], out, s2)
              | (None, out, s2) \<Rightarrow> ([OK], out, s2)))"

definition get_fn :: "('t, 'b) env \<Rightarrow> string \<Rightarrow> string \<Rightarrow> 't Server \<Rightarrow> Value list \<times> 'b sends \<times> 't Server" where
  "get_fn E key value s =
     (case Get (env_tree E) key (sh_store (srv_shared s)) of
        (val, _, ok) \<Rightarrow> (if \<not> ok then [NullBulkString] else [NewBulkString val], [], s))"

text \<open>The owner of a key when it is another node: the address to redirect to.\<close>

definition moved_to :: "('t, 'b) env \<Rightarrow> string \<Rightarrow> 't Server \<Rightarrow> string option" where
  "moved_to E key s =
     (case GetNode (env_hash E) key (sh_ring (srv_shared s)) of
        (ownerNode, ownerAddr) \<Rightarrow> if ownerNode \<noteq> [] \<and> ownerNode \<noteq> nodeID s then Some ownerAddr else None)"

definition handleKeyCommand :: "('t, 'b) env \<Rightarrow> string \<Rightarrow> nat \<Rightarrow> Value list
    \<Rightarrow> (string \<Rightarrow> string \<Rightarrow> 't Server \<Rightarrow> Value list \<times> 'b sends \<times> 't Server) \<Rightarrow> 't Server \<Rightarrow> Value list \<times> 'b sends \<times> 't Server" where
  "handleKeyCommand E cmd arity args fn s =
     (if length args \<noteq> arity then ([Error (''ERR wrong number of arguments for '' @ [CHR 0x27] @ cmd @ [CHR 0x27] @ '' command'')], [], s)
      else (case getBulkString (args ! 0) of
          None \<Rightarrow> ([Error ''ERR invalid key''], [], s)
        | Some key \<Rightarrow>
            (case moved_to E key s of
               Some ownerAddr \<Rightarrow> ([Error (''MOVED '' @ ownerAddr)], [], s)
             | None \<Rightarrow>
                 if arity = 2
                 then (case getBulkString (args ! 1) of
                     None \<Rightarrow> ([Error ''ERR invalid value''], [], s)
                   | Some v \<Rightarrow> fn key v s)
                 else fn key [] s)))"

text \<open>The loops of \<open>DEL\<close>: over the arguments, over the owners, and over the tombstones.\<close>

fun bulk_keys :: "Value list \<Rightarrow> string list option" where
  "bulk_keys [] = Some []"
| "bulk_keys (a # as) =
     (case getBulkString a of None \<Rightarrow> None | Some key \<Rightarrow> map_option ((#) key) (bulk_keys as))"

fun first_moved :: "('t, 'b) env \<Rightarrow> string list \<Rightarrow> 't Server \<Rightarrow> string option" where
  "first_moved E [] s = None"
| "first_moved E (key # keys) s =
     (case moved_to E key s of Some ownerAddr \<Rightarrow> Some ownerAddr | None \<Rightarrow> first_moved E keys s)"

fun replicate_tombstones :: "('t, 'b) env \<Rightarrow> command_env \<Rightarrow> item list \<Rightarrow> Handler \<Rightarrow> 't Server
    \<Rightarrow> quorum_error option \<times> 'b sends \<times> 't Server" where
  "replicate_tombstones E C [] g s = (None, [], s)"
| "replicate_tombstones E C ((key, entry) # its) g s =
     (case replicate_key E C key entry g s of
        (Some err, out, s') \<Rightarrow> (Some err, out, s')
      | (None, out, s') \<Rightarrow>
          (case replicate_tombstones E C its (the (gossip s')) s' of (r, outs, s'') \<Rightarrow> (r, out @ outs, s'')))"

definition handleDel :: "('t, 'b) env \<Rightarrow> lib \<Rightarrow> command_env \<Rightarrow> Value list \<Rightarrow> 't Server \<Rightarrow> Value list \<times> 'b sends \<times> 't Server" where
  "handleDel E L C args s =
     (if args = [] then ([Error (''ERR wrong number of arguments for '' @ [CHR 0x27] @ ''DEL'' @ [CHR 0x27] @ '' command'')], [], s)
      else (case bulk_keys args of
          None \<Rightarrow> ([Error ''ERR invalid key''], [], s)
        | Some keys \<Rightarrow>
            (case first_moved E keys s of
               Some ownerAddr \<Rightarrow> ([Error (''MOVED '' @ ownerAddr)], [], s)
             | None \<Rightarrow>
                 (case Del (env_tree E) (nodeID s) keys (sh_store (srv_shared s)) of
                    (n, tombstones, st) \<Rightarrow>
                      let s1 = update_store (\<lambda>_. st) s
                      in (case gossip s1 of
                            None \<Rightarrow> ([Integer n], [], s1)
                          | Some g \<Rightarrow>
                              (case replicate_tombstones E C (range_map E tombstones) g s1 of
                                 (Some err, out, s2) \<Rightarrow> ([Error (''ERR '' @ quorum_error_text L err)], out, s2)
                               | (None, out, s2) \<Rightarrow> ([Integer n], out, s2)))))))"

section \<open>Cluster commands\<close>

text \<open>The host and port of an address as the cluster commands print it.\<close>

definition host_port :: "string \<Rightarrow> string \<times> string" where
  "host_port addr =
     (case (case SplitHostPort addr of None \<Rightarrow> (''127.0.0.1'', addr) | Some hp \<Rightarrow> hp) of
        (host, portStr) \<Rightarrow> (if host = [] then ''127.0.0.1'' else host, portStr))"

definition slot_entry :: "SlotRange \<Rightarrow> Value" where
  "slot_entry sr =
     (case host_port (Address (Node sr)) of
        (host, portStr) \<Rightarrow>
          let port = fst (atoi portStr);
              port' = (if port = 0 then 6379 else port);
              id = (if NodeID (Node sr) = [] then host else NodeID (Node sr))
          in Array [Integer (int (SlotRange.Start sr)), Integer (int (End sr)),
               Array [NewBulkString host, Integer port', NewBulkString id]])"

definition handleClusterSlots :: "('t, 'b) env \<Rightarrow> 't Server \<Rightarrow> Value list" where
  "handleClusterSlots E s =
     (let ranges = GetSlotRanges (env_hash E) (sh_ring (srv_shared s))
      in if ranges = [] then [Error ''ERR cluster is empty''] else [Array (map slot_entry ranges)])"

definition slot_text :: "SlotRange \<Rightarrow> string" where
  "slot_text sr =
     (if SlotRange.Start sr = End sr then itoa (int (SlotRange.Start sr))
      else itoa (int (SlotRange.Start sr)) @ ''-'' @ itoa (int (End sr)))"

fun node_slots :: "SlotRange list \<Rightarrow> (string \<Rightarrow> string list) \<Rightarrow> (string \<Rightarrow> string list)" where
  "node_slots [] m = m"
| "node_slots (sr # srs) m = (let id = NodeID (Node sr) in node_slots srs (m(id := m id @ [slot_text sr])))"

fun node_lines :: "string \<Rightarrow> (string \<Rightarrow> string list) \<Rightarrow> SlotRange list \<Rightarrow> string set \<Rightarrow> string" where
  "node_lines me nodeSlots [] seen = []"
| "node_lines me nodeSlots (sr # srs) seen =
     (let id = NodeID (Node sr)
      in if id \<in> seen then node_lines me nodeSlots srs seen
         else (case host_port (Address (Node sr)) of
             (host, portStr) \<Rightarrow>
               let flags = (if id \<noteq> me then ''master'' else ''myself,master'');
                   slots = join '' '' (nodeSlots id)
               in id @ '' '' @ host @ '':'' @ portStr @ '' '' @ flags @ '' - 0 0 0 connected '' @ slots @ [LF]
                  @ node_lines me nodeSlots srs (insert id seen)))"

definition handleClusterNodes :: "('t, 'b) env \<Rightarrow> 't Server \<Rightarrow> Value list" where
  "handleClusterNodes E s =
     (let ranges = GetSlotRanges (env_hash E) (sh_ring (srv_shared s))
      in if ranges = [] then [NullBulkString]
         else [NewBulkString (node_lines (nodeID s) (node_slots ranges (\<lambda>_. [])) ranges {})])"

definition handleClusterInfo :: "('t, 'b) env \<Rightarrow> 't Server \<Rightarrow> Value list" where
  "handleClusterInfo E s =
     (let ranges = GetSlotRanges (env_hash E) (sh_ring (srv_shared s));
          numNodes = itoa (int (length (remdups (map (\<lambda>sr. NodeID (Node sr)) ranges))))
      in [NewBulkString (''cluster_state:ok'' @ CRLF @ ''cluster_slots_assigned:16384'' @ CRLF @ ''cluster_slots_ok:16384'' @ CRLF
           @ ''cluster_slots_pfail:0'' @ CRLF @ ''cluster_slots_fail:0'' @ CRLF @ ''cluster_known_nodes:'' @ numNodes @ CRLF
           @ ''cluster_size:'' @ numNodes @ CRLF @ ''cluster_current_epoch:1'' @ CRLF @ ''cluster_my_epoch:0'' @ CRLF)])"

definition keyslot :: "('t, 'b) env \<Rightarrow> string \<Rightarrow> nat" where
  "keyslot E key = unat (env_hash E key mod 16384)"

definition handleCluster :: "('t, 'b) env \<Rightarrow> lib \<Rightarrow> Value list \<Rightarrow> 't Server \<Rightarrow> Value list" where
  "handleCluster E L args s =
     (if args = [] then [Error (''ERR wrong number of arguments for '' @ [CHR 0x27] @ ''CLUSTER'' @ [CHR 0x27] @ '' command'')]
      else (case getBulkString (args ! 0) of
          None \<Rightarrow> [Error ''ERR invalid CLUSTER subcommand'']
        | Some sub \<Rightarrow>
            let u = ToUpper (unicode_upper L) sub
            in if u = ''SLOTS'' then handleClusterSlots E s
               else if u = ''NODES'' then handleClusterNodes E s
               else if u = ''INFO'' then handleClusterInfo E s
               else if u = ''KEYSLOT'' then
                 (if length args < 2
                  then [Error (''ERR wrong number of arguments for '' @ [CHR 0x27] @ ''CLUSTER KEYSLOT'' @ [CHR 0x27] @ '' command'')]
                  else (case getBulkString (args ! 1) of
                      None \<Rightarrow> [Error ''ERR invalid key'']
                    | Some key \<Rightarrow> [Integer (int (keyslot E key))]))
               else [Error (''ERR unknown CLUSTER subcommand '' @ [CHR 0x27] @ sub @ [CHR 0x27])]))"

section \<open>Dispatch and connections\<close>

text \<open>The dash in two of the messages, in UTF-8.\<close>

definition dash :: string where
  "dash = [char_of (226 :: nat), char_of (128 :: nat), char_of (148 :: nat)]"

definition dispatch :: "('t, 'b) env \<Rightarrow> lib \<Rightarrow> command_env \<Rightarrow> string \<Rightarrow> Value list \<Rightarrow> 't Server \<Rightarrow> Value list \<times> 'b sends \<times> 't Server" where
  "dispatch E L C cmd args s =
     (if cmd = ''PING'' then ([PONG], [], s)
      else if cmd = ''INFO'' then ([NewBulkString (buildInfo s)], [], s)
      else if cmd = ''SET'' then handleKeyCommand E ''SET'' 2 args (set_fn E L C) s
      else if cmd = ''GET'' then handleKeyCommand E ''GET'' 1 args (get_fn E) s
      else if cmd = ''DEL'' then handleDel E L C args s
      else if cmd = ''NODE.JOIN'' then
        (if length args < 2
         then ([Error (''ERR wrong number of arguments for '' @ [CHR 0x27] @ ''NODE.JOIN'' @ [CHR 0x27] @ '' command'')], [], s)
         else (case getBulkString (args ! 0) of
             None \<Rightarrow> ([Error ''ERR invalid node-id''], [], s)
           | Some node \<Rightarrow>
               (case getBulkString (args ! 1) of
                  None \<Rightarrow> ([Error ''ERR invalid address''], [], s)
                | Some address \<Rightarrow> ([OK], [], update_ring (AddNode (env_hash E) (env_sort E) node address 256) s))))
      else if cmd = ''NODE.LIST'' then
        (if gossip s = None then ([Error ''ERR gossip not initialized''], [], s)
         else ([Array (map (\<lambda>m. Array [NewBulkString (Name m), NewBulkString (mi_RedisAddr m), NewBulkString ''healthy''])
                 (MembersInfo C))], [], s))
      else if cmd = ''CLUSTER'' then (handleCluster E L args s, [], s)
      else if cmd = ''NODE.PING'' then
        ([Error (''ERR NODE.PING not supported '' @ dash @ '' memberlist handles health checks'')], [], s)
      else if cmd = ''NODE.LEAVE'' then
        ([Error (''ERR NODE.LEAVE not supported '' @ dash @ '' use shutdown to leave the cluster'')], [], s)
      else ([Error (''ERR unknown command '' @ [CHR 0x27] @ cmd @ [CHR 0x27])], [], s))"

text \<open>One turn of the loop of \<open>handleConn\<close>, on a value that was read.\<close>

definition handle_auth :: "lib \<Rightarrow> Value list \<Rightarrow> bool \<Rightarrow> 't Server \<Rightarrow> Value list \<times> bool" where
  "handle_auth L args authenticated s =
     (if authToken s = [] then ([Error ''ERR AUTH called without any password configured''], authenticated)
      else if length args \<noteq> 1
      then ([Error (''ERR wrong number of arguments for '' @ [CHR 0x27] @ ''AUTH'' @ [CHR 0x27] @ '' command'')], authenticated)
      else
        let token = getBulkString (args ! 0);
            got = sha256 L (case token of Some t \<Rightarrow> t | None \<Rightarrow> []);
            want = sha256 L (authToken s)
        in if token = None \<or> got \<noteq> want
           then ([Error ''WRONGPASS invalid username-password pair or user is disabled.''], authenticated)
           else ([OK], True))"

definition handle_value :: "('t, 'b) env \<Rightarrow> lib \<Rightarrow> command_env \<Rightarrow> Value \<Rightarrow> bool \<Rightarrow> 't Server
    \<Rightarrow> Value list \<times> 'b sends \<times> bool \<times> 't Server" where
  "handle_value E L C v authenticated s =
     (case v of
        Array cmd \<Rightarrow>
          if cmd = [] then ([Error ''ERR empty command''], [], authenticated, s)
          else (case getBulkString (hd cmd) of
              None \<Rightarrow> ([Error ''ERR protocol error: command name must be a bulk string''], [], authenticated, s)
            | Some name \<Rightarrow>
                let command = ToUpper (unicode_upper L) name; args = tl cmd
                in if command = ''AUTH'' then
                     (case handle_auth L args authenticated s of (written, authenticated') \<Rightarrow> (written, [], authenticated', s))
                   else if \<not> authenticated then ([Error ''NOAUTH Authentication required.''], [], authenticated, s)
                   else (case dispatch E L C command args s of (written, out, s') \<Rightarrow> (written, out, authenticated, s')))
      | _ \<Rightarrow> ([Error ''ERR protocol error: expected array''], [], authenticated, s))"

lemma ReadValue_shorter: "ReadValue stream = (Inr v, rest) \<Longrightarrow> length rest < length stream"
  using readValue_limits(1) [of 0 stream v rest] by (simp add: ReadValue_def strict_suffix_def suffix_length_less)

text \<open>
  The loop, over the bytes the client sends. \<open>Cs i\<close> is what the \<open>i\<close>-th command meets. The result is the
  replies in order, the messages sent, and the server.
\<close>

function conn_loop :: "('t, 'b) env \<Rightarrow> lib \<Rightarrow> (nat \<Rightarrow> command_env) \<Rightarrow> nat \<Rightarrow> bool \<Rightarrow> 't Server \<Rightarrow> string
    \<Rightarrow> Value list \<times> 'b sends \<times> 't Server" where
  "conn_loop E L Cs i authenticated s stream =
     (case ReadValue stream of
        (Inl err, rest) \<Rightarrow> ([], [], s)
      | (Inr v, rest) \<Rightarrow>
          (case handle_value E L (Cs i) v authenticated s of
             (written, out, authenticated', s') \<Rightarrow>
               (case conn_loop E L Cs (Suc i) authenticated' s' rest of
                  (replies, outs, s'') \<Rightarrow> (written @ replies, out @ outs, s''))))"
  by pat_completeness auto
termination
  by (relation "measure (\<lambda>(E, L, Cs, i, authenticated, s, stream). length stream)") (auto dest: ReadValue_shorter [OF sym])

declare conn_loop.simps [simp del]

definition handleConn :: "('t, 'b) env \<Rightarrow> lib \<Rightarrow> (nat \<Rightarrow> command_env) \<Rightarrow> 't Server \<Rightarrow> string
    \<Rightarrow> Value list \<times> 'b sends \<times> 't Server" where
  "handleConn E L Cs s stream = conn_loop E L Cs 0 (authToken s = []) s stream"

section \<open>Connections\<close>

text \<open>The values a connection yields until the first error.\<close>

function values_read :: "string \<Rightarrow> Value list" where
  "values_read stream = (case ReadValue stream of (Inl err, rest) \<Rightarrow> [] | (Inr v, rest) \<Rightarrow> v # values_read rest)"
  by pat_completeness auto
termination
  by (relation "measure length") (auto dest: ReadValue_shorter [OF sym])

declare values_read.simps [simp del]

text \<open>One value was written, and it can be encoded.\<close>

definition one_reply :: "Value list \<Rightarrow> bool" where
  "one_reply ws \<longleftrightarrow> (\<exists>w. ws = [w] \<and> \<not> has_nil w)"

lemma one_reply_simps [simp]:
  "one_reply [w] \<longleftrightarrow> \<not> has_nil w" "\<not> one_reply []" "\<not> one_reply (w # w' # ws)"
  by (simp_all add: one_reply_def)

lemma has_nil_slot_entry [simp]: "\<not> has_nil (slot_entry sr)"
  by (simp add: slot_entry_def NewBulkString_def Let_def split: prod.split)

lemma one_reply_handleCluster [simp]: "one_reply (handleCluster E L args s)"
  by (auto simp: handleCluster_def handleClusterSlots_def handleClusterNodes_def handleClusterInfo_def
      NewBulkString_def NullBulkString_def Let_def split: option.split)

lemma one_reply_set_fn [simp]: "one_reply (fst (set_fn E L C key value s))"
  by (simp add: set_fn_def OK_def Let_def split: option.split prod.split)

lemma one_reply_get_fn [simp]: "one_reply (fst (get_fn E key value s))"
  by (simp add: get_fn_def NewBulkString_def NullBulkString_def split: prod.split)

lemma one_reply_handleKeyCommand:
  "(\<And>key value. one_reply (fst (fn key value s))) \<Longrightarrow> one_reply (fst (handleKeyCommand E cmd arity args fn s))"
  by (simp add: handleKeyCommand_def split: option.split)

lemma one_reply_handleDel [simp]: "one_reply (fst (handleDel E L C args s))"
  by (auto simp: handleDel_def Let_def split: option.split prod.split)

lemma one_reply_dispatch: "one_reply (fst (dispatch E L C cmd args s))"
  by (auto simp: dispatch_def PONG_def OK_def NewBulkString_def one_reply_handleKeyCommand split: option.split)

lemma one_reply_handle_value: "one_reply (fst (handle_value E L C v authenticated s))"
proof -
  have "one_reply ws" if "dispatch E L C c args s = (ws, out, s')" for c args ws out s'
    using one_reply_dispatch [of E L C c args s] that by simp
  moreover have "one_reply ws" if "handle_auth L args a s = (ws, a')" for args a ws a'
    using that by (auto simp: handle_auth_def OK_def Let_def split: if_splits)
  ultimately show ?thesis
    by (auto simp: handle_value_def Let_def split: Value.split option.split prod.split)
qed

text \<open>The replies of a connection are those to the values read, one to each and in their order.\<close>

lemma conn_loop_replies:
  "list_all2 (\<lambda>v r. \<exists>k a s out a' s'. handle_value E L (Cs k) v a s = ([r], out, a', s') \<and> Resp r \<noteq> None)
    (values_read stream) (fst (conn_loop E L Cs i authenticated s stream))"
proof (induction stream arbitrary: i authenticated s rule: length_induct)
  case (1 stream)
  obtain x rest where rd: "ReadValue stream = (x, rest)" by fastforce
  show ?case
  proof (cases x)
    case (Inr v)
    obtain ws out auth' s' where h: "handle_value E L (Cs i) v authenticated s = (ws, out, auth', s')" by (metis prod_cases4)
    then obtain w where w: "ws = [w]" "Resp w \<noteq> None"
      using one_reply_handle_value [of E L "Cs i" v authenticated s] by (auto simp: one_reply_def Resp_None)
    have "fst (conn_loop E L Cs i authenticated s stream) = w # fst (conn_loop E L Cs (Suc i) auth' s' rest)"
      using rd Inr h w(1) by (simp add: conn_loop.simps [of _ _ _ _ _ _ stream] split: prod.split)
    moreover have "values_read stream = v # values_read rest" using rd Inr by (simp add: values_read.simps [of stream])
    ultimately show ?thesis using 1 rd Inr ReadValue_shorter h w by (simp, blast)
  qed (simp add: rd conn_loop.simps [of _ _ _ _ _ _ stream] values_read.simps [of stream])
qed

text \<open>A command that logs a client in: \<open>AUTH\<close> with a token of the right digest.\<close>

definition logs_in :: "lib \<Rightarrow> string \<Rightarrow> Value \<Rightarrow> bool" where
  "logs_in L token v \<longleftrightarrow> (\<exists>name t. v = Array [BulkString (Some name), BulkString (Some t)] \<and>
     ToUpper (unicode_upper L) name = ''AUTH'' \<and> sha256 L t = sha256 L token)"

fun is_error :: "Value \<Rightarrow> bool" where
  "is_error (Error m) = True"
| "is_error _ = False"

lemma getBulkString_Some: "getBulkString v = Some b \<longleftrightarrow> v = BulkString (Some b)"
  by (cases v rule: getBulkString.cases) auto

lemma handle_value_locked:
  assumes "authToken s \<noteq> []" and "\<not> logs_in L (authToken s) v"
  shows "\<exists>m. handle_value E L C v False s = ([Error m], [], False, s)"
proof -
  have "\<exists>m. handle_auth L args False s = ([Error m], False)"
    if "v = Array (BulkString (Some name) # args)" "ToUpper (unicode_upper L) name = ''AUTH''" for name args
  proof (cases "\<exists>t. args = [BulkString (Some t)]")
    case True
    then show ?thesis using that assms by (auto simp: logs_in_def handle_auth_def)
  next
    case False
    then have "length args \<noteq> 1 \<or> getBulkString (args ! 0) = None"
      by (cases args) (auto, metis getBulkString_Some not_None_eq)
    then show ?thesis using assms(1) by (auto simp: handle_auth_def Let_def)
  qed
  then show ?thesis
    by (cases v) (auto simp: handle_value_def getBulkString_Some neq_Nil_conv Let_def split: option.split prod.split)
qed

lemma conn_loop_locked:
  assumes "authToken s \<noteq> []" and "list_all (\<lambda>v. \<not> logs_in L (authToken s) v) (values_read stream)"
  shows "\<exists>replies. conn_loop E L Cs i False s stream = (replies, [], s) \<and> list_all is_error replies"
  using assms(2)
proof (induction stream arbitrary: i rule: length_induct)
  case (1 stream)
  obtain r rest where rd: "ReadValue stream = (r, rest)" by fastforce
  show ?case
  proof (cases r)
    case (Inr v)
    have vs: "\<not> logs_in L (authToken s) v" "list_all (\<lambda>v. \<not> logs_in L (authToken s) v) (values_read rest)"
      using 1(2) rd Inr by (simp_all add: values_read.simps [of stream])
    obtain m where "handle_value E L (Cs i) v False s = ([Error m], [], False, s)"
      using handle_value_locked [OF assms(1) vs(1)] by blast
    moreover have "length rest < length stream" using rd Inr by (simp add: ReadValue_shorter)
    then obtain replies where "conn_loop E L Cs (Suc i) False s rest = (replies, [], s)" "list_all is_error replies"
      using 1(1) vs(2) by blast
    ultimately show ?thesis
      using rd Inr by (simp add: conn_loop.simps [of _ _ _ _ _ _ stream])
  qed (simp add: conn_loop.simps [of _ _ _ _ _ _ stream] rd)
qed

lemma handleConn_locked:
  assumes "authToken s \<noteq> []"
    and "\<forall>v \<in> set (values_read stream). \<forall>name token. v = Array [BulkString (Some name), BulkString (Some token)] \<and>
      ToUpper (unicode_upper L) name = ''AUTH'' \<longrightarrow> sha256 L token \<noteq> sha256 L (authToken s)"
  shows "\<exists>errs. handleConn E L Cs s stream = (map Error errs, [], s)"
proof -
  have "list_all (\<lambda>v. \<not> logs_in L (authToken s) v) (values_read stream)"
    using assms(2) unfolding list_all_iff logs_in_def by blast
  from conn_loop_locked [OF assms(1) this, of E Cs 0] assms(1)
  obtain replies where r: "handleConn E L Cs s stream = (replies, [], s)" "list_all is_error replies"
    by (auto simp: handleConn_def)
  have "\<exists>errs. vs = map Error errs" if "list_all is_error vs" for vs
    using that by (induction vs) (auto elim!: is_error.elims(2), metis list.simps(9))
  with r show ?thesis by blast
qed

section \<open>What the key commands do to the store\<close>

definition server_view :: "('t, 'b) env \<Rightarrow> 't Server \<Rightarrow> (string \<rightharpoonup> Entry)" where
  "server_view E s = view E (srv_shared s)"

text \<open>What \<open>GET\<close> answers for an entry.\<close>

definition reply_of :: "Entry option \<Rightarrow> Value" where
  "reply_of e = (case e of None \<Rightarrow> NullBulkString | Some x \<Rightarrow> if Deleted x then NullBulkString else NewBulkString (Entry.Value x))"

lemma ReplicateWithQuorum_keeps:
  assumes "ReplicateWithQuorum E reach rid results key e w (h, sh) = (r, out, h', sh')"
  shows "node_id h' = node_id h" "sh' = set_with_version E key e sh"
proof -
  obtain q out1 h1 sh1 where st: "quorum_start E reach rid key e w (h, sh) = (q, out1, h1, sh1)" by (metis prod_cases4)
  have "node_id h1 = node_id h"
    using st by (auto simp: quorum_start_def Let_def node_id_def split: if_splits option.splits)
  then show "node_id h' = node_id h"
    using assms st by (auto simp: ReplicateWithQuorum_def remove_pending_def node_id_def split: sum.splits)
  have "sh' = sh1" using assms st by (auto simp: ReplicateWithQuorum_def split: sum.splits)
  then show "sh' = set_with_version E key e sh" using quorum_start_shared [OF st] by simp
qed

lemma replicate_key_spec:
  assumes "replicate_key E C key e g s = (r, out, s')" and "gossip s = Some g"
  shows "srv_shared s' = set_with_version E key e (srv_shared s)" "nodeID s' = nodeID s" "gossip s' \<noteq> None"
proof -
  obtain reach rid results w g' sh' where q: "ReplicateWithQuorum E reach rid results key e w (g, srv_shared s) = (r, out, g', sh')"
    "s' = s\<lparr>gossip := Some g', srv_shared := sh'\<rparr>"
    using assms(1) by (auto simp: replicate_key_def Let_def split: prod.splits)
  note g = q(2) [unfolded ReplicateWithQuorum_keeps(2) [OF q(1)]] ReplicateWithQuorum_keeps(1) [OF q(1)]
  show "srv_shared s' = set_with_version E key e (srv_shared s)" "nodeID s' = nodeID s" "gossip s' \<noteq> None"
    using assms(2) g by (simp_all add: nodeID_def)
qed

lemma moved_to_cong:
  "sh_ring (srv_shared s') = sh_ring (srv_shared s) \<Longrightarrow> nodeID s' = nodeID s \<Longrightarrow> moved_to E key s' = moved_to E key s"
  by (simp add: moved_to_def)

lemma update_store_sel [simp]:
  "sh_ring (srv_shared (update_store f s)) = sh_ring (srv_shared s)" "nodeID (update_store f s) = nodeID s"
  "gossip (update_store f s) = gossip s" "sh_store (srv_shared (update_store f s)) = f (sh_store (srv_shared s))"
  by (simp_all add: update_store_def nodeID_def split: option.split)

lemma dispatch_simps:
  "dispatch E L C ''SET'' args s = handleKeyCommand E ''SET'' 2 args (set_fn E L C) s"
  "dispatch E L C ''GET'' args s = handleKeyCommand E ''GET'' 1 args (get_fn E) s"
  "dispatch E L C ''DEL'' args s = handleDel E L C args s"
  by (simp_all add: dispatch_def)

lemma lww_put_same: "m k = Some e \<Longrightarrow> lww_put k e m = m"
  by (auto simp: lww_put_def newer_iff_rank)

lemma bulk_keys_map [simp]: "bulk_keys (map (\<lambda>k. BulkString (Some k)) keys) = Some keys"
  by (induction keys) simp_all

lemma first_moved_None: "first_moved E keys s = None \<longleftrightarrow> list_all (\<lambda>k. moved_to E k s = None) keys"
  by (induction keys) (auto split: option.split)

context gossip_env
begin

lemma get_fn_view: "get_fn E key v s = ([reply_of (server_view E s key)], [], s)"
  using ordered_tree.Get_contents [OF tree, of key "sh_store (srv_shared s)"]
  by (auto simp: get_fn_def reply_of_def server_view_def view_def split: option.split)

lemma dispatch_GET:
  "dispatch E L C ''GET'' [BulkString (Some key)] s =
    (case moved_to E key s of Some a \<Rightarrow> ([Error (''MOVED '' @ a)], [], s) | None \<Rightarrow> ([reply_of (server_view E s key)], [], s))"
  by (simp add: dispatch_simps handleKeyCommand_def get_fn_view split: option.split)

lemma set_fn_spec:
  assumes "set_fn E L C key value s = (reply, out, s')"
    and "clock_inv (env_tree E) (sh_store (srv_shared s))" and "sint (clock (sh_store (srv_shared s))) < 2 ^ 63 - 1"
  shows "\<exists>e. Entry.Value e = value \<and> \<not> Deleted e \<and> Origin e = nodeID s \<and> server_view E s' = (server_view E s)(key \<mapsto> e)"
    "sh_ring (srv_shared s') = sh_ring (srv_shared s)" "nodeID s' = nodeID s"
    "reply = [OK] \<or> (\<exists>err. reply = [Error (''ERR '' @ quorum_error_text L err)])"
proof -
  let ?st = "sh_store (srv_shared s)"
  let ?e = "fst (SetFrom (env_tree E) key value (nodeID s) ?st)"
  let ?s1 = "update_store (\<lambda>st. snd (SetFrom (env_tree E) key value (nodeID s) st)) s"
  have v1: "server_view E ?s1 = (server_view E s)(key \<mapsto> ?e)"
    using ordered_tree.SetFrom_stores [OF tree assms(2,3)] by (simp add: server_view_def view_def)
  have e: "Entry.Value ?e = value" "\<not> Deleted ?e" "Origin ?e = nodeID s"
    by (simp_all add: ordered_tree.SetFrom_entry [OF tree])
  have "server_view E s' = (server_view E s)(key \<mapsto> ?e) \<and> sh_ring (srv_shared s') = sh_ring (srv_shared s) \<and> nodeID s' = nodeID s \<and>
      (reply = [OK] \<or> (\<exists>err. reply = [Error (''ERR '' @ quorum_error_text L err)]))"
  proof (cases "gossip s")
    case None
    then show ?thesis using assms(1) v1 by (auto simp: set_fn_def Let_def)
  next
    case (Some g)
    then have g: "gossip ?s1 = Some g" by simp
    obtain r out' s2 where rk: "replicate_key E C key ?e g ?s1 = (r, out', s2)" by (metis prod_cases3)
    note k = replicate_key_spec [OF rk g]
    have "s' = s2" "reply = [OK] \<or> (\<exists>err. reply = [Error (''ERR '' @ quorum_error_text L err)])"
      using assms(1) rk g by (auto simp: set_fn_def Let_def split: option.splits)
    moreover have "server_view E s2 = (server_view E s)(key \<mapsto> ?e)"
      using lww_put_same [of "server_view E ?s1" key ?e] v1 by (simp add: server_view_def k(1) view_set_with_version)
    ultimately show ?thesis using k by simp
  qed
  with e show "\<exists>e. Entry.Value e = value \<and> \<not> Deleted e \<and> Origin e = nodeID s \<and> server_view E s' = (server_view E s)(key \<mapsto> e)"
    "sh_ring (srv_shared s') = sh_ring (srv_shared s)" "nodeID s' = nodeID s"
    "reply = [OK] \<or> (\<exists>err. reply = [Error (''ERR '' @ quorum_error_text L err)])" by blast+
qed

lemma replicate_tombstones_spec:
  assumes "replicate_tombstones E C its g s = (r, out, s')" and "gossip s = Some g"
    and "list_all (\<lambda>(k, e). server_view E s k = Some e) its"
  shows "server_view E s' = server_view E s \<and> sh_ring (srv_shared s') = sh_ring (srv_shared s) \<and> nodeID s' = nodeID s"
  using assms
proof (induction its arbitrary: g s r out)
  case (Cons it its)
  obtain k e where it: "it = (k, e)" by fastforce
  obtain r1 out1 s1 where rk: "replicate_key E C k e g s = (r1, out1, s1)" by (metis prod_cases3)
  note k = replicate_key_spec [OF rk Cons.prems(2)]
  obtain g1 where g1: "gossip s1 = Some g1" using k(3) by blast
  have v: "server_view E s1 = server_view E s"
    using Cons.prems(3) lww_put_same by (simp add: it server_view_def k(1) view_set_with_version)
  show ?case
  proof (cases r1)
    case None
    obtain r2 out2 s2 where rest: "replicate_tombstones E C its g1 s1 = (r2, out2, s2)" by (metis prod_cases3)
    have "s' = s2" using Cons.prems(1) it rk None g1 rest by simp
    then show ?thesis using Cons.IH [of g1 s1 r2 out2] rest g1 Cons.prems(3) k v it by (simp add: list_all_iff)
  next
    case (Some err)
    then show ?thesis using Cons.prems(1) it rk k v by simp
  qed
qed simp

end

context gossip_env
begin

lemma handleDel_spec:
  assumes "handleDel E L C (map (\<lambda>k. BulkString (Some k)) keys) s = (reply, out, s')"
    and "keys \<noteq> []" and "list_all (\<lambda>k. moved_to E k s = None) keys"
  shows "\<exists>ts. dom ts = set keys \<and> (\<forall>k e. ts k = Some e \<longrightarrow> Deleted e) \<and> server_view E s' = server_view E s ++ ts"
    "sh_ring (srv_shared s') = sh_ring (srv_shared s)" "nodeID s' = nodeID s"
    "reply = [Integer (int (card (live (server_view E s) \<inter> set keys)))] \<or> (\<exists>err. reply = [Error (''ERR '' @ quorum_error_text L err)])"
proof -
  obtain n ts st where d: "Del (env_tree E) (nodeID s) keys (sh_store (srv_shared s)) = (n, ts, st)" by (metis prod_cases3)
  note spec = ordered_tree.Del_spec [OF tree d]
  let ?s1 = "update_store (\<lambda>_. st) s"
  have v1: "server_view E ?s1 = server_view E s ++ ts" using spec(2) by (simp add: server_view_def view_def)
  have n: "n = int (card (live (server_view E s) \<inter> set keys))" using spec(4) by (simp add: server_view_def view_def)
  have del: "handleDel E L C (map (\<lambda>k. BulkString (Some k)) keys) s =
      (case gossip ?s1 of None \<Rightarrow> ([Integer n], [], ?s1)
       | Some g \<Rightarrow> (case replicate_tombstones E C (range_map E ts) g ?s1 of
           (Some err, out, s2) \<Rightarrow> ([Error (''ERR '' @ quorum_error_text L err)], out, s2)
         | (None, out, s2) \<Rightarrow> ([Integer n], out, s2)))"
    using assms(2,3) d by (simp add: handleDel_def first_moved_None [THEN iffD2] Let_def)
  have "server_view E s' = server_view E s ++ ts \<and> sh_ring (srv_shared s') = sh_ring (srv_shared s) \<and> nodeID s' = nodeID s \<and>
      (reply = [Integer n] \<or> (\<exists>err. reply = [Error (''ERR '' @ quorum_error_text L err)]))"
  proof (cases "gossip ?s1")
    case None
    then show ?thesis using assms(1) v1 by (auto simp: del)
  next
    case (Some g)
    obtain r out' s2 where rt: "replicate_tombstones E C (range_map E ts) g ?s1 = (r, out', s2)" by (metis prod_cases3)
    have "finite (dom ts)" using spec(1) by simp
    then have r: "distinct (map fst (range_map E ts))" "map_of (range_map E ts) = ts" using range by blast+
    have "ts k = Some e" if "(k, e) \<in> set (range_map E ts)" for k e
      using map_of_is_SomeI [OF r(1) that] unfolding r(2) .
    then have "list_all (\<lambda>(k, e). server_view E ?s1 k = Some e) (range_map E ts)"
      unfolding v1 list_all_iff by (auto simp: map_add_Some_iff)
    note k = replicate_tombstones_spec [OF rt Some this]
    have "s' = s2 \<and> (reply = [Integer n] \<or> (\<exists>err. reply = [Error (''ERR '' @ quorum_error_text L err)]))"
      using assms(1) Some rt by (auto simp: del split: option.splits)
    with k v1 show ?thesis by simp
  qed
  moreover have "\<forall>k e. ts k = Some e \<longrightarrow> Deleted e" using spec(3) by blast
  ultimately show "\<exists>ts. dom ts = set keys \<and> (\<forall>k e. ts k = Some e \<longrightarrow> Deleted e) \<and> server_view E s' = server_view E s ++ ts"
    "sh_ring (srv_shared s') = sh_ring (srv_shared s)" "nodeID s' = nodeID s"
    "reply = [Integer (int (card (live (server_view E s) \<inter> set keys)))] \<or> (\<exists>err. reply = [Error (''ERR '' @ quorum_error_text L err)])"
    using spec(1) n by blast+
qed

end

section \<open>An example server\<close>

definition ex_lib :: lib where
  "ex_lib = \<lparr>sha256 = \<lambda>s. s, unicode_upper = \<lambda>s. s, marshal_error = []\<rparr>"

definition ex_command_env :: command_env where
  "ex_command_env = \<lparr>calls = \<lambda>_. \<lparr>call_reach = \<lambda>_. False, call_id = ''id'', call_results = []\<rparr>, MembersInfo = []\<rparr>"

text \<open>A node with a handler, a write concern of two, and the given ring.\<close>

definition ex_server :: "string \<Rightarrow> consistentHashring \<Rightarrow> alist_tree Server" where
  "ex_server token ring = \<lparr>srv_addr = ''h:1'', ln = None, localID = ''z'',
     srv_shared = \<lparr>sh_store = Store.New alist_btree, sh_ring = ring\<rparr>,
     gossip = Some (ex_handler ''z''), writeConcern = 2, authToken = token\<rparr>"

lemma ex_server_sel [simp]:
  "authToken (ex_server t r) = t" "sh_ring (srv_shared (ex_server t r)) = r" "nodeID (ex_server t r) = ''z''"
  "sh_store (srv_shared (ex_server t r)) = Store.New alist_btree"
  by (simp_all add: ex_server_def nodeID_def)

lemma ex_login: "values_read (''AUTH no'' @ CRLF) = [Array [BulkString (Some ''AUTH''), BulkString (Some ''no'')]]"
proof -
  have "Fields ''AUTH no'' = [''AUTH'', ''no'']" by code_simp
  then have "ReadValue (''AUTH no'' @ CRLF) = (Inr (Array [BulkString (Some ''AUTH''), BulkString (Some ''no'')]), [])"
    using readLine_ok [of "''AUTH no''" "[]"]
    by (simp add: ReadValue_def readValue.simps [of 0] readInline_def maxLineLength_def NewBulkString_def)
  moreover have "ReadValue [] = (Inl ErrStream, [])" by (simp add: ReadValue_def readValue.simps [of 0])
  ultimately show ?thesis
    by (simp only: values_read.simps [of "''AUTH no'' @ _"] values_read.simps [of "[]"] prod.case sum.case)
qed

text \<open>
  The slot \<open>CLUSTER KEYSLOT\<close> gives for a key need not belong to the key's owner: the ring hashes the text of
  the slot number to find the slot's owner.
\<close>

lemma keyslot_not_owner:
  "NodeID (getSlotOwner ex_hash (entries ex_ring) (keyslot ref_env ''abc'')) \<noteq> fst (GetNode ex_hash ''abc'' ex_ring)"
proof -
  have "ex_hash ''abc'' mod 16384 = 14434" by code_simp
  moreover have "itoa 14434 = ''14434''" by (simp add: itoa_def nat_digits.simps digit_char_def) code_simp
  moreover have "re_nodeID (entries ex_ring ! owner_index (entries ex_ring) (ex_hash ''SLOT:14434'')) = ''a''" by code_simp
  moreover have "fst (GetNode ex_hash ''abc'' ex_ring) = ''c''" by code_simp
  ultimately show ?thesis by (simp add: keyslot_def getSlotOwner_def)
qed

text \<open>No command of the server has a line break in its name.\<close>

lemma split_command: "CR \<notin> set cmd \<Longrightarrow> a @ CR # LF # b \<noteq> cmd"
  by auto

section \<open>Properties\<close>

text \<open>
  Nothing happens before a login: on a server with a password, whatever bytes a client sends, as long
  as none of its commands is \<open>AUTH\<close> with a token of the password's digest, every reply is an error, no
  message is sent to other nodes, and the server's store, ring and settings do not change.
\<close>

theorem locked_connection_only_errors:
  assumes "authToken s \<noteq> []"
    and "\<forall>v \<in> set (values_read stream). \<forall>name token. v = Array [BulkString (Some name), BulkString (Some token)] \<and>
      ToUpper (unicode_upper L) name = ''AUTH'' \<longrightarrow> sha256 L token \<noteq> sha256 L (authToken s)"
  shows "\<exists>errs. handleConn E L Cs s stream = (map Error errs, [], s)"
  by (rule handleConn_locked [OF assms])

theorem locked_connection_only_errors_witness:
  "\<exists>errs. handleConn ref_env ex_lib (\<lambda>_. ex_command_env) (ex_server ''pw'' ex_ring) (''AUTH no'' @ CRLF) =
    (map Error errs, [], ex_server ''pw'' ex_ring)"
  by (rule locked_connection_only_errors) (simp_all only: ex_login, simp_all add: ex_lib_def)

text \<open>
  C35. A connection answers every command: the replies written are, in order and one to each value read, what the
  turn of the loop writes on that value; no branch of any command writes nothing or writes twice, and every reply
  can be encoded, so that writing it never panics on a nil value.
\<close>

theorem handleConn_replies:
  "list_all2 (\<lambda>v r. \<exists>k a s' out a' s''. handle_value E L (Cs k) v a s' = ([r], out, a', s'') \<and> Resp r \<noteq> None)
    (values_read stream) (fst (handleConn E L Cs s stream))"
  unfolding handleConn_def by (rule conn_loop_replies)

text \<open>
  C36. A key of another node is redirected and nothing else happens: when the ring names another owner,
  \<open>SET\<close> and \<open>GET\<close> of the key, and \<open>DEL\<close> of a list of which it is the first such key, answer \<open>MOVED\<close> with
  the owner's address, send no message and leave the server unchanged.
\<close>

theorem redirect_leaves_server_unchanged:
  assumes "GetNode (env_hash E) key (sh_ring (srv_shared s)) = (owner, addr)" and "owner \<noteq> []" and "owner \<noteq> nodeID s"
    and "\<forall>k \<in> set own. fst (GetNode (env_hash E) k (sh_ring (srv_shared s))) \<in> {[], nodeID s}"
  shows "dispatch E L C ''SET'' [BulkString (Some key), v] s = ([Error (''MOVED '' @ addr)], [], s) \<and>
    dispatch E L C ''GET'' [BulkString (Some key)] s = ([Error (''MOVED '' @ addr)], [], s) \<and>
    dispatch E L C ''DEL'' (map (\<lambda>k. BulkString (Some k)) (own @ key # others)) s = ([Error (''MOVED '' @ addr)], [], s)"
proof -
  have m: "moved_to E key s = Some addr" using assms(1-3) by (simp add: moved_to_def)
  have "moved_to E k s = None" if "k \<in> set own" for k
    using assms(4) that by (auto simp: moved_to_def split: prod.split)
  then have "first_moved E (own @ key # others) s = Some addr"
    using m by (induction own) (auto split: option.split)
  then show ?thesis
    using m bulk_keys_map [of "own @ key # others"] by (simp add: dispatch_simps handleKeyCommand_def handleDel_def)
qed

theorem redirect_leaves_server_unchanged_witness:
  "dispatch ref_env ex_lib ex_command_env ''DEL'' [BulkString (Some ''k''), BulkString (Some ''l'')] (ex_server [] ex_ring) =
    ([Error ''MOVED x''], [], ex_server [] ex_ring)"
proof -
  have "GetNode ex_hash ''k'' ex_ring = (''a'', ''x'')" by code_simp
  then show ?thesis
    using redirect_leaves_server_unchanged [of ref_env "''k''" "ex_server [] ex_ring" "''a''" "''x''" "[]" ex_lib ex_command_env NilValue "[''l'']"]
    by simp
qed

text \<open>
  C7. A client reads its own writes: after a \<open>SET\<close> of a key this node owns, \<open>GET\<close> returns the value, and
  after a following \<open>DEL\<close> it returns nil, even if the quorum was not reached and the reply was an error;
  the deletion is counted once, and no other key is affected.
\<close>

theorem client_reads_own_writes:
  assumes "gossip_env E" and "clock_inv (env_tree E) (sh_store (srv_shared s))"
    and "sint (clock (sh_store (srv_shared s))) < 2 ^ 63 - 1" and "moved_to E key s = None"
    and "dispatch E L C ''SET'' [BulkString (Some key), BulkString (Some val)] s = (r1, out1, s1)"
    and "dispatch E L C' ''DEL'' [BulkString (Some key)] s1 = (r2, out2, s2)"
  shows "dispatch E L D ''GET'' [BulkString (Some key)] s1 = ([NewBulkString val], [], s1) \<and>
    dispatch E L D ''GET'' [BulkString (Some key)] s2 = ([NullBulkString], [], s2) \<and>
    (k \<noteq> key \<longrightarrow> fst (dispatch E L D ''GET'' [BulkString (Some k)] s1) = fst (dispatch E L D ''GET'' [BulkString (Some k)] s) \<and>
      fst (dispatch E L D ''GET'' [BulkString (Some k)] s2) = fst (dispatch E L D ''GET'' [BulkString (Some k)] s)) \<and>
    (r1 = [OK] \<or> (\<exists>err. r1 = [Error (''ERR '' @ quorum_error_text L err)])) \<and>
    (r2 = [Integer 1] \<or> (\<exists>err. r2 = [Error (''ERR '' @ quorum_error_text L err)]))"
proof -
  have "set_fn E L C key val s = (r1, out1, s1)" using assms(4,5) by (simp add: dispatch_simps handleKeyCommand_def)
  note S = gossip_env.set_fn_spec [OF assms(1) this assms(2,3)]
  obtain e where e: "Entry.Value e = val" "\<not> Deleted e" "server_view E s1 = (server_view E s)(key \<mapsto> e)" using S(1) by blast
  have m1: "moved_to E k s1 = moved_to E k s" for k using moved_to_cong [OF S(2,3)] .
  have "handleDel E L C' (map (\<lambda>k. BulkString (Some k)) [key]) s1 = (r2, out2, s2)" using assms(6) by (simp add: dispatch_simps)
  note D = gossip_env.handleDel_spec [OF assms(1) this]
  have own: "list_all (\<lambda>k. moved_to E k s1 = None) [key]" using m1 assms(4) by simp
  obtain ts where ts: "dom ts = {key}" "\<And>k e. ts k = Some e \<Longrightarrow> Deleted e" "server_view E s2 = server_view E s1 ++ ts"
    using D(1) [OF _ own] by auto
  have m2: "moved_to E k s2 = moved_to E k s1" for k using moved_to_cong [OF D(2,3) [OF _ own]] by simp
  obtain e' where "ts key = Some e'" "Deleted e'" using ts(1,2) by blast
  then have v2: "server_view E s2 key = Some e'" "Deleted e'" using ts(3) by (simp_all add: map_add_def)
  have "server_view E s2 k = server_view E s1 k" if "k \<noteq> key" for k using that ts(1,3) by (auto simp: map_add_dom_app_simps)
  moreover have "live (server_view E s1) \<inter> {key} = {key}" using e by (auto simp: live_def)
  ultimately show ?thesis
    using e v2 S(4) D(4) [OF _ own] assms(4)
    by (auto simp: gossip_env.dispatch_GET [OF assms(1)] m1 m2 reply_of_def split: option.split)
qed

theorem client_reads_own_writes_witness:
  "let (r1, _, s1) = dispatch ref_env ex_lib ex_command_env ''SET'' [BulkString (Some ''k''), BulkString (Some ''v'')] (ex_server [] (Hashring.New ''z''));
     (r2, _, s2) = dispatch ref_env ex_lib ex_command_env ''DEL'' [BulkString (Some ''k'')] s1
   in fst (dispatch ref_env ex_lib ex_command_env ''GET'' [BulkString (Some ''k'')] s1) = [NewBulkString ''v''] \<and>
      fst (dispatch ref_env ex_lib ex_command_env ''GET'' [BulkString (Some ''k'')] s2) = [NullBulkString]"
proof -
  let ?s = "ex_server [] (Hashring.New ''z'')"
  obtain r1 out1 s1 where 1: "dispatch ref_env ex_lib ex_command_env ''SET'' [BulkString (Some ''k''), BulkString (Some ''v'')] ?s = (r1, out1, s1)"
    by (metis prod_cases3)
  obtain r2 out2 s2 where 2: "dispatch ref_env ex_lib ex_command_env ''DEL'' [BulkString (Some ''k'')] s1 = (r2, out2, s2)"
    by (metis prod_cases3)
  have "clock_inv (env_tree ref_env) (sh_store (srv_shared ?s))" by (simp add: clock_inv_def alist.contents_New)
  moreover have "sint (clock (sh_store (srv_shared ?s))) < 2 ^ 63 - 1" by (simp add: Store.New_def)
  moreover have "moved_to ref_env ''k'' ?s = None" by (simp add: moved_to_def GetNode_def Hashring.New_def)
  ultimately show ?thesis
    using client_reads_own_writes [OF ref.gossip_env_axioms _ _ _ 1 2, of ex_command_env] 1 2 by simp
qed

text \<open>
  C37. The echo of an unknown command is not escaped: for every command name that contains CRLF, the client reads the
  single error reply as a short error followed by whatever the rest of the name spells, so that a value
  encoded in the name arrives at the client as a reply of the server. This holds when the name's first line has no
  LF and fits the length of a line, and the value is within the limits of the reader.
\<close>

theorem unknown_command_splits_reply:
  assumes "ToUpper (unicode_upper L) name = a @ CRLF @ b" and "LF \<notin> set a" and "length a + 23 \<le> maxLineLength"
  shows "handle_value E L C (Array (BulkString (Some name) # args)) True s =
      ([Error (''ERR unknown command '' @ [CHR 0x27] @ a @ CRLF @ b @ [CHR 0x27])], [], True, s) \<and>
    map_option values_read (Resp (Error (''ERR unknown command '' @ [CHR 0x27] @ a @ CRLF @ b @ [CHR 0x27]))) =
      Some (Error (''ERR unknown command '' @ [CHR 0x27] @ a) # values_read (b @ [CHR 0x27] @ CRLF)) \<and>
    (\<forall>v bytes b'. b = bytes @ b' \<and> Resp v = Some bytes \<and> in_limits maxArrayDepth v \<longrightarrow>
      values_read (b @ [CHR 0x27] @ CRLF) = v # values_read (b' @ [CHR 0x27] @ CRLF))"
proof -
  let ?a = "''ERR unknown command '' @ [CHR 0x27] @ a" and ?b = "b @ [CHR 0x27]"
  have "dispatch E L C (a @ CRLF @ b) args s = ([Error (?a @ CRLF @ ?b)], [], s)" "a @ CRLF @ b \<noteq> ''AUTH''"
    by (simp_all add: dispatch_def split_command)
  then have hv: "handle_value E L C (Array (BulkString (Some name) # args)) True s = ([Error (?a @ CRLF @ ?b)], [], True, s)"
    using assms(1) by (simp add: handle_value_def)
  have "ReadValue (''-'' @ ?a @ CRLF @ ?b @ CRLF) = (Inr (Error ?a), ?b @ CRLF)"
    using readLine_ok [of ?a "?b @ CRLF"] assms(2,3) by (simp add: ReadValue_def readValue.simps [of 0] readError_def)
  then have "values_read (''-'' @ ?a @ CRLF @ ?b @ CRLF) = Error ?a # values_read (?b @ CRLF)"
    by (simp only: values_read.simps [of "''-'' @ _"] prod.case sum.case)
  moreover have "values_read (bytes @ b' @ [CHR 0x27] @ CRLF) = v # values_read (b' @ [CHR 0x27] @ CRLF)"
    if "Resp v = Some bytes" "in_limits maxArrayDepth v" for v bytes b'
    by (subst values_read.simps) (simp add: ReadValue_def readValue_Resp [OF that(2) _ that(1)])
  ultimately show ?thesis using hv by simp
qed

theorem unknown_command_splits_reply_witness:
  "\<exists>rest. map (map_option values_read \<circ> Resp)
      (fst (handle_value ref_env ex_lib ex_command_env (Array [BulkString (Some (''x'' @ CRLF @ ''+OK'' @ CRLF))]) True (ex_server [] ex_ring))) =
    [Some (Error (''ERR unknown command '' @ [CHR 0x27] @ ''X'') # SimpleString ''OK'' # rest)]"
proof -
  have up: "ToUpper (unicode_upper ex_lib) (''x'' @ CRLF @ ''+OK'' @ CRLF) = ''X'' @ CRLF @ ''+OK'' @ CRLF"
    by (simp add: ToUpper_def ascii_def ascii_upper_def) code_simp
  have a: "LF \<notin> set ''X''" "length ''X'' + 23 \<le> maxLineLength" by (simp_all add: maxLineLength_def)
  have v: "in_limits maxArrayDepth (SimpleString ''OK'')" "Resp (SimpleString ''OK'') = Some (''+OK'' @ CRLF)" by (simp_all add: maxLineLength_def)
  note split = unknown_command_splits_reply [OF up a, of ref_env ex_command_env "[]" "ex_server [] ex_ring"]
  have "values_read ((''+OK'' @ CRLF) @ [CHR 0x27] @ CRLF) = SimpleString ''OK'' # values_read ([] @ [CHR 0x27] @ CRLF)"
    using split [THEN conjunct2, THEN conjunct2] v by blast
  with split show ?thesis by simp
qed

end
