(* ===== verification/Tls.thy ===== *)
theory Tls
  imports Server
begin

text \<open>
  The TLS transport, \<open>src/internal/gossip/tls_transport.go\<close>: the goroutine that makes TLS connections of the
  raw ones the inner transport accepts, its shutdown, and dialling.

  The inner transport, the sockets and the TLS protocol are parameters: which addresses bind, whether a
  deadline can be set, whether a handshake succeeds. \<open>'c\<close> is the type of connections. The methods that
  only pass their arguments on to the inner transport are not modelled.
\<close>

section \<open>Configuration\<close>

text \<open>The fields of \<open>tls.Config\<close> the program sets.\<close>

datatype ClientAuthType =
    NoClientCert
  | RequestClientCert
  | RequireAnyClientCert
  | VerifyClientCertIfGiven
  | RequireAndVerifyClientCert

datatype CertPool = SystemPool | PoolFromFile string

record tlsConfig =
  Certificate :: "string \<times> string"
  ClientAuth :: ClientAuthType
  ClientCAs :: CertPool
  RootCAs :: CertPool
  MinVersion :: nat
  ServerName :: string

text \<open>
  In a \<open>TLSTransport\<close>, \<open>rawCh\<close> holds the connections the inner transport offers, \<open>sending\<close> the connection
  the interceptor holds when it waits at its second \<open>select\<close>, \<open>streamCh\<close> those memberlist has received;
  that channel has no buffer, and \<open>receiver\<close> says whether memberlist waits for a connection from it;
  \<open>connsClosed\<close> those the interceptor closed; \<open>shutdownCh\<close> says whether that channel is closed, \<open>wg\<close>
  counts the interceptor while it runs.
\<close>

record 'c TLSTransport =
  t_tlsConfig :: tlsConfig
  rawCh :: "'c list"
  rawClosed :: bool
  sending :: "'c option"
  streamCh :: "'c list"
  receiver :: bool
  connsClosed :: "'c list"
  shutdownCh :: bool
  wg :: nat
  innerDown :: bool

text \<open>The fields of \<open>memberlist.Config\<close> the program reads or sets.\<close>

record 'c mlConfig =
  ml_Name :: string
  BindAddr :: string
  BindPort :: int
  AdvertisePort :: int
  ml_SecretKey :: "string option"
  EnableCompression :: bool
  ml_Transport :: "'c TLSTransport option"

definition new_transport :: "tlsConfig \<Rightarrow> 'c TLSTransport" where
  "new_transport tlsCfg =
     \<lparr>t_tlsConfig = tlsCfg, rawCh = [], rawClosed = False, sending = None, streamCh = [], receiver = False, connsClosed = [],
      shutdownCh = False, wg = 1, innerDown = False\<rparr>"

text \<open>\<open>newNet\<close> is \<open>memberlist.NewNetTransport\<close>: an error, or a transport, of which the port it bound matters.\<close>

definition NewTLSTransport :: "(string \<Rightarrow> int \<Rightarrow> int option) \<Rightarrow> tlsConfig \<Rightarrow> 'c mlConfig \<Rightarrow> ('c TLSTransport \<times> 'c mlConfig) option" where
  "NewTLSTransport newNet tlsCfg config =
     (case newNet (BindAddr config) (BindPort config) of
        None \<Rightarrow> None
      | Some port \<Rightarrow>
          Some (new_transport tlsCfg,
            if BindPort config = 0 then config\<lparr>BindPort := port, AdvertisePort := port\<rparr> else config))"

section \<open>The interceptor\<close>

text \<open>What a connection does: whether the deadline can be set, the handshake succeeds, the deadline can be cleared.\<close>

record 'c tls_env =
  SetDeadline :: "'c \<Rightarrow> bool"
  Handshake :: "tlsConfig \<Rightarrow> 'c \<Rightarrow> bool"
  ClearDeadline :: "'c \<Rightarrow> bool"

text \<open>The three checks of a raw connection; a connection that fails one is closed.\<close>

definition accept_conn :: "'c tls_env \<Rightarrow> tlsConfig \<Rightarrow> 'c \<Rightarrow> bool" where
  "accept_conn V tcfg c =
     (if \<not> SetDeadline V c then False
      else if \<not> Handshake V tcfg c then False
      else if \<not> ClearDeadline V c then False
      else True)"

definition fresh :: "'c \<Rightarrow> 'c TLSTransport \<Rightarrow> bool" where
  "fresh c t \<longleftrightarrow> c \<notin> set (rawCh t) \<union> set (streamCh t) \<union> set (connsClosed t) \<union> set_option (sending t)"

text \<open>
  \<open>streamInterceptor\<close>: a turn of its loop up to the second \<open>select\<close>, which ends with the return, with a closed
  connection, or with one to send; and the second \<open>select\<close>, which can send only when memberlist waits for a
  connection.
\<close>

inductive interceptor_step :: "'c tls_env \<Rightarrow> 'c TLSTransport \<Rightarrow> 'c TLSTransport \<Rightarrow> bool" for V where
  stop: "wg t = 1 \<Longrightarrow> sending t = None \<Longrightarrow> shutdownCh t \<Longrightarrow> interceptor_step V t (t\<lparr>wg := 0\<rparr>)"
| raw_closed: "wg t = 1 \<Longrightarrow> sending t = None \<Longrightarrow> rawCh t = [] \<Longrightarrow> rawClosed t \<Longrightarrow> interceptor_step V t (t\<lparr>wg := 0\<rparr>)"
| refuse: "wg t = 1 \<Longrightarrow> sending t = None \<Longrightarrow> rawCh t = c # cs \<Longrightarrow> \<not> accept_conn V (t_tlsConfig t) c \<Longrightarrow>
    interceptor_step V t (t\<lparr>rawCh := cs, connsClosed := c # connsClosed t\<rparr>)"
| wrap: "wg t = 1 \<Longrightarrow> sending t = None \<Longrightarrow> rawCh t = c # cs \<Longrightarrow> accept_conn V (t_tlsConfig t) c \<Longrightarrow>
    interceptor_step V t (t\<lparr>rawCh := cs, sending := Some c\<rparr>)"
| forward: "wg t = 1 \<Longrightarrow> sending t = Some c \<Longrightarrow> receiver t \<Longrightarrow>
    interceptor_step V t (t\<lparr>sending := None, streamCh := streamCh t @ [c], receiver := False\<rparr>)"
| drop_conn: "wg t = 1 \<Longrightarrow> sending t = Some c \<Longrightarrow> shutdownCh t \<Longrightarrow>
    interceptor_step V t (t\<lparr>sending := None, connsClosed := c # connsClosed t, wg := 0\<rparr>)"

datatype 'c tls_label = Intercept | Arrive 'c | Receive | CloseShutdownCh | InnerShutdown

text \<open>
  The statements of \<open>Shutdown\<close>: it closes \<open>shutdownCh\<close>, waits for the interceptor, and shuts the inner
  transport down. Closing \<open>shutdownCh\<close> twice panics, so there is no such step.
\<close>

inductive tls_shutdown :: "'c TLSTransport \<Rightarrow> 'c tls_label \<Rightarrow> 'c TLSTransport \<Rightarrow> bool" where
  close_shutdownCh: "\<not> shutdownCh t \<Longrightarrow> tls_shutdown t CloseShutdownCh (t\<lparr>shutdownCh := True\<rparr>)"
| inner_shutdown: "shutdownCh t \<Longrightarrow> wg t = 0 \<Longrightarrow> \<not> innerDown t \<Longrightarrow> tls_shutdown t InnerShutdown (t\<lparr>innerDown := True\<rparr>)"

text \<open>
  Both together, connections that arrive at the inner transport, and memberlist, which may turn to \<open>StreamCh()\<close>
  for its next connection at any time, or never again.
\<close>

inductive tls_step :: "'c tls_env \<Rightarrow> 'c TLSTransport \<Rightarrow> 'c tls_label \<Rightarrow> 'c TLSTransport \<Rightarrow> bool" for V where
  intercept: "interceptor_step V t t' \<Longrightarrow> tls_step V t Intercept t'"
| shut: "tls_shutdown t l t' \<Longrightarrow> tls_step V t l t'"
| arrive: "\<not> innerDown t \<Longrightarrow> \<not> rawClosed t \<Longrightarrow> fresh c t \<Longrightarrow> tls_step V t (Arrive c) (t\<lparr>rawCh := rawCh t @ [c]\<rparr>)"
| receive: "tls_step V t Receive (t\<lparr>receiver := True\<rparr>)"

inductive_cases tls_step_cases: "tls_step V t l t'"
inductive_cases interceptor_stepE: "interceptor_step V t t'"
inductive_cases tls_shutdownE: "tls_shutdown t l t'"

lemmas tls_stepE = tls_step_cases interceptor_stepE tls_shutdownE
lemmas interceptor_intros = interceptor_step.intros [THEN intercept]
lemmas tls_shutdown_intros = tls_shutdown.intros [THEN shut]

section \<open>Dialling\<close>

record mlAddress =
  addr_Addr :: string
  addr_Name :: string

definition dialTLSConfig :: "string \<Rightarrow> tlsConfig \<Rightarrow> tlsConfig" where
  "dialTLSConfig serverName tcfg =
     (if serverName \<noteq> [] \<and> ServerName tcfg = [] then tcfg\<lparr>ServerName := serverName\<rparr> else tcfg)"

text \<open>
  \<open>dial\<close> is the inner transport's \<open>DialAddressTimeout\<close>; \<open>handshake\<close> is the client's handshake, \<open>None\<close> when
  the peer never answers. The result is \<open>None\<close> when the call does not return, and otherwise the
  connection, if there is no error, and the raw connection it closed.
\<close>

definition DialAddressTimeout :: "(mlAddress \<Rightarrow> int \<Rightarrow> 'c option) \<Rightarrow> (tlsConfig \<Rightarrow> 'c \<Rightarrow> bool option) \<Rightarrow> tlsConfig
    \<Rightarrow> mlAddress \<Rightarrow> int \<Rightarrow> ('c option \<times> 'c option) option" where
  "DialAddressTimeout dial handshake tcfg addr timeout =
     (case dial addr timeout of
        None \<Rightarrow> Some (None, None)
      | Some raw \<Rightarrow>
          (let tlsCfg = dialTLSConfig (addr_Name addr) tcfg
           in case handshake tlsCfg raw of
                None \<Rightarrow> None
              | Some ok \<Rightarrow> if \<not> ok then Some (None, Some raw) else Some (Some raw, None)))"

definition DialTimeout :: "(mlAddress \<Rightarrow> int \<Rightarrow> 'c option) \<Rightarrow> (tlsConfig \<Rightarrow> 'c \<Rightarrow> bool option) \<Rightarrow> tlsConfig
    \<Rightarrow> string \<Rightarrow> int \<Rightarrow> ('c option \<times> 'c option) option" where
  "DialTimeout dial handshake tcfg addr timeout =
     (let host = (case SplitHostPort addr of None \<Rightarrow> addr | Some (h, _) \<Rightarrow> h)
      in DialAddressTimeout dial handshake tcfg \<lparr>addr_Addr = addr, addr_Name = host\<rparr> timeout)"

section \<open>The interceptor's invariant\<close>

text \<open>
  Every connection is in one place; what memberlist received or is about to receive passed the checks;
  a connection that passed them is closed only in a shutdown; the interceptor holds no connection after it
  returned, and the inner transport goes down only then.
\<close>

definition tls_inv :: "'c tls_env \<Rightarrow> tlsConfig \<Rightarrow> 'c TLSTransport \<Rightarrow> bool" where
  "tls_inv V tcfg t \<longleftrightarrow> t_tlsConfig t = tcfg \<and>
     distinct (rawCh t @ streamCh t @ connsClosed t @ (case sending t of None \<Rightarrow> [] | Some c \<Rightarrow> [c])) \<and>
     (\<forall>c \<in> set (streamCh t) \<union> set_option (sending t). accept_conn V tcfg c) \<and>
     (\<forall>c \<in> set (connsClosed t). accept_conn V tcfg c \<longrightarrow> shutdownCh t) \<and>
     wg t \<le> 1 \<and> (wg t = 0 \<longrightarrow> sending t = None) \<and> (wg t = 0 \<longrightarrow> shutdownCh t \<or> rawClosed t) \<and> (innerDown t \<longrightarrow> wg t = 0)"

lemma tls_inv_new [simp]: "tls_inv V tcfg (new_transport tcfg)"
  by (simp add: tls_inv_def new_transport_def)

lemma new_transport_config [simp]: "t_tlsConfig (new_transport tcfg) = tcfg"
  by (simp add: new_transport_def)

lemma tls_inv_step: "tls_step V t l t' \<Longrightarrow> tls_inv V tcfg t \<Longrightarrow> tls_inv V tcfg t'"
  by (elim tls_stepE) (auto simp: tls_inv_def fresh_def split: option.splits)

lemma tls_inv_run: "lts_run (tls_step V) (new_transport tcfg) ls t \<Longrightarrow> tls_inv V tcfg t"
  by (erule lts_run_invariant) (auto intro: tls_inv_step)

section \<open>The interceptor's work\<close>

definition is_intercept :: "'c tls_label \<Rightarrow> bool" where
  "is_intercept l = (case l of Intercept \<Rightarrow> True | _ \<Rightarrow> False)"

definition tls_work :: "'c TLSTransport \<Rightarrow> nat" where
  "tls_work t = 2 * length (rawCh t) + (if sending t = None then 0 else 1) + wg t"

definition tls_added :: "'c tls_label \<Rightarrow> nat" where
  "tls_added l = (case l of Arrive _ \<Rightarrow> 2 | _ \<Rightarrow> 0)"

interpretation interceptor: bounded_work "tls_step V" is_intercept tls_work tls_added for V :: "'c tls_env"
proof
  fix t t' :: "'c TLSTransport" and l
  assume "tls_step V t l t'"
  then show "is_intercept l \<Longrightarrow> tls_work t' < tls_work t" and "\<not> is_intercept l \<Longrightarrow> tls_work t' \<le> tls_work t + tls_added l"
    by (auto elim!: tls_stepE simp: tls_work_def tls_added_def is_intercept_def)
qed

text \<open>
  Once \<open>shutdownCh\<close> is closed, the interceptor always has a step until it has returned, and one that returns;
  it needs no receiver for it.
\<close>

lemma interceptor_progress:
  assumes "tls_inv V tcfg t" and "shutdownCh t"
  shows "(\<exists>t'. tls_step V t Intercept t') \<longleftrightarrow> wg t \<noteq> 0" "wg t \<noteq> 0 \<Longrightarrow> \<exists>t'. tls_step V t Intercept t' \<and> wg t' = 0"
proof -
  show returns: "\<exists>t'. tls_step V t Intercept t' \<and> wg t' = 0" if "wg t \<noteq> 0"
  proof -
    have "wg t = 1" using that assms(1) by (simp add: tls_inv_def)
    then show ?thesis using assms(2) interceptor_intros(1) [of t V] interceptor_intros(6) [of t _ V] by (cases "sending t") fastforce+
  qed
  have "wg t \<noteq> 0" if "tls_step V t Intercept t'" for t' using that by (elim tls_stepE) simp_all
  with returns show "(\<exists>t'. tls_step V t Intercept t') \<longleftrightarrow> wg t \<noteq> 0" by blast
qed

text \<open>A run after the interceptor returned does not touch a connection again: what is offered stays in the channel.\<close>

lemma returned_step:
  "tls_step V t l t' \<Longrightarrow> wg t = 0 \<Longrightarrow> wg t' = 0 \<and> streamCh t' = streamCh t \<and> connsClosed t' = connsClosed t \<and> prefix (rawCh t) (rawCh t')"
  by (elim tls_stepE) auto

lemma returned_run:
  "lts_run (tls_step V) t ls t' \<Longrightarrow> wg t = 0 \<Longrightarrow>
    wg t' = 0 \<and> streamCh t' = streamCh t \<and> connsClosed t' = connsClosed t \<and> prefix (rawCh t) (rawCh t')"
proof (induction rule: lts_run.induct)
  case (run_cons t l t1 ls t')
  then show ?case using returned_step [of V t l t1] by (auto intro: prefix_order.trans)
qed simp

text \<open>No connection gets lost: one that arrived is in the channel, with the interceptor, at memberlist, or closed.\<close>

definition places :: "'c TLSTransport \<Rightarrow> 'c set" where
  "places t = set (rawCh t) \<union> set_option (sending t) \<union> set (streamCh t) \<union> set (connsClosed t)"

lemma places_step: "tls_step V t l t' \<Longrightarrow> places t' = places t \<union> (case l of Arrive c \<Rightarrow> {c} | _ \<Rightarrow> {})"
  by (elim tls_stepE) (auto simp: places_def)

lemma places_run: "lts_run (tls_step V) t ls t' \<Longrightarrow> places t' = places t \<union> {c. Arrive c \<in> set ls}"
  by (induction rule: lts_run.induct) (auto simp: places_step split: tls_label.splits)

lemma shutdownCh_run: "lts_run (tls_step V) t ls t' \<Longrightarrow> shutdownCh t \<Longrightarrow> shutdownCh t'"
  by (erule lts_run_invariant [where P = shutdownCh]) (auto elim!: tls_stepE)

lemma tls_added_sum:
  "sum_list (map tls_added (filter (\<lambda>l. \<not> is_intercept l) ls)) = 2 * length (filter (\<lambda>l. \<exists>c. l = Arrive c) ls)"
  by (induction ls) (auto simp: tls_added_def is_intercept_def split: tls_label.splits)

section \<open>Dialling\<close>

text \<open>
  A connection is handed out exactly if the handshake succeeded with the configured server name, or with the peer's
  name where none is configured; otherwise the raw connection is closed. The timeout reaches only the
  inner dial: a peer that never answers the handshake makes the call hang.
\<close>

lemma dialTLSConfig_eq: "dialTLSConfig name tcfg = tcfg\<lparr>ServerName := if ServerName tcfg = [] then name else ServerName tcfg\<rparr>"
  by (cases tcfg) (simp add: dialTLSConfig_def)

lemma DialAddressTimeout_dialled:
  assumes "DialAddressTimeout dial handshake tcfg addr timeout = Some (r, closed)" and "dial addr timeout = Some raw"
  shows "handshake (tcfg\<lparr>ServerName := if ServerName tcfg = [] then addr_Name addr else ServerName tcfg\<rparr>) raw = Some (r = Some raw)"
    "(r, closed) \<in> {(Some raw, None), (None, Some raw)}"
  using assms by (auto simp: DialAddressTimeout_def dialTLSConfig_eq Let_def split: option.splits if_splits)

lemma DialAddressTimeout_hangs:
  "dial addr timeout = Some raw \<Longrightarrow> (\<And>c. handshake c raw = None) \<Longrightarrow> DialAddressTimeout dial handshake tcfg addr timeout = None"
  by (simp add: DialAddressTimeout_def Let_def)

lemma DialTimeout_server_name:
  assumes "DialTimeout dial handshake tcfg addr timeout = Some (Some conn, closed)"
  shows "closed = None" "\<exists>c'. handshake c' conn = Some True \<and> RootCAs c' = RootCAs tcfg \<and>
    ServerName c' = (if ServerName tcfg \<noteq> [] then ServerName tcfg
      else case SplitHostPort addr of None \<Rightarrow> addr | Some (host, _) \<Rightarrow> host)"
  using assms
  by (auto simp: DialTimeout_def DialAddressTimeout_def dialTLSConfig_def Let_def split: option.splits if_splits prod.splits
      intro: exI [of _ tcfg])

section \<open>An example\<close>

definition ex_tls :: "nat tls_env" where
  "ex_tls = \<lparr>SetDeadline = \<lambda>_. True, Handshake = \<lambda>_ c. c = 1, ClearDeadline = \<lambda>_. True\<rparr>"

definition ex_tls_config :: tlsConfig where
  "ex_tls_config = \<lparr>Certificate = (''c'', ''k''), ClientAuth = RequireAndVerifyClientCert, ClientCAs = SystemPool,
     RootCAs = SystemPool, MinVersion = 771, ServerName = ''hapartition''\<rparr>"

lemma ex_stream_run:
  "\<exists>t. lts_run (tls_step ex_tls) (new_transport tcfg) [Arrive 1, Receive, Intercept, Intercept] t \<and> streamCh t = [1]"
proof -
  let ?new = "new_transport tcfg :: nat TLSTransport"
  have "lts_run (tls_step ex_tls) ?new [Arrive 1, Receive, Intercept, Intercept] (?new\<lparr>streamCh := [1]\<rparr>)"
    using arrive [of ?new 1 ex_tls] receive [of ex_tls "?new\<lparr>rawCh := [1]\<rparr>"]
      interceptor_intros(4) [of "?new\<lparr>rawCh := [1], receiver := True\<rparr>" 1 "[]" ex_tls]
      interceptor_intros(5) [of "?new\<lparr>receiver := True, sending := Some 1\<rparr>" 1 ex_tls]
    by (auto simp: lts_run_Cons new_transport_def fresh_def accept_conn_def ex_tls_def)
  then show ?thesis by fastforce
qed

section \<open>Properties\<close>

text \<open>
  C38. \<open>Shutdown\<close> of the TLS transport returns even when memberlist no longer receives connections: once
  \<open>shutdownCh\<close> is closed, as long as the interceptor has not returned it has a step to take, and one of its
  steps returns, also when it holds a connection that nobody receives. In every run that follows it takes at most two
  steps for each connection that waits or arrives and two more; when it has returned it takes no further
  step, and \<open>Shutdown\<close> goes on to shut the inner transport down.
\<close>

theorem interceptor_shutdown_returns:
  assumes "lts_run (tls_step V) (new_transport tcfg) before t" and "shutdownCh t" and "lts_run (tls_step V) t ls t'"
  shows "length (filter is_intercept ls) \<le> 2 * (length (rawCh t) + length (filter (\<lambda>l. \<exists>c. l = Arrive c) ls)) + 2 \<and>
    ((\<exists>t''. tls_step V t' Intercept t'') \<longleftrightarrow> wg t' \<noteq> 0) \<and>
    (wg t' \<noteq> 0 \<longrightarrow> (\<exists>t''. tls_step V t' Intercept t'' \<and> wg t'' = 0)) \<and>
    (wg t' = 0 \<and> \<not> innerDown t' \<longrightarrow> (\<exists>t''. tls_step V t' InnerShutdown t''))"
proof -
  have inv: "tls_inv V tcfg t" by (rule tls_inv_run [OF assms(1)])
  then have inv': "tls_inv V tcfg t'" by (rule lts_run_invariant [OF assms(3)]) (rule tls_inv_step)
  have down: "shutdownCh t'" by (rule shutdownCh_run [OF assms(3,2)])
  have "tls_work t \<le> 2 * length (rawCh t) + 2" using inv by (auto simp: tls_work_def tls_inv_def)
  with interceptor.own_steps_bounded [OF assms(3)] tls_added_sum [of ls]
  have "length (filter is_intercept ls) \<le> 2 * (length (rawCh t) + length (filter (\<lambda>l. \<exists>c. l = Arrive c) ls)) + 2" by simp
  with interceptor_progress [OF inv' down] tls_shutdown_intros(2) [of t' V] down show ?thesis by blast
qed

theorem interceptor_shutdown_returns_witness:
  "\<exists>t t'. lts_run (tls_step ex_tls) (new_transport ex_tls_config) [Arrive (1 :: nat), CloseShutdownCh] t \<and>
    lts_run (tls_step ex_tls) t [Intercept, Intercept] t' \<and> wg t' = 0 \<and> (\<exists>t''. tls_step ex_tls t' InnerShutdown t'')"
proof -
  let ?new = "new_transport ex_tls_config :: nat TLSTransport"
  let ?t = "?new\<lparr>rawCh := [1], shutdownCh := True\<rparr>"
  let ?t' = "?t\<lparr>rawCh := [], connsClosed := [1], wg := 0\<rparr>"
  have "lts_run (tls_step ex_tls) ?new [Arrive 1, CloseShutdownCh] ?t"
    using arrive [of ?new 1 ex_tls] tls_shutdown_intros(1) [of "?new\<lparr>rawCh := [1]\<rparr>" ex_tls]
    by (auto simp: lts_run_Cons new_transport_def fresh_def)
  moreover have "lts_run (tls_step ex_tls) ?t [Intercept, Intercept] ?t'"
    using interceptor_intros(4) [of ?t 1 "[]" ex_tls] interceptor_intros(6) [of "?t\<lparr>rawCh := [], sending := Some 1\<rparr>" 1 ex_tls]
    by (auto simp: lts_run_Cons new_transport_def accept_conn_def ex_tls_def)
  moreover have "wg ?t' = 0" "\<not> innerDown ?t'" by (simp_all add: new_transport_def)
  ultimately show ?thesis
    using interceptor_shutdown_returns [of ex_tls ex_tls_config "[Arrive 1, CloseShutdownCh]" ?t "[Intercept, Intercept]" ?t'] by fastforce
qed

end
