(* ===== verification/Lifecycle.thy ===== *)
theory Lifecycle
  imports Server
begin

text \<open>
  The goroutines of the Redis server, \<open>src/internal/server/server.go\<close>: \<open>ListenAndServe\<close>, the accept loop, the
  connections it starts, \<open>Shutdown\<close> and \<open>Wait\<close>, and the gossip layer, which shares the store, the ring and the
  handler with them, as a labelled step relation. Connections interleave command by command; a command runs as one
  step, and gossip runs between commands. How the quorum writes and the gossip of several nodes interleave is the matter of
  \<open>Cluster\<close>.
\<close>

section \<open>Listening\<close>

text \<open>\<open>listen\<close> is \<open>net.Listen\<close>, an error or the address bound.\<close>

definition ListenAndServe :: "(string \<Rightarrow> string option) \<Rightarrow> 't Server \<Rightarrow> 't Server option" where
  "ListenAndServe listen s = (case listen (srv_addr s) of None \<Rightarrow> None | Some a \<Rightarrow> Some (s\<lparr>ln := Some a\<rparr>))"

section \<open>The running server\<close>

text \<open>
  A connection: all bytes the client sends, those not yet read, whether the client closes the connection
  after them or leaves it open, and the locals of \<open>handleConn\<close> with the replies written.
\<close>

record conn_st =
  c_sent :: string
  c_input :: string
  c_eof :: bool
  c_auth :: bool
  c_replies :: "Value list"

text \<open>
  \<open>backlog\<close> are the clients that wait to be accepted; \<open>accepted\<close> is the client that \<open>Accept\<close> returned and for
  which no goroutine runs yet; \<open>quit\<close> and \<open>doneCh\<close> say whether these channels are closed, \<open>wg\<close> is the
  counter of the wait group, \<open>sent\<close> the messages handed to gossip. \<open>returnedNil\<close> remembers that a call of
  \<open>Shutdown\<close> returned nil.
\<close>

record ('t, 'b) running =
  rs_server :: "'t Server"
  listening :: bool
  quit :: bool
  doneCh :: bool
  backlog :: "(string \<times> bool) list"
  accepted :: "(string \<times> bool) option"
  conns :: "conn_st list"
  ended :: "conn_st list"
  wg :: nat
  sent :: "'b sends"
  returnedNil :: bool

definition serving :: "'t Server \<Rightarrow> ('t, 'b) running" where
  "serving s = \<lparr>rs_server = s, listening = True, quit = False, doneCh = False, backlog = [], accepted = None,
     conns = [], ended = [], wg = 0, sent = [], returnedNil = False\<rparr>"

definition new_conn :: "'t Server \<Rightarrow> string \<Rightarrow> bool \<Rightarrow> conn_st" where
  "new_conn s stream eof =
     \<lparr>c_sent = stream, c_input = stream, c_eof = eof, c_auth = (authToken s = []), c_replies = []\<rparr>"

text \<open>
  What other goroutines do to the server: the transport delivers a message, merges a remote state, or reports a node
  that joined, left or was updated; the anti-entropy loop exchanges its state with the members; the management server
  subscribes to the events, takes one from its channel, or unsubscribes.
\<close>

datatype 'b gossip_event =
    Message 'b
  | RemoteState 'b
  | Joined int string string
  | Left int string
  | Updated int string string
  | Exchange "MemberInfo list"
  | Subscribed "ClusterEvent channel"
  | TakesEvent int
  | Unsubscribed int

fun on_gossip :: "('t, 'b) env \<Rightarrow> 'b gossip_event \<Rightarrow> Handler \<times> 't Shared \<Rightarrow> 'b sends \<times> Handler \<times> 't Shared" where
  "on_gossip E (Message b) hs = handleMessage E b hs"
| "on_gossip E (RemoteState b) (h, sh) = ([], h, handleMergeRemoteState E b h sh)"
| "on_gossip E (Joined now node addr) hs = ([], handleJoin E now node addr hs)"
| "on_gossip E (Left now node) hs = ([], handleLeave now node hs)"
| "on_gossip E (Updated now node addr) (h, sh) = ([], handleUpdate now node addr h, sh)"
| "on_gossip E (Exchange members) (h, sh) = (case exchangeState E members (h, sh) of (out, h') \<Rightarrow> (out, h', sh))"
| "on_gossip E (Subscribed ch) (h, sh) = ([], snd (Subscribe ch h), sh)"
| "on_gossip E (TakesEvent i) (h, sh) =
     ([], h\<lparr>subscribers := (subscribers h)(i := map_option (\<lambda>ch. ch\<lparr>queue := tl (queue ch)\<rparr>) (subscribers h i))\<rparr>, sh)"
| "on_gossip E (Unsubscribed i) (h, sh) = ([], unsubscribe i h, sh)"

text \<open>Such a step at a server, which needs a handler.\<close>

definition gossip_run :: "('t, 'b) env \<Rightarrow> 'b gossip_event \<Rightarrow> 't Server \<Rightarrow> 'b sends \<times> 't Server" where
  "gossip_run E ev s =
     (case gossip s of
        None \<Rightarrow> ([], s)
      | Some g \<Rightarrow>
          (case on_gossip E ev (g, srv_shared s) of (out, g', sh') \<Rightarrow> (out, s\<lparr>gossip := Some g', srv_shared := sh'\<rparr>)))"

datatype 'b serve_label =
    Accept
  | Spawn
  | AcceptQuit
  | AcceptError
  | Turn nat command_env
  | EndConn nat
  | Connect string bool
  | CloseQuit
  | CloseListener
  | ReturnNil
  | ReturnErr
  | GossipEv "'b gossip_event"

text \<open>
  \<open>acceptLoop\<close>: \<open>Accept\<close> returns a connection; \<open>wg.Add\<close> and \<open>go handleConn\<close>; an error after \<open>quit\<close> is closed ends
  the loop and closes \<open>done\<close>; an error before is only logged.
\<close>

inductive accept_step :: "('t, 'b) running \<Rightarrow> 'b serve_label \<Rightarrow> ('t, 'b) running \<Rightarrow> bool" where
  accept: "\<not> doneCh S \<Longrightarrow> accepted S = None \<Longrightarrow> listening S \<Longrightarrow> backlog S = x # xs \<Longrightarrow>
    accept_step S Accept (S\<lparr>accepted := Some x, backlog := xs\<rparr>)"
| spawn: "accepted S = Some (stream, eof) \<Longrightarrow>
    accept_step S Spawn (S\<lparr>accepted := None, wg := wg S + 1, conns := conns S @ [new_conn (rs_server S) stream eof]\<rparr>)"
| accept_quit: "\<not> doneCh S \<Longrightarrow> accepted S = None \<Longrightarrow> quit S \<Longrightarrow> accept_step S AcceptQuit (S\<lparr>doneCh := True\<rparr>)"
| accept_error: "\<not> doneCh S \<Longrightarrow> accepted S = None \<Longrightarrow> \<not> quit S \<Longrightarrow> accept_step S AcceptError S"

text \<open>
  The loop of \<open>handleConn\<close>: a command, or the return on a read error, which for want of bytes comes only when the
  client has closed the connection.
\<close>

inductive conn_step :: "('t, 'b) env \<Rightarrow> lib \<Rightarrow> ('t, 'b) running \<Rightarrow> 'b serve_label \<Rightarrow> ('t, 'b) running \<Rightarrow> bool" for E L where
  turn: "i < length (conns S) \<Longrightarrow> conns S ! i = c \<Longrightarrow> ReadValue (c_input c) = (Inr v, rest) \<Longrightarrow>
    handle_value E L C v (c_auth c) (rs_server S) = (written, out, auth', s') \<Longrightarrow>
    conn_step E L S (Turn i C) (S\<lparr>conns := (conns S)[i := c\<lparr>c_input := rest, c_auth := auth', c_replies := c_replies c @ written\<rparr>],
      rs_server := s', sent := sent S @ out\<rparr>)"
| end_conn: "i < length (conns S) \<Longrightarrow> conns S ! i = c \<Longrightarrow> ReadValue (c_input c) = (Inl err, rest) \<Longrightarrow>
    (err = ErrStream \<longrightarrow> c_eof c) \<Longrightarrow>
    conn_step E L S (EndConn i) (S\<lparr>conns := take i (conns S) @ drop (Suc i) (conns S), ended := c # ended S, wg := wg S - 1\<rparr>)"

text \<open>
  \<open>Shutdown\<close>: the two statements under \<open>shutdownOnce\<close>, which a later call finds done, and the return, nil when the
  wait group is at zero and otherwise, at any time, the error of the context.
\<close>

inductive shutdown_step :: "('t, 'b) running \<Rightarrow> 'b serve_label \<Rightarrow> ('t, 'b) running \<Rightarrow> bool" where
  close_quit: "\<not> quit S \<Longrightarrow> shutdown_step S CloseQuit (S\<lparr>quit := True\<rparr>)"
| close_listener: "quit S \<Longrightarrow> listening S \<Longrightarrow> shutdown_step S CloseListener (S\<lparr>listening := False, backlog := []\<rparr>)"
| return_nil: "quit S \<Longrightarrow> \<not> listening S \<Longrightarrow> wg S = 0 \<Longrightarrow> shutdown_step S ReturnNil (S\<lparr>returnedNil := True\<rparr>)"
| return_err: "quit S \<Longrightarrow> \<not> listening S \<Longrightarrow> shutdown_step S ReturnErr S"

text \<open>\<open>Wait\<close> returns when \<open>done\<close> is closed.\<close>

definition Wait :: "('t, 'b) running \<Rightarrow> bool" where
  "Wait S \<longleftrightarrow> doneCh S"

text \<open>All goroutines together, clients that connect, and gossip, which goes on whether the server shuts down or not.\<close>

inductive serve_step :: "('t, 'b) env \<Rightarrow> lib \<Rightarrow> ('t, 'b) running \<Rightarrow> 'b serve_label \<Rightarrow> ('t, 'b) running \<Rightarrow> bool" for E L where
  accepts: "accept_step S l S' \<Longrightarrow> serve_step E L S l S'"
| serves: "conn_step E L S l S' \<Longrightarrow> serve_step E L S l S'"
| shuts: "shutdown_step S l S' \<Longrightarrow> serve_step E L S l S'"
| connect: "listening S \<Longrightarrow> serve_step E L S (Connect stream eof) (S\<lparr>backlog := backlog S @ [(stream, eof)]\<rparr>)"
| gossips: "gossip (rs_server S) \<noteq> None \<Longrightarrow> gossip_run E ev (rs_server S) = (out, s') \<Longrightarrow>
    serve_step E L S (GossipEv ev) (S\<lparr>rs_server := s', sent := sent S @ out\<rparr>)"

inductive_cases serve_step_cases: "serve_step E L S l S'"
inductive_cases accept_stepE: "accept_step S l S'"
inductive_cases conn_stepE: "conn_step E L S l S'"
inductive_cases shutdown_stepE: "shutdown_step S l S'"

lemmas serve_stepE = serve_step_cases accept_stepE conn_stepE shutdown_stepE
lemmas accept_intros = accept_step.intros [THEN accepts]
lemmas shutdown_intros = shutdown_step.intros [THEN shuts]

section \<open>The invariant of the accept loop\<close>

text \<open>The wait group counts the connections; the loop has nothing in hand when it has ended, and ends only after \<open>quit\<close>.\<close>

definition serve_inv :: "('t, 'b) running \<Rightarrow> bool" where
  "serve_inv S \<longleftrightarrow> wg S = length (conns S) \<and> (doneCh S \<longrightarrow> accepted S = None \<and> quit S) \<and>
     (\<not> listening S \<longrightarrow> quit S \<and> backlog S = [])"

lemma serve_inv_serving [simp]: "serve_inv (serving s)"
  by (simp add: serve_inv_def serving_def)

lemma serve_inv_step: "serve_step E L S l S' \<Longrightarrow> serve_inv S \<Longrightarrow> serve_inv S'"
  by (elim serve_stepE) (auto simp: serve_inv_def min_def)

lemma serve_inv_run: "lts_run (serve_step E L) (serving s) ls S \<Longrightarrow> serve_inv S"
  by (erule lts_run_invariant) (auto intro: serve_inv_step)

text \<open>
  After the loop has ended and the wait group is at zero, no connection is served; only gossip still reaches the
  server.
\<close>

fun gossip_events :: "'b serve_label list \<Rightarrow> 'b gossip_event list" where
  "gossip_events [] = []"
| "gossip_events (GossipEv ev # ls) = ev # gossip_events ls"
| "gossip_events (l # ls) = gossip_events ls"

fun gossip_runs :: "('t, 'b) env \<Rightarrow> 'b gossip_event list \<Rightarrow> 't Server \<Rightarrow> 'b sends \<times> 't Server" where
  "gossip_runs E [] s = ([], s)"
| "gossip_runs E (ev # evs) s =
     (case gossip_run E ev s of (out, s1) \<Rightarrow> (case gossip_runs E evs s1 of (outs, s2) \<Rightarrow> (out @ outs, s2)))"

definition drained :: "('t, 'b) running \<Rightarrow> bool" where
  "drained S \<longleftrightarrow> doneCh S \<and> accepted S = None \<and> conns S = []"

lemma drained_iff: "serve_inv S \<Longrightarrow> drained S \<longleftrightarrow> doneCh S \<and> wg S = 0"
  by (auto simp: drained_def serve_inv_def)

lemma drained_step:
  assumes "serve_step E L S l S'" and "drained S"
  shows "drained S' \<and> ended S' = ended S \<and> (\<forall>i C. l \<noteq> Turn i C) \<and>
    (\<exists>outs. gossip_runs E (gossip_events [l]) (rs_server S) = (outs, rs_server S') \<and> sent S' = sent S @ outs)"
  using assms by (elim serve_stepE) (auto simp: drained_def)

lemma gossip_runs_Cons:
  "gossip_runs E (gossip_events [l]) s = (out, s1) \<Longrightarrow> gossip_runs E (gossip_events ls) s1 = (outs, s2) \<Longrightarrow>
    gossip_runs E (gossip_events (l # ls)) s = (out @ outs, s2)"
  by (cases l) (auto split: prod.splits)

lemma drained_run:
  "lts_run (serve_step E L) S ls S' \<Longrightarrow> drained S \<Longrightarrow>
    drained S' \<and> ended S' = ended S \<and> (\<forall>i C. Turn i C \<notin> set ls) \<and>
    (\<exists>outs. gossip_runs E (gossip_events ls) (rs_server S) = (outs, rs_server S') \<and> sent S' = sent S @ outs)"
proof (induction rule: lts_run.induct)
  case (run_cons S l S1 ls S')
  obtain out where 1: "gossip_runs E (gossip_events [l]) (rs_server S) = (out, rs_server S1)" "sent S1 = sent S @ out"
    and d: "drained S1" "ended S1 = ended S" "\<forall>i C. l \<noteq> Turn i C" using drained_step [OF run_cons.hyps(1) run_cons.prems] by blast
  obtain outs where 2: "gossip_runs E (gossip_events ls) (rs_server S1) = (outs, rs_server S')" "sent S' = sent S1 @ outs"
    using run_cons.IH [OF d(1)] by blast
  show ?case using run_cons.IH [OF d(1)] d gossip_runs_Cons [OF 1(1) 2(1)] 1(2) 2(2) by auto
qed simp

section \<open>The work of the server\<close>

definition serve_own :: "'b serve_label \<Rightarrow> bool" where
  "serve_own l = (case l of Accept \<Rightarrow> True | Spawn \<Rightarrow> True | AcceptQuit \<Rightarrow> True | Turn _ _ \<Rightarrow> True | EndConn _ \<Rightarrow> True | _ \<Rightarrow> False)"

definition serve_work :: "('t, 'b) running \<Rightarrow> nat" where
  "serve_work S = (if doneCh S then 0 else 1) + sum_list (map (\<lambda>(stream, _). length stream + 3) (backlog S)) +
     (case accepted S of None \<Rightarrow> 0 | Some (stream, _) \<Rightarrow> length stream + 2) + sum_list (map (\<lambda>c. length (c_input c) + 1) (conns S))"

definition serve_added :: "'b serve_label \<Rightarrow> nat" where
  "serve_added l = (case l of Connect stream _ \<Rightarrow> length stream + 3 | _ \<Rightarrow> 0)"

lemma sum_list_split: "i < length xs \<Longrightarrow> sum_list (map f xs) = sum_list (map f (take i xs)) + f (xs ! i) + sum_list (map f (drop (Suc i) xs))"
  for f :: "'a \<Rightarrow> nat"
  by (subst id_take_nth_drop [of i xs], assumption) (simp add: add.assoc)

lemma sum_list_upd_less:
  "i < length xs \<Longrightarrow> f y < f (xs ! i) \<Longrightarrow> sum_list (map f (xs[i := y])) < sum_list (map f xs)" for f :: "'a \<Rightarrow> nat"
  by (subst upd_conv_take_nth_drop, assumption) (simp add: sum_list_split [of i xs f])

lemma conn_step_work: "conn_step E L S l S' \<Longrightarrow> serve_work S' < serve_work S"
proof (induction rule: conn_step.induct)
  case (turn i S c v rest C written out auth' s')
  then show ?case using ReadValue_shorter [OF turn(3)] by (auto simp: serve_work_def intro!: sum_list_upd_less)
next
  case (end_conn i S c err rest)
  then show ?case by (auto simp: serve_work_def sum_list_split [of i "conns S"])
qed

interpretation server_loop: bounded_work "serve_step E L" serve_own serve_work serve_added for E :: "('t, 'b) env" and L
proof
  fix S S' :: "('t, 'b) running" and l
  assume st: "serve_step E L S l S'"
  from st show "serve_work S' < serve_work S" if "serve_own l"
  proof cases
    case serves
    then show ?thesis by (rule conn_step_work)
  qed (use that in \<open>auto elim!: accept_stepE shutdown_stepE simp: serve_work_def serve_own_def new_conn_def split: option.splits\<close>)
  from st show "serve_work S' \<le> serve_work S + serve_added l" if "\<not> serve_own l"
    by (elim serve_stepE) (use that in \<open>auto simp: serve_work_def serve_own_def serve_added_def\<close>)
qed

text \<open>
  When the server is stuck after \<open>quit\<close>, the accept loop has ended and each connection left waits for bytes
  from a client that keeps it open.
\<close>

definition idle :: "conn_st \<Rightarrow> bool" where
  "idle c \<longleftrightarrow> fst (ReadValue (c_input c)) = Inl ErrStream \<and> \<not> c_eof c"

lemma conn_progress:
  assumes "i < length (conns S)" and "\<not> idle (conns S ! i)"
  shows "\<exists>l S'. serve_own l \<and> serve_step E L S l S'"
proof (cases "ReadValue (c_input (conns S ! i))")
  case (Pair r rest)
  show ?thesis
  proof (cases r)
    case (Inl err)
    from serves [OF end_conn [OF assms(1) refl Pair [unfolded Inl]]] assms(2) Pair Inl show ?thesis
      by (intro exI [of _ "EndConn i"]) (auto simp: serve_own_def idle_def)
  next
    case (Inr v)
    obtain written out auth' s' where "handle_value E L undefined v (c_auth (conns S ! i)) (rs_server S) = (written, out, auth', s')"
      by (metis prod_cases4)
    from serves [OF turn [OF assms(1) refl Pair [unfolded Inr] this]] show ?thesis
      by (intro exI [of _ "Turn i undefined"]) (auto simp: serve_own_def)
  qed
qed

lemma serve_progress:
  assumes "\<nexists>l S'. serve_own l \<and> serve_step E L S l S'" and "quit S"
  shows "doneCh S" "accepted S = None" "list_all idle (conns S)"
proof -
  have no: "\<not> serve_step E L S Spawn S'" "\<not> serve_step E L S AcceptQuit S'" for S'
    using assms(1) by (auto simp: serve_own_def)
  show acc: "accepted S = None" using no(1) accept_intros(2) [of S _ _ E L] by (metis not_None_eq surj_pair)
  show "doneCh S" using no(2) accept_intros(3) [of S E L] acc assms(2) by blast
  show "list_all idle (conns S)" unfolding list_all_length using conn_progress assms(1) by blast
qed

lemma closed_step: "serve_step E L S l S' \<Longrightarrow> quit S \<and> \<not> listening S \<Longrightarrow> quit S' \<and> \<not> listening S'"
  by (elim serve_stepE) auto

lemma closed_added: "lts_run (serve_step E L) S ls S' \<Longrightarrow> quit S \<Longrightarrow> \<not> listening S \<Longrightarrow> sum_list (map serve_added (filter (\<lambda>l. \<not> serve_own l) ls)) = 0"
proof (induction rule: lts_run.induct)
  case (run_cons S l S1 ls S')
  moreover have "serve_added l = 0" using run_cons by (auto elim!: serve_stepE simp: serve_added_def)
  ultimately show ?case using closed_step [OF run_cons.hyps(1)] by simp
qed simp

section \<open>Connections do not lend each other their login\<close>

lemma replicate_key_token: "replicate_key E C key e g s = (r, out, s') \<Longrightarrow> authToken s' = authToken s"
  by (auto simp: replicate_key_def Let_def split: prod.splits)

lemma replicate_tombstones_token: "replicate_tombstones E C its g s = (r, out, s') \<Longrightarrow> authToken s' = authToken s"
proof (induction E C its g s arbitrary: r out s' rule: replicate_tombstones.induct)
  case (2 E C key entry its g s)
  then show ?case by (auto split: prod.splits option.splits dest!: replicate_key_token)
qed simp

lemma set_fn_token: "set_fn E L C key v s = (r, out, s') \<Longrightarrow> authToken s' = authToken s"
  by (auto simp: set_fn_def update_store_def Let_def split: prod.splits option.splits dest!: replicate_key_token)

lemma handleDel_token: "handleDel E L C args s = (r, out, s') \<Longrightarrow> authToken s' = authToken s"
  by (auto simp: handleDel_def update_store_def Let_def split: prod.splits option.splits if_splits dest!: replicate_tombstones_token)

lemma dispatch_token: "dispatch E L C cmd args s = (r, out, s') \<Longrightarrow> authToken s' = authToken s"
  by (auto simp: dispatch_def handleKeyCommand_def get_fn_def update_ring_def split: prod.splits option.splits if_splits
      dest!: set_fn_token handleDel_token)

lemma handle_value_token: "handle_value E L C v a s = (r, out, a', s') \<Longrightarrow> authToken s' = authToken s"
  by (auto simp: handle_value_def Let_def split: prod.splits option.splits if_splits Value.splits dest!: dispatch_token)

lemma gossip_run_token: "gossip_run E ev s = (out, s') \<Longrightarrow> authToken s' = authToken s"
  by (auto simp: gossip_run_def split: option.splits prod.splits)

text \<open>A client that does not log in: what it still sends holds no login, and it has seen only errors.\<close>

definition locked_conn :: "lib \<Rightarrow> string \<Rightarrow> conn_st \<Rightarrow> bool" where
  "locked_conn L token c \<longleftrightarrow> (list_all (\<lambda>v. \<not> logs_in L token v) (values_read (c_sent c)) \<longrightarrow>
     \<not> c_auth c \<and> list_all is_error (c_replies c) \<and> list_all (\<lambda>v. \<not> logs_in L token v) (values_read (c_input c)))"

definition locked_inv :: "lib \<Rightarrow> string \<Rightarrow> ('t, 'b) running \<Rightarrow> bool" where
  "locked_inv L token S \<longleftrightarrow> authToken (rs_server S) = token \<and> (\<forall>c \<in> set (conns S) \<union> set (ended S). locked_conn L token c)"

lemma locked_turn:
  assumes "token \<noteq> []" and "authToken s = token" and "locked_conn L token c" and "ReadValue (c_input c) = (Inr v, rest)"
    and "handle_value E L C v (c_auth c) s = (written, out, auth', s')"
  shows "locked_conn L token (c\<lparr>c_input := rest, c_auth := auth', c_replies := c_replies c @ written\<rparr>)"
    "list_all (\<lambda>v. \<not> logs_in L token v) (values_read (c_sent c)) \<Longrightarrow> s' = s \<and> out = []"
proof -
  have vs: "values_read (c_input c) = v # values_read rest" using assms(4) by (simp add: values_read.simps [of "c_input c"])
  have *: "s' = s \<and> out = [] \<and> \<not> auth' \<and> list_all is_error written" if "list_all (\<lambda>v. \<not> logs_in L token v) (values_read (c_sent c))"
    using that assms(3,5) handle_value_locked [of s L v E C] assms(1,2) by (auto simp: locked_conn_def vs)
  then show "locked_conn L token (c\<lparr>c_input := rest, c_auth := auth', c_replies := c_replies c @ written\<rparr>)"
    using assms(3) by (auto simp: locked_conn_def vs)
  show "list_all (\<lambda>v. \<not> logs_in L token v) (values_read (c_sent c)) \<Longrightarrow> s' = s \<and> out = []" using * by blast
qed

lemma locked_inv_conn_step:
  assumes "token \<noteq> []" and "conn_step E L S l S'" and "locked_inv L token S"
  shows "locked_inv L token S'"
  using assms(2)
proof cases
  case (turn i c v rest C written out auth' s')
  have inv: "authToken (rs_server S) = token" "locked_conn L token c"
    using assms(3) turn(3,4) by (auto simp: locked_inv_def)
  show ?thesis
    using assms(3) locked_turn(1) [OF assms(1) inv turn(5,6)] handle_value_token [OF turn(6)] set_update_subset_insert [of "conns S" i]
    by (auto simp: locked_inv_def turn(2))
next
  case (end_conn i c err rest)
  then show ?thesis
    using assms(3) by (auto simp: locked_inv_def dest: in_set_takeD in_set_dropD)
qed

lemma locked_inv_step:
  assumes "token \<noteq> []" and "serve_step E L S l S'" and "locked_inv L token S"
  shows "locked_inv L token S'"
  using assms(2)
proof cases
  case serves
  then show ?thesis by (rule locked_inv_conn_step [OF assms(1) _ assms(3)])
qed (use assms in \<open>auto elim!: accept_stepE shutdown_stepE simp: locked_inv_def new_conn_def locked_conn_def dest: gossip_run_token\<close>)

lemma locked_inv_run: "authToken s \<noteq> [] \<Longrightarrow> lts_run (serve_step E L) (serving s) ls S \<Longrightarrow> locked_inv L (authToken s) S"
  by (rule lts_run_invariant [of "serve_step E L" "serving s" ls S "locked_inv L (authToken s)"])
    (auto intro: locked_inv_step, simp add: serving_def locked_inv_def)

section \<open>A connection alone\<close>

text \<open>Without others in between, the steps of a connection do what \<open>handleConn\<close> does.\<close>

lemma turns_conn_loop:
  assumes "conns S = [c]" and "c_eof c"
    and "conn_loop E L Cs i (c_auth c) (rs_server S) (c_input c) = (replies, outs, s')"
  shows "\<exists>ls c' S'. lts_run (serve_step E L) S ls S' \<and> conns S' = [] \<and> ended S' = c' # ended S \<and>
    c_replies c' = c_replies c @ replies \<and> sent S' = sent S @ outs \<and> rs_server S' = s'"
  using assms
proof (induction "c_input c" arbitrary: S c i replies outs rule: length_induct)
  case 1
  obtain r rest where rd: "ReadValue (c_input c) = (r, rest)" by fastforce
  show ?case
  proof (cases r)
    case (Inl err)
    then have loop: "replies = []" "outs = []" "s' = rs_server S"
      using "1.prems"(3) rd by (simp_all add: conn_loop.simps [of _ _ _ _ _ _ "c_input c"])
    have "conn_step E L S (EndConn 0) (S\<lparr>conns := take 0 (conns S) @ drop (Suc 0) (conns S), ended := c # ended S, wg := wg S - 1\<rparr>)"
      using "1.prems"(1,2) rd Inl by (intro end_conn) auto
    then have "lts_run (serve_step E L) S [EndConn 0] (S\<lparr>conns := [], ended := c # ended S, wg := wg S - 1\<rparr>)"
      using "1.prems"(1) by (auto simp: lts_run_Cons dest: serves)
    with loop show ?thesis by fastforce
  next
    case (Inr v)
    obtain written out auth' s1 where h: "handle_value E L (Cs i) v (c_auth c) (rs_server S) = (written, out, auth', s1)"
      by (metis prod_cases4)
    let ?c = "c\<lparr>c_input := rest, c_auth := auth', c_replies := c_replies c @ written\<rparr>"
    let ?S = "S\<lparr>conns := (conns S)[0 := ?c], rs_server := s1, sent := sent S @ out\<rparr>"
    have st: "serve_step E L S (Turn 0 (Cs i)) ?S" using "1.prems"(1) rd Inr h by (intro serves turn) auto
    obtain replies' outs' where rec: "conn_loop E L Cs (Suc i) auth' s1 rest = (replies', outs', s')"
        "replies = written @ replies'" "outs = out @ outs'"
      using "1.prems"(3) rd Inr h by (auto simp: conn_loop.simps [of _ _ _ _ _ _ "c_input c"] split: prod.splits)
    have "length rest < length (c_input c)" using rd Inr by (simp add: ReadValue_shorter)
    then have "\<exists>ls c' S'. lts_run (serve_step E L) ?S ls S' \<and> conns S' = [] \<and> ended S' = c' # ended ?S \<and>
        c_replies c' = c_replies ?c @ replies' \<and> sent S' = sent ?S @ outs' \<and> rs_server S' = s'"
      using "1.hyps" [rule_format, of "c_input ?c" ?c ?S "Suc i" replies' outs'] "1.prems"(1,2) rec(1) by simp
    then show ?thesis using run_cons [of "serve_step E L", OF st] rec(2,3) by fastforce
  qed
qed

section \<open>An example\<close>

definition ex_conn :: "conn_st" where
  "ex_conn = new_conn (ex_server ''pw'' ex_ring) (''AUTH no'' @ CRLF) True"

lemma ex_read: "ReadValue (''AUTH no'' @ CRLF) = (Inr (Array [BulkString (Some ''AUTH''), BulkString (Some ''no'')]), [])"
proof -
  have "Fields ''AUTH no'' = [''AUTH'', ''no'']" by code_simp
  then show ?thesis
    using readLine_ok [of "''AUTH no''" "[]"]
    by (simp add: ReadValue_def readValue.simps [of 0] readInline_def maxLineLength_def NewBulkString_def)
qed

text \<open>A client connects and is accepted, and the listener is closed.\<close>

definition ex_accepted :: "(alist_tree, GossipMessage) running" where
  "ex_accepted = (serving (ex_server ''pw'' ex_ring))\<lparr>listening := False, quit := True, accepted := Some (''AUTH no'' @ CRLF, True)\<rparr>"

definition ex_accept_run :: "GossipMessage serve_label list" where
  "ex_accept_run = [Connect (''AUTH no'' @ CRLF) True, Accept, CloseQuit, CloseListener]"

lemma accepted_run:
  "lts_run (serve_step E L) (serving s) [Connect stream eof, Accept, CloseQuit, CloseListener]
    ((serving s)\<lparr>listening := False, quit := True, accepted := Some (stream, eof)\<rparr>)"
  using connect [of "serving s" E L stream eof]
    accept [of "(serving s)\<lparr>backlog := [(stream, eof)]\<rparr>" "(stream, eof)" "[]", THEN accepts, of E L]
    close_quit [of "(serving s)\<lparr>accepted := Some (stream, eof)\<rparr>", THEN shuts, of E L]
    close_listener [of "(serving s)\<lparr>accepted := Some (stream, eof), quit := True\<rparr>", THEN shuts, of E L]
  by (auto simp: lts_run_Cons serving_def)

lemma ex_accepted_run: "lts_run (serve_step ref_env ex_lib) (serving (ex_server ''pw'' ex_ring)) ex_accept_run ex_accepted"
  unfolding ex_accept_run_def ex_accepted_def by (rule accepted_run)

text \<open>A server without clients is shut down; with the argument, its accept loop has ended too.\<close>

definition ex_stopped :: "bool \<Rightarrow> (alist_tree, GossipMessage) running" where
  "ex_stopped d = (serving (ex_server [] ex_ring))\<lparr>quit := True, listening := False, doneCh := d\<rparr>"

lemma ex_stop_run:
  "lts_run (serve_step ref_env ex_lib) (serving (ex_server [] ex_ring)) [CloseQuit, CloseListener] (ex_stopped False)"
  "lts_run (serve_step ref_env ex_lib) (ex_stopped False) [AcceptQuit] (ex_stopped True)"
  using shutdown_intros(1) [of "serving (ex_server [] ex_ring)" ref_env ex_lib]
    shutdown_intros(2) [of "(serving (ex_server [] ex_ring))\<lparr>quit := True\<rparr>" ref_env ex_lib]
    accept_intros(3) [of "ex_stopped False" ref_env ex_lib]
  by (auto simp: lts_run_Cons serving_def ex_stopped_def)

section \<open>Properties\<close>

text \<open>
  C10. The server winds down: once \<open>Shutdown\<close> has closed the listener, the accept loop and all connections together
  take only a bounded number of further steps, at most one for each byte the accepted clients have yet to be read
  and a few for each client; when none is left to take, the accept loop has ended, so that \<open>Wait\<close> returns,
  and every connection that is left waits for bytes from a client that keeps it open; with no such client
  \<open>Shutdown\<close> returns nil.
\<close>

theorem server_winds_down:
  assumes "lts_run (serve_step E L) (serving s) before S" and "\<not> listening S" and "lts_run (serve_step E L) S ls S'"
  shows "length (filter serve_own ls) \<le> 1 + (case accepted S of None \<Rightarrow> 0 | Some (stream, _) \<Rightarrow> length stream + 2) +
      sum_list (map (\<lambda>c. length (c_input c) + 1) (conns S)) \<and>
    ((\<nexists>l S''. serve_own l \<and> serve_step E L S' l S'') \<longrightarrow>
      Wait S' \<and> accepted S' = None \<and>
      (\<forall>c \<in> set (conns S'). fst (ReadValue (c_input c)) = Inl ErrStream \<and> \<not> c_eof c) \<and>
      (conns S' = [] \<longrightarrow> (\<exists>S''. serve_step E L S' ReturnNil S'' \<and> returnedNil S'')))"
proof -
  have inv: "serve_inv S" by (rule serve_inv_run [OF assms(1)])
  then have inv': "serve_inv S'" by (rule lts_run_invariant [OF assms(3)]) (rule serve_inv_step)
  have closed: "quit S" "backlog S = []" using inv assms(2) by (simp_all add: serve_inv_def)
  then have closed': "quit S' \<and> \<not> listening S'"
    using assms(2) by (intro lts_run_invariant [OF assms(3), of "\<lambda>S. quit S \<and> \<not> listening S"]) (auto dest: closed_step)
  have "length (filter serve_own ls) \<le> serve_work S"
    using server_loop.own_steps_bounded [OF assms(3)] closed_added [OF assms(3) closed(1) assms(2)] by simp
  moreover have "serve_work S \<le> 1 + (case accepted S of None \<Rightarrow> 0 | Some (stream, _) \<Rightarrow> length stream + 2) +
      sum_list (map (\<lambda>c. length (c_input c) + 1) (conns S))"
    using closed(2) by (simp add: serve_work_def)
  moreover have "\<exists>S''. serve_step E L S' ReturnNil S'' \<and> returnedNil S''" if "conns S' = []"
    using shutdown_intros(3) [of S' E L] closed' inv' that by (auto simp: serve_inv_def)
  ultimately show ?thesis
    using serve_progress [of E L S'] closed' by (auto simp: list_all_iff idle_def Wait_def)
qed

theorem server_winds_down_witness:
  "\<exists>S S' S''. lts_run (serve_step ref_env ex_lib) (serving (ex_server [] ex_ring)) [CloseQuit, CloseListener] S \<and>
    lts_run (serve_step ref_env ex_lib) S [AcceptQuit] S' \<and> Wait S' \<and> serve_step ref_env ex_lib S' ReturnNil S'' \<and> returnedNil S''"
proof -
  note runs = ex_stop_run
  have stuck: "\<nexists>l S''. serve_own l \<and> serve_step ref_env ex_lib (ex_stopped True) l S''"
    by (auto elim!: serve_stepE simp: ex_stopped_def serving_def serve_own_def)
  have "\<not> listening (ex_stopped False)" "conns (ex_stopped True) = []" by (simp_all add: ex_stopped_def serving_def)
  with server_winds_down [OF runs(1) _ runs(2)] stuck have "Wait (ex_stopped True)"
    "\<exists>S''. serve_step ref_env ex_lib (ex_stopped True) ReturnNil S'' \<and> returnedNil S''" by blast+
  with runs show ?thesis by blast
qed

text \<open>
  C39. A server serves nobody any more when both \<open>Wait\<close> has returned and the wait group is at zero: from then on,
  whatever clients and callers of \<open>Shutdown\<close> do, there is no connection and no command is executed. The store, the
  ring and the handler then change, and messages are sent, only by the gossip layer and the management server, which
  go on until they are shut down themselves: the server is what their steps make of it.
\<close>

theorem server_drained:
  assumes "lts_run (serve_step E L) (serving s) before S" and "Wait S" and "wg S = 0" and "lts_run (serve_step E L) S ls S'"
  shows "conns S' = [] \<and> ended S' = ended S \<and> (\<forall>i C. Turn i C \<notin> set ls) \<and>
    (\<exists>outs. gossip_runs E (gossip_events ls) (rs_server S) = (outs, rs_server S') \<and> sent S' = sent S @ outs)"
proof -
  have "drained S" using drained_iff [OF serve_inv_run [OF assms(1)]] assms(2,3) by (simp add: Wait_def)
  from drained_run [OF assms(4) this] show ?thesis by (simp add: drained_def)
qed

theorem server_drained_witness:
  "\<exists>S S' s' outs. lts_run (serve_step ref_env ex_lib) (serving (ex_server [] ex_ring)) [CloseQuit, CloseListener, AcceptQuit] S \<and> Wait S \<and>
    lts_run (serve_step ref_env ex_lib) S [ReturnNil, GossipEv (Left 0 ''c'')] S' \<and> conns S' = [] \<and>
    gossip_run ref_env (Left 0 ''c'') (ex_server [] ex_ring) = (outs, s') \<and> rs_server S' = s'"
proof -
  have run: "lts_run (serve_step ref_env ex_lib) (serving (ex_server [] ex_ring)) ([CloseQuit, CloseListener] @ [AcceptQuit]) (ex_stopped True)"
    unfolding lts_run_append using ex_stop_run by blast
  let ?S1 = "(ex_stopped True)\<lparr>returnedNil := True\<rparr>"
  have d: "Wait (ex_stopped True)" "wg (ex_stopped True) = 0" "rs_server (ex_stopped True) = ex_server [] ex_ring" "rs_server ?S1 = ex_server [] ex_ring"
    by (simp_all add: ex_stopped_def serving_def Wait_def)
  obtain outs s' where g: "gossip_run ref_env (Left 0 ''c'') (ex_server [] ex_ring) = (outs, s')" by fastforce
  let ?S' = "?S1\<lparr>rs_server := s', sent := sent ?S1 @ outs\<rparr>"
  have "serve_step ref_env ex_lib (ex_stopped True) ReturnNil ?S1" by (rule shutdown_intros(3)) (simp_all add: ex_stopped_def serving_def)
  moreover have "serve_step ref_env ex_lib ?S1 (GossipEv (Left 0 ''c'')) ?S'" by (rule gossips) (use d(4) g in \<open>simp_all add: ex_server_def\<close>)
  ultimately have ret: "lts_run (serve_step ref_env ex_lib) (ex_stopped True) [ReturnNil, GossipEv (Left 0 ''c'')] ?S'" by (auto simp: lts_run_Cons)
  have "conns ?S' = [] \<and> rs_server ?S' = s'" using server_drained [OF run d(1,2) ret] d(3) g by simp
  with run [unfolded append.simps] ret d(1) g show ?thesis by blast
qed

text \<open>
  C40. The nil of \<open>Shutdown\<close> alone does not mean that: whatever the first command of a client is, there is a run
  in which \<open>Shutdown\<close> returns nil and the command is executed afterwards. \<open>Accept\<close> had returned the
  connection, and \<open>wg.Add\<close> came after \<open>wg.Wait\<close>.
\<close>

theorem Shutdown_nil_too_early:
  fixes E :: "('t, 'b) env"
  assumes "ReadValue stream = (Inr v, rest)" and "handle_value E L C v (authToken s = []) s = (written, out, auth', s')"
  shows "\<exists>before S after S'. lts_run (serve_step E L) (serving s) before S \<and> returnedNil S \<and> rs_server S = s \<and>
    lts_run (serve_step E L) S after S' \<and> map c_replies (conns S') = [written] \<and> rs_server S' = s' \<and> sent S' = out"
proof -
  let ?a = "(serving s)\<lparr>listening := False, quit := True, accepted := Some (stream, True)\<rparr> :: ('t, 'b) running"
  let ?S = "?a\<lparr>returnedNil := True\<rparr>"
  let ?c = "new_conn s stream True"
  let ?T = "?S\<lparr>accepted := None, wg := wg ?S + 1, conns := conns ?S @ [new_conn (rs_server ?S) stream True]\<rparr>"
  have ret: "serve_step E L ?a ReturnNil ?S" by (rule shutdown_intros(3)) (simp_all add: serving_def)
  have run: "lts_run (serve_step E L) (serving s) ([Connect stream True, Accept, CloseQuit, CloseListener] @ [ReturnNil]) ?S"
    unfolding lts_run_append by (intro exI [of _ ?a] conjI accepted_run run_cons [of "serve_step E L", OF ret] run_nil)
  have sp: "serve_step E L ?S Spawn ?T" by (rule accept_intros(2)) simp
  have "conns ?T = [?c]" "rs_server ?T = s" "sent ?T = []" by (simp_all add: serving_def)
  then have "serve_step E L ?T (Turn 0 C) (?T\<lparr>conns := (conns ?T)[0 := ?c\<lparr>c_input := rest, c_auth := auth', c_replies := c_replies ?c @ written\<rparr>],
      rs_server := s', sent := sent ?T @ out\<rparr>)" (is "serve_step E L ?T _ ?U")
    using assms by (intro serves turn) (simp_all add: new_conn_def)
  with sp have "lts_run (serve_step E L) ?S [Spawn, Turn 0 C] ?U" by (auto simp: lts_run_Cons)
  moreover have "map c_replies (conns ?U) = [written]" "rs_server ?U = s'" "sent ?U = out" by (simp_all add: serving_def new_conn_def)
  moreover have "returnedNil ?S" "rs_server ?S = s" by (simp_all add: serving_def)
  ultimately show ?thesis using run by (intro exI [of _ ?S] exI [of _ ?U] exI conjI)
qed

theorem Shutdown_nil_too_early_witness:
  "\<exists>before S after S' reply. lts_run (serve_step ref_env ex_lib) (serving (ex_server [] ex_ring)) before S \<and> returnedNil S \<and>
    lts_run (serve_step ref_env ex_lib) S after S' \<and> map c_replies (conns S') = [[reply]]"
proof -
  obtain written out auth' s' where h: "handle_value ref_env ex_lib ex_command_env (Array [BulkString (Some ''AUTH''), BulkString (Some ''no'')])
      (authToken (ex_server [] ex_ring) = []) (ex_server [] ex_ring) = (written, out, auth', s')" by (metis prod_cases4)
  then obtain reply where "written = [reply]"
    using one_reply_handle_value by (metis fst_conv one_reply_def)
  with Shutdown_nil_too_early [OF ex_read h] show ?thesis by (elim exE conjE) (intro exI conjI, simp_all)
qed

text \<open>
  C11. Connections do not lend each other their login: on a server with a password, however the connections
  interleave, a client that has not sent the right \<open>AUTH\<close> has got nothing but errors, even while others are
  logged in, and no command of its own changes the server or sends a message to another node.
\<close>

theorem login_is_per_connection:
  assumes "authToken s \<noteq> []" and "lts_run (serve_step E L) (serving s) ls S" and "c \<in> set (conns S) \<union> set (ended S)"
    and "\<forall>v \<in> set (values_read (c_sent c)). \<forall>name token. v = Array [BulkString (Some name), BulkString (Some token)] \<and>
      ToUpper (unicode_upper L) name = ''AUTH'' \<longrightarrow> sha256 L token \<noteq> sha256 L (authToken s)"
  shows "\<not> c_auth c \<and> (\<forall>r \<in> set (c_replies c). is_error r) \<and>
    (\<forall>i C S'. i < length (conns S) \<and> conns S ! i = c \<and> serve_step E L S (Turn i C) S' \<longrightarrow>
      rs_server S' = rs_server S \<and> sent S' = sent S)"
proof -
  let ?token = "authToken s"
  have no: "list_all (\<lambda>v. \<not> logs_in L ?token v) (values_read (c_sent c))"
    using assms(4) unfolding list_all_iff logs_in_def by blast
  have inv: "locked_inv L ?token S" by (rule locked_inv_run [OF assms(1,2)])
  then have c: "locked_conn L ?token c" and tok: "authToken (rs_server S) = ?token" using assms(3) by (auto simp: locked_inv_def)
  have "rs_server S' = rs_server S \<and> sent S' = sent S"
    if "conns S ! i = c" and st: "serve_step E L S (Turn i C) S'" for i C S'
  proof -
    have "conn_step E L S (Turn i C) S'" using st by cases (auto elim: accept_stepE shutdown_stepE)
    then show ?thesis
    proof cases
      case (turn c' v rest written out auth' s')
      then show ?thesis using locked_turn(2) [OF assms(1) tok c, of v rest E C written out auth' s'] that(1) no by auto
    qed
  qed
  with c no show ?thesis by (auto simp: locked_conn_def list_all_iff)
qed

theorem login_is_per_connection_witness:
  "\<exists>S c. lts_run (serve_step ref_env ex_lib) (serving (ex_server ''pw'' ex_ring)) (ex_accept_run @ [Spawn, Turn 0 ex_command_env]) S \<and>
    conns S = [c] \<and> length (c_replies c) = 1 \<and> list_all is_error (c_replies c)"
proof -
  let ?s = "ex_server ''pw'' ex_ring" and ?v = "Array [BulkString (Some ''AUTH''), BulkString (Some ''no'')]"
  let ?T = "ex_accepted\<lparr>accepted := None, wg := wg ex_accepted + 1, conns := conns ex_accepted @ [new_conn (rs_server ex_accepted) (''AUTH no'' @ CRLF) True]\<rparr>"
  obtain written out auth' s' where h: "handle_value ref_env ex_lib ex_command_env ?v (c_auth ex_conn) (rs_server ?T) = (written, out, auth', s')"
    by (metis prod_cases4)
  let ?c = "ex_conn\<lparr>c_input := [], c_auth := auth', c_replies := c_replies ex_conn @ written\<rparr>"
  let ?S = "?T\<lparr>conns := (conns ?T)[0 := ?c], rs_server := s', sent := sent ?T @ out\<rparr>"
  have sp: "serve_step ref_env ex_lib ex_accepted Spawn ?T" by (rule accept_intros(2)) (simp add: ex_accepted_def)
  have T: "conns ?T = [ex_conn]" by (simp add: ex_accepted_def serving_def ex_conn_def)
  have "ReadValue (c_input ex_conn) = (Inr ?v, [])" using ex_read by (simp add: ex_conn_def new_conn_def)
  then have "serve_step ref_env ex_lib ?T (Turn 0 ex_command_env) ?S" using T h by (intro serves turn) simp_all
  with sp have "lts_run (serve_step ref_env ex_lib) ex_accepted [Spawn, Turn 0 ex_command_env] ?S" by (auto simp: lts_run_Cons)
  with ex_accepted_run have run: "lts_run (serve_step ref_env ex_lib) (serving ?s) (ex_accept_run @ [Spawn, Turn 0 ex_command_env]) ?S"
    unfolding lts_run_append by blast
  have cs: "conns ?S = [?c]" using T by simp
  have "length written = 1" using one_reply_handle_value h by (metis fst_conv one_reply_def length_Cons list.size(3) One_nat_def)
  then have "c_sent ?c = ''AUTH no'' @ CRLF" "length (c_replies ?c) = 1" by (simp_all add: ex_conn_def new_conn_def)
  moreover have "\<forall>r \<in> set (c_replies ?c). is_error r"
    using login_is_per_connection [OF _ run, of ?c] unfolding cs \<open>c_sent ?c = _\<close> ex_login by (simp add: ex_lib_def)
  ultimately show ?thesis using run cs unfolding list_all_iff by blast
qed

end
