(* ===== verification/Transport.thy ===== *)
theory Transport
  imports Tls
begin

text \<open>
  The transport over memberlist, \<open>src/internal/gossip/memberlist_transport.go\<close>: how it starts, leaves and
  shuts down, what it makes of the members memberlist reports, how it finds the node to send to, the
  metadata of a node, and the callbacks, which end in the handlers of the gossip layer.

  The library is a parameter: its default configuration, whether it can be created, the results of its
  operations, the list of its nodes, its queue of broadcasts and the codec of \<open>NodeMeta\<close>. An IP address is
  the text that its \<open>String\<close> method gives.
\<close>

section \<open>Start and end\<close>

record TransportConfig =
  tc_NodeID :: string
  tc_BindAddr :: string
  tc_BindPort :: int
  tc_RedisAddr :: string
  tc_TLSConfig :: "tlsConfig option"
  tc_SecretKey :: "string option"

text \<open>
  The callbacks, on a state \<open>'s\<close> of the layer above; each may be nil. Those that write an event get the time. A message
  may be answered by messages to other nodes.
\<close>

record ('b, 's) TransportHandlers =
  OnMessage :: "(string \<Rightarrow> 'b \<Rightarrow> 's \<Rightarrow> 'b sends \<times> 's) option"
  OnJoin :: "(int \<Rightarrow> string \<Rightarrow> string \<Rightarrow> 's \<Rightarrow> 's) option"
  OnLeave :: "(int \<Rightarrow> string \<Rightarrow> 's \<Rightarrow> 's) option"
  OnUpdate :: "(int \<Rightarrow> string \<Rightarrow> string \<Rightarrow> 's \<Rightarrow> 's) option"
  OnLocalState :: "('s \<Rightarrow> 'b option) option"
  OnMergeRemoteState :: "('b \<Rightarrow> 's \<Rightarrow> 's) option"

text \<open>The callbacks that the \<open>Start\<close> of the gossip handler registers.\<close>

definition gossip_handlers :: "('t, 'b) env \<Rightarrow> ('b, Handler \<times> 't Shared) TransportHandlers" where
  "gossip_handlers E =
     \<lparr>OnMessage = Some (\<lambda>from msg s. handleMessage E msg s),
      OnJoin = Some (handleJoin E),
      OnLeave = Some handleLeave,
      OnUpdate = Some (\<lambda>now node addr (h, sh). (handleUpdate now node addr h, sh)),
      OnLocalState = Some (\<lambda>(h, sh). handleLocalState E sh),
      OnMergeRemoteState = Some (\<lambda>msg (h, sh). (h, handleMergeRemoteState E msg h sh))\<rparr>"

text \<open>
  \<open>mlist\<close> is \<open>None\<close> before \<open>Start\<close> and then the configuration the memberlist instance was created with;
  \<open>broadcasts\<close> is its queue, of the library's type \<open>'q\<close>.
\<close>

record ('c, 'q, 'b, 's) memberlistTransport =
  mt_cfg :: TransportConfig
  mlist :: "'c mlConfig option"
  broadcasts :: "'q option"
  handlers :: "('b, 's) TransportHandlers"

definition NewMemberlistTransport :: "TransportConfig \<Rightarrow> ('c, 'q, 'b, 's) memberlistTransport" where
  "NewMemberlistTransport zero =
     \<lparr>mt_cfg = zero, mlist = None, broadcasts = None,
      handlers = \<lparr>OnMessage = None, OnJoin = None, OnLeave = None, OnUpdate = None, OnLocalState = None, OnMergeRemoteState = None\<rparr>\<rparr>"

definition SetHandlers :: "('b, 's) TransportHandlers \<Rightarrow> ('c, 'q, 'b, 's) memberlistTransport \<Rightarrow> ('c, 'q, 'b, 's) memberlistTransport" where
  "SetHandlers hs m = m\<lparr>handlers := hs\<rparr>"

text \<open>
  The library: \<open>DefaultLANConfig\<close>, \<open>NewNetTransport\<close>, whether \<open>Create\<close> succeeds, a new queue, and the
  operations of the queue.
\<close>

record ('c, 'q) memberlist =
  DefaultLANConfig :: "'c mlConfig"
  NewNetTransport :: "string \<Rightarrow> int \<Rightarrow> int option"
  Create :: "'c mlConfig \<Rightarrow> bool"
  newQueue :: 'q

datatype start_error = ErrTLSTransport | ErrMemberlist

definition ml_config :: "('c, 'q) memberlist \<Rightarrow> TransportConfig \<Rightarrow> 'c mlConfig" where
  "ml_config lib tc =
     (DefaultLANConfig lib)\<lparr>ml_Name := tc_NodeID tc, BindAddr := tc_BindAddr tc, BindPort := tc_BindPort tc,
        ml_SecretKey := tc_SecretKey tc, EnableCompression := True\<rparr>"

text \<open>The configuration with the TLS transport, if one is asked for; \<open>None\<close> if it cannot be made.\<close>

definition with_tls :: "('c, 'q) memberlist \<Rightarrow> TransportConfig \<Rightarrow> 'c mlConfig \<Rightarrow> 'c mlConfig option" where
  "with_tls lib tc mlCfg =
     (case tc_TLSConfig tc of
        None \<Rightarrow> Some mlCfg
      | Some tlsCfg \<Rightarrow>
          (case NewTLSTransport (NewNetTransport lib) tlsCfg mlCfg of
             None \<Rightarrow> None
           | Some (tlsTransport, mlCfg') \<Rightarrow> Some (mlCfg'\<lparr>ml_Transport := Some tlsTransport\<rparr>)))"

definition Start :: "('c, 'q) memberlist \<Rightarrow> TransportConfig \<Rightarrow> ('c, 'q, 'b, 's) memberlistTransport
    \<Rightarrow> start_error option \<times> ('c, 'q, 'b, 's) memberlistTransport" where
  "Start lib tc m0 =
     (let m = m0\<lparr>mt_cfg := tc\<rparr>
      in case with_tls lib tc (ml_config lib tc) of
           None \<Rightarrow> (Some ErrTLSTransport, m)
         | Some mlCfg \<Rightarrow>
             if \<not> Create lib mlCfg then (Some ErrMemberlist, m)
             else (None, m\<lparr>mlist := Some mlCfg, broadcasts := Some (newQueue lib)\<rparr>))"

text \<open>
  The operations on the running instance; the parameters are the results of memberlist's own, an error or
  nil, and the outcome is \<open>None\<close> where a nil pointer makes the call panic. \<open>Leave\<close> and \<open>Shutdown\<close> also
  tell which of memberlist's operations ran.
\<close>

datatype ml_call = CallLeave | CallShutdown

definition Join :: "(string list \<Rightarrow> 'e + int) \<Rightarrow> string list \<Rightarrow> ('c, 'q, 'b, 's) memberlistTransport \<Rightarrow> ('e + int) option" where
  "Join ml_join seeds m = (case mlist m of None \<Rightarrow> None | Some _ \<Rightarrow> Some (ml_join seeds))"

definition Leave :: "'e option \<Rightarrow> 'e option \<Rightarrow> ('c, 'q, 'b, 's) memberlistTransport \<Rightarrow> 'e option \<times> ml_call list" where
  "Leave leave_err shutdown_err m =
     (case mlist m of
        None \<Rightarrow> (None, [])
      | Some _ \<Rightarrow> if leave_err \<noteq> None then (leave_err, [CallLeave]) else (shutdown_err, [CallLeave, CallShutdown]))"

definition Shutdown :: "'e option \<Rightarrow> ('c, 'q, 'b, 's) memberlistTransport \<Rightarrow> 'e option \<times> ml_call list" where
  "Shutdown shutdown_err m = (case mlist m of None \<Rightarrow> (None, []) | Some _ \<Rightarrow> (shutdown_err, [CallShutdown]))"

section \<open>Nodes\<close>

datatype NodeStateType = StateAlive | StateSuspect | StateDead | StateLeft

record mlNode =
  nd_Name :: string
  nd_Addr :: string
  nd_Port :: nat
  nd_Meta :: string
  nd_State :: NodeStateType

text \<open>\<open>net.JoinHostPort\<close>: a host with a colon or a zone is put in brackets.\<close>

definition JoinHostPort :: "string \<Rightarrow> string \<Rightarrow> string" where
  "JoinHostPort host port =
     (if CHR '':'' \<in> set host \<or> CHR ''%'' \<in> set host then ''['' @ host @ '']:'' @ port else host @ '':'' @ port)"

fun status_text :: "NodeStateType \<Rightarrow> string" where
  "status_text StateAlive = ''alive''"
| "status_text StateSuspect = ''suspect''"
| "status_text StateDead = ''dead''"
| "status_text StateLeft = ''left''"

text \<open>The Redis address of a node, or its IP address when the metadata gives none.\<close>

definition redis_addr :: "(string \<Rightarrow> string option) \<Rightarrow> mlNode \<Rightarrow> string" where
  "redis_addr decode nd =
     (let redisAddr = DecodeMetaRedisAddr decode (nd_Meta nd) in if redisAddr = [] then nd_Addr nd else redisAddr)"

definition member_info :: "(string \<Rightarrow> string option) \<Rightarrow> mlNode \<Rightarrow> MemberInfo" where
  "member_info decode nd =
     \<lparr>Name = nd_Name nd, mi_RedisAddr = redis_addr decode nd,
      Addr = JoinHostPort (nd_Addr nd) (itoa (int (nd_Port nd))), Status = status_text (nd_State nd)\<rparr>"

text \<open>\<open>known\<close> is \<open>None\<close> while \<open>mlist\<close> is nil, and then the nodes memberlist knows.\<close>

definition Members :: "(string \<Rightarrow> string option) \<Rightarrow> mlNode list option \<Rightarrow> MemberInfo list" where
  "Members decode known = (case known of None \<Rightarrow> [] | Some nds \<Rightarrow> map (member_info decode) nds)"

definition LocalNodeID :: "string \<Rightarrow> string option \<Rightarrow> string" where
  "LocalNodeID cfgNodeID local = (case local of None \<Rightarrow> cfgNodeID | Some name \<Rightarrow> name)"

text \<open>
  \<open>SendReliable\<close>: \<open>send\<close> is memberlist's own, which succeeds or not. The result is whether there was no
  error, and the node the bytes went to.
\<close>

fun SendReliable :: "(mlNode \<Rightarrow> bool) \<Rightarrow> string \<Rightarrow> mlNode list \<Rightarrow> bool \<times> mlNode option" where
  "SendReliable send target [] = (False, None)"
| "SendReliable send target (nd # nds) =
     (if nd_Name nd = target then (send nd, Some nd) else SendReliable send target nds)"

section \<open>The delegate\<close>

text \<open>\<open>encode\<close> is \<open>proto.Marshal\<close> of a \<open>NodeMeta\<close>; longer metadata than memberlist allows is cut.\<close>

definition NodeMeta :: "(string \<Rightarrow> string option) \<Rightarrow> string \<Rightarrow> nat \<Rightarrow> string" where
  "NodeMeta encode redisAddr limit =
     (case encode redisAddr of None \<Rightarrow> [] | Some b \<Rightarrow> if limit < length b then take limit b else b)"

definition NotifyMsg :: "('c, 'q, 'b, 's) memberlistTransport \<Rightarrow> 'b \<Rightarrow> 's \<Rightarrow> 'b sends \<times> 's" where
  "NotifyMsg m msg s = (case OnMessage (handlers m) of None \<Rightarrow> ([], s) | Some f \<Rightarrow> f [] msg s)"

definition LocalState :: "('c, 'q, 'b, 's) memberlistTransport \<Rightarrow> 's \<Rightarrow> 'b option" where
  "LocalState m s = (case OnLocalState (handlers m) of None \<Rightarrow> None | Some f \<Rightarrow> f s)"

definition MergeRemoteState :: "('c, 'q, 'b, 's) memberlistTransport \<Rightarrow> 'b \<Rightarrow> 's \<Rightarrow> 's" where
  "MergeRemoteState m msg s = (case OnMergeRemoteState (handlers m) of None \<Rightarrow> s | Some f \<Rightarrow> f msg s)"

definition NotifyJoin :: "(string \<Rightarrow> string option) \<Rightarrow> ('c, 'q, 'b, 's) memberlistTransport \<Rightarrow> int \<Rightarrow> mlNode \<Rightarrow> 's \<Rightarrow> 's" where
  "NotifyJoin decode m now nd s =
     (case OnJoin (handlers m) of None \<Rightarrow> s | Some f \<Rightarrow> f now (nd_Name nd) (redis_addr decode nd) s)"

definition NotifyLeave :: "('c, 'q, 'b, 's) memberlistTransport \<Rightarrow> int \<Rightarrow> mlNode \<Rightarrow> 's \<Rightarrow> 's" where
  "NotifyLeave m now nd s = (case OnLeave (handlers m) of None \<Rightarrow> s | Some f \<Rightarrow> f now (nd_Name nd) s)"

definition NotifyUpdate :: "(string \<Rightarrow> string option) \<Rightarrow> ('c, 'q, 'b, 's) memberlistTransport \<Rightarrow> int \<Rightarrow> mlNode \<Rightarrow> 's \<Rightarrow> 's" where
  "NotifyUpdate decode m now nd s =
     (case OnUpdate (handlers m) of
        None \<Rightarrow> s
      | Some f \<Rightarrow> f now (nd_Name nd) (DecodeMetaRedisAddr decode (nd_Meta nd)) s)"

section \<open>Broadcasts\<close>

record mlBroadcast =
  bc_buf :: string
  bc_name :: string

text \<open>The argument is \<open>None\<close> when the other broadcast is of another type.\<close>

definition Invalidates :: "mlBroadcast \<Rightarrow> mlBroadcast option \<Rightarrow> bool" where
  "Invalidates b other = (case other of None \<Rightarrow> False | Some b' \<Rightarrow> bc_name b = bc_name b')"

text \<open>\<open>queue_bc\<close> is \<open>QueueBroadcast\<close> of the library, \<open>get\<close> its \<open>GetBroadcasts\<close>; \<open>None\<close> is a panic.\<close>

definition Broadcast :: "(mlBroadcast \<Rightarrow> 'q \<Rightarrow> 'q) \<Rightarrow> string \<Rightarrow> string \<Rightarrow> ('c, 'q, 'b, 's) memberlistTransport \<Rightarrow> ('c, 'q, 'b, 's) memberlistTransport option" where
  "Broadcast queue_bc msg dedupKey m =
     (case broadcasts m of
        None \<Rightarrow> None
      | Some q \<Rightarrow> Some (m\<lparr>broadcasts := Some (queue_bc \<lparr>bc_buf = msg, bc_name = dedupKey\<rparr> q)\<rparr>))"

definition GetBroadcasts :: "(int \<Rightarrow> int \<Rightarrow> 'q \<Rightarrow> string list \<times> 'q) \<Rightarrow> int \<Rightarrow> int \<Rightarrow> ('c, 'q, 'b, 's) memberlistTransport
    \<Rightarrow> (string list \<times> ('c, 'q, 'b, 's) memberlistTransport) option" where
  "GetBroadcasts get overhead limit m =
     (case broadcasts m of
        None \<Rightarrow> None
      | Some q \<Rightarrow> (case get overhead limit q of (msgs, q') \<Rightarrow> Some (msgs, m\<lparr>broadcasts := Some q'\<rparr>)))"

section \<open>Lemmas\<close>

text \<open>
  A transport that started runs memberlist with the node's name, address and secret, and with a TLS
  transport exactly if one was configured; its operations do not panic. A transport that did not start
  can be left and shut down.
\<close>

lemma Start_ok:
  assumes "Start lib tc m0 = (None, m)"
  obtains mlCfg where "mlist m = Some mlCfg" "Create lib mlCfg" "ml_Name mlCfg = tc_NodeID tc" "BindAddr mlCfg = tc_BindAddr tc"
    "ml_SecretKey mlCfg = tc_SecretKey tc"
    "ml_Transport mlCfg = (case tc_TLSConfig tc of None \<Rightarrow> ml_Transport (DefaultLANConfig lib) | Some c \<Rightarrow> Some (new_transport c))"
    "broadcasts m = Some (newQueue lib)"
proof -
  obtain mlCfg where w: "with_tls lib tc (ml_config lib tc) = Some mlCfg" "Create lib mlCfg"
      "m = m0\<lparr>mt_cfg := tc, mlist := Some mlCfg, broadcasts := Some (newQueue lib)\<rparr>"
    using assms by (auto simp: Start_def Let_def split: option.splits if_splits)
  have "ml_Name mlCfg = tc_NodeID tc" "BindAddr mlCfg = tc_BindAddr tc" "ml_SecretKey mlCfg = tc_SecretKey tc"
    "ml_Transport mlCfg = (case tc_TLSConfig tc of None \<Rightarrow> ml_Transport (DefaultLANConfig lib) | Some c \<Rightarrow> Some (new_transport c))"
    using w(1) by (auto simp: with_tls_def ml_config_def NewTLSTransport_def split: option.splits if_splits)
  with w that show thesis by simp
qed

lemma Start_bind_port:
  assumes "Start lib tc m0 = (None, m)" and "mlist m = Some mlCfg"
  shows "tc_BindPort tc \<noteq> 0 \<Longrightarrow> BindPort mlCfg = tc_BindPort tc"
    "tc_BindPort tc = 0 \<Longrightarrow> tc_TLSConfig tc \<noteq> None \<Longrightarrow>
      NewNetTransport lib (tc_BindAddr tc) 0 = Some (BindPort mlCfg) \<and> AdvertisePort mlCfg = BindPort mlCfg"
  using assms by (auto simp: Start_def with_tls_def ml_config_def NewTLSTransport_def Let_def split: option.splits if_splits)

text \<open>
  With the callbacks of the gossip handler, memberlist's notifications run the handlers: the steps of the
  cluster for messages, for the two halves of a push-pull, and for nodes that join, leave or change.
\<close>

lemma delegate_runs_handlers:
  assumes "handlers m = gossip_handlers E"
  shows "NotifyMsg m msg s = handleMessage E msg s"
    "LocalState m s = handleLocalState E (snd s)"
    "MergeRemoteState m msg s = (fst s, handleMergeRemoteState E msg (fst s) (snd s))"
    "NotifyJoin decode m now nd s = handleJoin E now (nd_Name nd) (redis_addr decode nd) s"
    "NotifyLeave m now nd s = handleLeave now (nd_Name nd) s"
    "NotifyUpdate decode m now nd s = (handleUpdate now (nd_Name nd) (DecodeMetaRedisAddr decode (nd_Meta nd)) (fst s), snd s)"
  using assms
  by (simp_all add: NotifyMsg_def LocalState_def MergeRemoteState_def NotifyJoin_def NotifyLeave_def NotifyUpdate_def
      gossip_handlers_def split: prod.split)

lemma Start_handlers: "Start lib tc m = (err, m') \<Longrightarrow> handlers m' = handlers m"
  by (auto simp: Start_def Let_def split: option.splits if_splits)

lemma unstarted_transport:
  assumes "mlist m = None"
  shows "Leave e1 e2 m = (None, [])" "Shutdown e2 m = (None, [])" "Join ml_join seeds m = None"
  using assms by (simp_all add: Leave_def Shutdown_def Join_def)

text \<open>
  A message goes to the node of the wanted name or to none; with different names, as memberlist keeps
  them, that node is the only one.
\<close>

lemma SendReliable_target: "SendReliable send target nds = (ok, Some nd) \<Longrightarrow> nd \<in> set nds \<and> nd_Name nd = target"
  by (induction nds) (auto split: if_splits)

lemma SendReliable_known:
  "distinct (map nd_Name nds) \<Longrightarrow> nd \<in> set nds \<Longrightarrow> SendReliable send (nd_Name nd) nds = (send nd, Some nd)"
  by (induction nds) force+

lemma SendReliable_unknown: "target \<notin> nd_Name ` set nds \<Longrightarrow> SendReliable send target nds = (False, None)"
  by (induction nds) auto

text \<open>Metadata that fits is read back; metadata that was cut and cannot be read falls back to the IP address.\<close>

lemma redis_addr_roundtrip:
  assumes "encode addr = Some b" and "decode b = Some addr" and "b \<noteq> []" and "length b \<le> limit" and "addr \<noteq> []"
    and "nd_Meta nd = NodeMeta encode addr limit"
  shows "redis_addr decode nd = addr"
  using assms by (simp add: redis_addr_def NodeMeta_def DecodeMetaRedisAddr_def)

lemma redis_addr_cut:
  assumes "encode addr = Some b" and "limit < length b" and "decode (take limit b) = None"
    and "nd_Meta nd = NodeMeta encode addr limit"
  shows "redis_addr decode nd = nd_Addr nd"
  using assms by (simp add: redis_addr_def NodeMeta_def DecodeMetaRedisAddr_def)

lemma Members_names: "map Name (Members decode (Some nds)) = map nd_Name nds"
  by (simp add: Members_def member_info_def comp_def)

end
