(* ===== verification/Mgmt.thy ===== *)
theory Mgmt
  imports Server
begin

text \<open>
  The management server, \<open>src/internal/mgmt/mgmt.go\<close>: its start and end, authentication, routing and the
  handlers.

  A request is what \<open>net/http\<close> hands to a handler: method, the segments of the path, decoded one by one,
  whether the path is in canonical form, credentials, the query parameter \<open>n\<close>, and what the JSON decoder
  makes of the first 4096 bytes of the body, an error text or an address. A response is its status and
  what was written. JSON encoding and the connections of \<open>net/http\<close> are not modelled.
\<close>

section \<open>Requests and responses\<close>

record request =
  Method :: string
  Segs :: "string list"
  Canonical :: bool
  BasicAuth :: "(string \<times> string) option"
  query_n :: string
  join_body :: "string + string"

text \<open>\<open>r.URL.Path\<close>.\<close>

definition Path :: "request \<Rightarrow> string" where
  "Path r = concat (map (\<lambda>seg. CHR ''/'' # seg) (Segs r))"

record infoResponse =
  info_node :: string
  info_keys :: int
  info_members :: "MemberInfo list"

record hashringAPIEntry =
  api_Hash :: string
  HashU64 :: uint64
  api_NodeID :: string
  api_Address :: string

record ringResponse =
  LocalNode :: string
  NodeCount :: nat
  TotalVNodes :: nat
  ring_Entries :: "hashringAPIEntry list"

datatype body =
    Empty
  | ErrorText string
  | DashboardHTML
  | JoinOK
  | Info infoResponse
  | Events "ClusterEvent list"
  | Ring ringResponse
  | EventStream "string list"

type_synonym response = "nat \<times> body"

text \<open>
  What a request meets: the members, the error of \<open>Join\<close> if any, whether the connection can stream, what
  arrives on a stream, the JSON of an event, and the redirection with which \<open>ServeMux\<close> answers a path
  that is not in canonical form.
\<close>

datatype stream_event = Closed | Heartbeat | Arrived ClusterEvent

record mgmt_env =
  mg_members :: "MemberInfo list"
  mg_join :: "string \<Rightarrow> string option"
  mg_flusher :: bool
  mg_stream :: "stream_event list"
  mg_json :: "ClusterEvent \<Rightarrow> string option"
  mg_redirect :: response

section \<open>Handlers\<close>

definition handleReady :: "mgmt_env \<Rightarrow> request \<Rightarrow> Handler \<Rightarrow> response" where
  "handleReady M r h =
     (if Method r \<noteq> ''GET'' then (405, ErrorText ''method not allowed'')
      else if list_ex (\<lambda>m. Name m = node_id h \<and> Status m = ''alive'') (mg_members M) then (200, Empty)
      else (503, ErrorText ''not ready''))"

definition handleDashboard :: "request \<Rightarrow> response" where
  "handleDashboard r = (if Path r \<noteq> ''/'' then (404, ErrorText ''404 page not found'') else (200, DashboardHTML))"

text \<open>\<open>mg_join\<close> gives \<open>None\<close> on success and otherwise the error. The second result is the join attempted.\<close>

definition mgmt_handleJoin :: "mgmt_env \<Rightarrow> request \<Rightarrow> response \<times> string option" where
  "mgmt_handleJoin M r =
     (if Method r \<noteq> ''POST'' then ((405, ErrorText ''method not allowed''), None)
      else (case join_body r of
          Inl err \<Rightarrow> ((400, ErrorText (''bad request: '' @ err)), None)
        | Inr address \<Rightarrow>
            (case SplitHostPort address of
               None \<Rightarrow> ((400, ErrorText ''address must be host:port''), None)
             | Some (host, port) \<Rightarrow>
                 if host = [] then ((400, ErrorText ''address must be host:port''), None)
                 else (case atoi port of
                     (n, err) \<Rightarrow>
                       if err \<noteq> None \<or> n < 1 \<or> 65535 < n then ((400, ErrorText ''address must have a valid port''), None)
                       else (case mg_join M address of
                           Some e \<Rightarrow> ((502, ErrorText (''join failed: '' @ e)), Some address)
                         | None \<Rightarrow> ((200, JoinOK), Some address))))))"

definition handleInfo :: "mgmt_env \<Rightarrow> request \<Rightarrow> Handler \<Rightarrow> 't Shared \<Rightarrow> response" where
  "handleInfo M r h sh =
     (if Method r \<noteq> ''GET'' then (405, ErrorText ''method not allowed'')
      else (200, Info \<lparr>info_node = node_id h, info_keys = KeyCount sh, info_members = mg_members M\<rparr>))"

definition events_limit :: "request \<Rightarrow> int" where
  "events_limit r =
     (if query_n r \<noteq> []
      then (case atoi (query_n r) of (v, err) \<Rightarrow> if err = None \<and> 0 < v \<and> v \<le> 200 then v else 50)
      else 50)"

definition handleEvents :: "request \<Rightarrow> Handler \<Rightarrow> response" where
  "handleEvents r h =
     (if Method r \<noteq> ''GET'' then (405, ErrorText ''method not allowed'')
      else (200, Events (RecentEvents (events_limit r) h)))"

text \<open>The loop of the event stream: what it writes until the client goes away.\<close>

fun stream_loop :: "(ClusterEvent \<Rightarrow> string option) \<Rightarrow> stream_event list \<Rightarrow> string list" where
  "stream_loop json [] = []"
| "stream_loop json (Closed # es) = []"
| "stream_loop json (Heartbeat # es) = ('': heartbeat'' @ [LF, LF]) # stream_loop json es"
| "stream_loop json (Arrived ev # es) =
     (case json ev of
        None \<Rightarrow> stream_loop json es
      | Some data \<Rightarrow> (''event: '' @ Type ev @ [LF] @ ''data: '' @ data @ [LF, LF]) # stream_loop json es)"

definition handleEventStream :: "mgmt_env \<Rightarrow> Handler \<Rightarrow> response \<times> Handler" where
  "handleEventStream M h =
     (if \<not> mg_flusher M then ((500, ErrorText ''streaming not supported''), h)
      else (case Subscribe \<lparr>capacity = 32, queue = []\<rparr> h of
          (i, h1) \<Rightarrow>
            ((200, EventStream (('': connected'' @ [LF, LF]) # stream_loop (mg_json M) (mg_stream M))), unsubscribe i h1)))"

text \<open>\<open>fmt\<close>'s \<open>%016x\<close> of a 64-bit number.\<close>

definition hex_digit :: "nat \<Rightarrow> char" where
  "hex_digit d = (if d < 10 then char_of (48 + d) else char_of (87 + d))"

definition hex16 :: "uint64 \<Rightarrow> string" where
  "hex16 w = map (\<lambda>i. hex_digit (unat w div 16 ^ i mod 16)) (rev [0..<16])"

definition toAPIRingEntries :: "RingEntryInfo list \<Rightarrow> hashringAPIEntry list" where
  "toAPIRingEntries es =
     map (\<lambda>e. \<lparr>api_Hash = hex16 (info_Hash e), HashU64 = info_Hash e, api_NodeID = info_NodeID e, api_Address = info_Address e\<rparr>) es"

definition handleRing :: "request \<Rightarrow> Handler \<Rightarrow> 't Shared \<Rightarrow> response" where
  "handleRing r h sh =
     (if Method r \<noteq> ''GET'' then (405, ErrorText ''method not allowed'')
      else
        let es = RingSnapshot (sh_ring sh)
        in (200, Ring \<lparr>LocalNode = node_id h, NodeCount = length (remdups (map info_NodeID es)),
             TotalVNodes = length es, ring_Entries = toAPIRingEntries es\<rparr>))"

section \<open>Routing and authentication\<close>

text \<open>
  The patterns registered with \<open>ServeMux\<close>: all but \<open>/\<close> match one path only, and \<open>/\<close> matches what is left. A
  handler returns its response, the join it attempted, and the gossip handler.
\<close>

definition serve_mux :: "mgmt_env \<Rightarrow> request \<Rightarrow> Handler \<times> 't Shared \<Rightarrow> response \<times> string option \<times> Handler" where
  "serve_mux M r = (\<lambda>(h, sh).
     (if \<not> Canonical r \<and> Method r \<noteq> ''CONNECT'' then (mg_redirect M, None, h)
      else if Segs r = [''info''] then (handleInfo M r h sh, None, h)
      else if Segs r = [''join''] then (case mgmt_handleJoin M r of (resp, j) \<Rightarrow> (resp, j, h))
      else if Segs r = [''events''] then (handleEvents r h, None, h)
      else if Segs r = [''events'', ''stream''] then (case handleEventStream M h of (resp, h') \<Rightarrow> (resp, None, h'))
      else if Segs r = [''ring''] then (handleRing r h sh, None, h)
      else if Segs r = [''readyz''] then (handleReady M r h, None, h)
      else (handleDashboard r, None, h)))"

definition unauthorized :: response where
  "unauthorized = (401, ErrorText ''unauthorized'')"

text \<open>\<open>digest\<close> is SHA-256; without credentials \<open>BasicAuth\<close> gives an empty password and false.\<close>

definition auth :: "(string \<Rightarrow> string) \<Rightarrow> string \<Rightarrow> (request \<Rightarrow> Handler \<times> 't Shared \<Rightarrow> response \<times> string option \<times> Handler)
    \<Rightarrow> request \<Rightarrow> Handler \<times> 't Shared \<Rightarrow> response \<times> string option \<times> Handler" where
  "auth digest token nxt r s =
     (if token = [] then nxt r s
      else
        let ok = (BasicAuth r \<noteq> None);
            password = (case BasicAuth r of Some (_, pw) \<Rightarrow> pw | None \<Rightarrow> [])
        in if Path r \<noteq> ''/readyz'' \<and> (\<not> ok \<or> digest token \<noteq> digest password)
           then (unauthorized, None, fst s)
           else nxt r s)"

text \<open>The handler that \<open>ListenAndServe\<close> installs.\<close>

definition serve :: "(string \<Rightarrow> string) \<Rightarrow> string \<Rightarrow> mgmt_env \<Rightarrow> request \<Rightarrow> Handler \<times> 't Shared \<Rightarrow> response \<times> string option \<times> Handler" where
  "serve digest token M r s = auth digest token (serve_mux M) r s"

section \<open>Start and end\<close>

text \<open>
  \<open>ms_srv\<close> is the HTTP server once \<open>ListenAndServe\<close> has made it, given by the token its handler checks;
  \<open>ms_ln\<close> is the address of the listener once it listens. \<open>listen\<close> is \<open>net.Listen\<close>.
\<close>

record mgmtServer =
  ms_addr :: string
  ms_token :: string
  ms_srv :: "string option"
  ms_ln :: "string option"

definition New :: "string \<Rightarrow> mgmtServer" where
  "New addr = \<lparr>ms_addr = addr, ms_token = [], ms_srv = None, ms_ln = None\<rparr>"

definition SetAuthToken :: "string \<Rightarrow> mgmtServer \<Rightarrow> mgmtServer" where
  "SetAuthToken token s = s\<lparr>ms_token := token\<rparr>"

definition ListenAndServe :: "(string \<Rightarrow> string option) \<Rightarrow> mgmtServer \<Rightarrow> bool \<times> mgmtServer" where
  "ListenAndServe listen s0 =
     (let s = s0\<lparr>ms_srv := Some (ms_token s0)\<rparr>
      in case listen (ms_addr s) of None \<Rightarrow> (False, s) | Some a \<Rightarrow> (True, s\<lparr>ms_ln := Some a\<rparr>))"

definition Addr :: "mgmtServer \<Rightarrow> string" where
  "Addr s = (case ms_ln s of Some a \<Rightarrow> a | None \<Rightarrow> ms_addr s)"

text \<open>\<open>http_shutdown\<close> is the result of \<open>http.Server.Shutdown\<close>, an error or nil.\<close>

definition Shutdown :: "'e option \<Rightarrow> mgmtServer \<Rightarrow> 'e option" where
  "Shutdown http_shutdown s = (if ms_srv s = None then None else http_shutdown)"

text \<open>What the running server answers to a request.\<close>

definition answer :: "(string \<Rightarrow> string) \<Rightarrow> mgmtServer \<Rightarrow> mgmt_env \<Rightarrow> request \<Rightarrow> Handler \<times> 't Shared
    \<Rightarrow> (response \<times> string option \<times> Handler) option" where
  "answer digest s M r x = (case (ms_ln s, ms_srv s) of (Some _, Some token) \<Rightarrow> Some (serve digest token M r x) | _ \<Rightarrow> None)"

section \<open>Lemmas\<close>

text \<open>Hexadecimal hashes keep the number: the digits read back give it.\<close>

fun hex_value :: "string \<Rightarrow> nat" where
  "hex_value [] = 0"
| "hex_value (c # cs) =
     (if (of_char c :: nat) < 58 then of_char c - 48 else of_char c - 87) * 16 ^ length cs + hex_value cs"

lemma hex_digit_value: "d < 16 \<Longrightarrow> (if (of_char (hex_digit d) :: nat) < 58 then of_char (hex_digit d) - 48 else of_char (hex_digit d) - 87) = d"
  by (auto simp: hex_digit_def)

lemma hex_value_digits: "hex_value (map (\<lambda>i. hex_digit (n div 16 ^ i mod 16)) (rev [0..<k])) = n mod 16 ^ k"
proof (induction k)
  case (Suc k)
  have "n mod 16 ^ Suc k = (n div 16 ^ k mod 16) * 16 ^ k + n mod 16 ^ k"
    by (metis add.commute mod_mult2_eq mult.commute power_Suc)
  with Suc show ?case using hex_digit_value [of "n div 16 ^ k mod 16"] by simp
qed simp

lemma hex16_value: "hex_value (hex16 w) = unat w"
proof -
  have "unat w < 16 ^ 16" using unat64_less [of w] by simp
  then show ?thesis by (simp add: hex16_def hex_value_digits del: upt_Suc)
qed

text \<open>Only the readiness check is reached under the path that needs no credentials.\<close>

lemma Path_readyz: "Path r = ''/readyz'' \<Longrightarrow> Segs r = [''readyz'']"
proof -
  assume p: "Path r = ''/readyz''"
  then obtain a segs where s: "Segs r = a # segs" "a @ concat (map (\<lambda>seg. CHR ''/'' # seg) segs) = ''readyz''"
    by (cases "Segs r") (auto simp: Path_def)
  have "CHR ''/'' \<notin> set ''readyz''" by simp
  then have "segs = []" using s(2) by (cases segs) (metis (no_types, lifting) concat.simps(2) in_set_conv_decomp list.simps(9) append_Cons)+
  with s show ?thesis by simp
qed

lemma serve_refuses:
  assumes "token \<noteq> []" and "Path r \<noteq> ''/readyz''" and "\<And>user pw. BasicAuth r = Some (user, pw) \<Longrightarrow> digest pw \<noteq> digest token"
  shows "serve digest token M r (h, sh) = (unauthorized, None, h)"
  using assms by (auto simp: serve_def auth_def Let_def split: option.split)

lemma serve_readyz:
  assumes "Path r = ''/readyz''"
  shows "serve digest token M r (h, sh) = (mg_redirect M, None, h) \<or> serve digest token M r (h, sh) = (handleReady M r h, None, h)"
  using assms Path_readyz [OF assms] by (auto simp: serve_def auth_def serve_mux_def Let_def)

text \<open>The number of events asked for is always one that the log can hold, and a join has a host and a port.\<close>

lemma events_limit_bounds: "1 \<le> events_limit r \<and> events_limit r \<le> 200"
  by (auto simp: events_limit_def split: prod.split)

lemma mgmt_join_checked:
  assumes "mgmt_handleJoin M r = (resp, Some address)"
  shows "Method r = ''POST'' \<and> join_body r = Inr address \<and>
    (\<exists>host port n. SplitHostPort address = Some (host, port) \<and> host \<noteq> [] \<and> atoi port = (n, None) \<and> 1 \<le> n \<and> n \<le> 65535)"
  using assms by (auto simp: mgmt_handleJoin_def split: if_splits sum.splits option.splits prod.splits)

text \<open>A stream leaves the other subscribers alone.\<close>

lemma handleEventStream_subscribers:
  assumes "subscribers h (subNext h) = None"
  shows "subscribers (snd (handleEventStream M h)) = subscribers h"
  using assms by (auto simp: handleEventStream_def Subscribe_def unsubscribe_def fun_upd_idem)

end
