(* ===== verification/Startup.thy ===== *)
theory Startup
  imports Mgmt Transport Lifecycle
begin

text \<open>
  The program, \<open>src/cmd/hapartition/main.go\<close>: what it makes of the flags and the environment, how it starts the
  gossip layer and the two servers, and how it ends. Reading the flags, certificates and host name from the
  system, binding sockets and the memberlist library are parameters.
\<close>

section \<open>Addresses\<close>

text \<open>
  \<open>net.ParseIP\<close> and \<open>IsLoopback\<close>: a text whose first dot or colon is a dot is an IPv4 address of four
  decimal numbers below 256 without leading zeros, and is a loopback address if the first is 127; for
  IPv6, \<open>v6_loopback\<close> says which texts are loopback addresses.
\<close>

fun split_on :: "char \<Rightarrow> string \<Rightarrow> string list" where
  "split_on c [] = [[]]"
| "split_on c (x # s) =
     (if x = c then [] # split_on c s
      else (case split_on c s of f # fs \<Rightarrow> (x # f) # fs | [] \<Rightarrow> [[x]]))"

definition ipv4_field :: "string \<Rightarrow> nat option" where
  "ipv4_field f =
     (if f = [] \<or> \<not> list_all is_digit f \<or> (1 < length f \<and> hd f = CHR ''0'') then None
      else let n = fold (\<lambda>c n. n * 10 + digit_val c) f 0 in if 255 < n then None else Some n)"

definition parse_ipv4 :: "string \<Rightarrow> nat list option" where
  "parse_ipv4 s = (let fs = map ipv4_field (split_on CHR ''.'' s) in if length fs = 4 then those fs else None)"

fun first_sep :: "string \<Rightarrow> char option" where
  "first_sep [] = None"
| "first_sep (c # s) = (if c = CHR ''.'' \<or> c = CHR '':'' then Some c else first_sep s)"

definition loopback_ip :: "(string \<Rightarrow> bool) \<Rightarrow> string \<Rightarrow> bool" where
  "loopback_ip v6_loopback host =
     (case first_sep host of
        None \<Rightarrow> False
      | Some c \<Rightarrow>
          if c = CHR ''.'' then (case parse_ipv4 host of Some (a # _) \<Rightarrow> a = 127 | _ \<Rightarrow> False)
          else v6_loopback host)"

section \<open>Configuration\<close>

record flags =
  f_nodeID :: string
  bindHost :: string
  gossipBindHost :: string
  redisPort :: string
  httpPort :: string
  gossipPort :: int
  gossipJoin :: string
  replicaRF :: int
  f_writeConcern :: int
  tlsCert :: string
  tlsKey :: string
  tlsCA :: string
  advertiseAddr :: string

text \<open>
  What the system gives: the token from the environment, the host name if there is one, whether the
  certificates load, and the memberlist library.
\<close>

record ('c, 'q) system =
  env_token :: string
  Hostname :: "string option"
  LoadX509KeyPair :: "string \<Rightarrow> string \<Rightarrow> bool"
  load_CA :: "string \<Rightarrow> bool"
  system_CA :: bool
  v6_loopback :: "string \<Rightarrow> bool"
  library :: "('c, 'q) memberlist"

datatype fatal =
    AuthTokenRequired string
  | NoHostname
  | TLSKeyPair
  | TLSCA
  | GossipStart start_error
  | RedisListen
  | HTTPListen

text \<open>The node before it listens: its server, its gossip transport, and the address and token of the management server.\<close>

record ('t, 'b, 'c, 'q) started =
  st_server :: "'t Server"
  st_transport :: "('c, 'q, 'b, Handler \<times> 't Shared) memberlistTransport"
  http_addr :: string
  http_token :: string

definition exposed :: "('c, 'q) system \<Rightarrow> string \<Rightarrow> bool" where
  "exposed sys host \<longleftrightarrow> host \<noteq> ''localhost'' \<and> \<not> loopback_ip (v6_loopback sys) host"

definition write_concern :: "flags \<Rightarrow> int" where
  "write_concern f =
     (if f_writeConcern f \<le> 0 \<or> replicaRF f < f_writeConcern f then replicaRF f else f_writeConcern f)"

definition load_tls :: "('c, 'q) system \<Rightarrow> flags \<Rightarrow> fatal + tlsConfig option" where
  "load_tls sys f =
     (if tlsCert f \<noteq> [] \<and> tlsKey f \<noteq> [] then
        (if \<not> LoadX509KeyPair sys (tlsCert f) (tlsKey f) then Inl TLSKeyPair
         else
           (case (if tlsCA f \<noteq> [] then (if load_CA sys (tlsCA f) then Some (PoolFromFile (tlsCA f)) else None)
                  else if system_CA sys then Some SystemPool else None) of
              None \<Rightarrow> Inl TLSCA
            | Some caPool \<Rightarrow>
                Inr (Some \<lparr>Certificate = (tlsCert f, tlsKey f), ClientAuth = RequireAndVerifyClientCert, ClientCAs = caPool,
                  RootCAs = caPool, MinVersion = 771, ServerName = ''hapartition''\<rparr>)))
      else Inr None)"

text \<open>
  \<open>setupGossip\<close> makes the handler with a new memberlist transport and runs its \<open>Start\<close>, which registers its
  callbacks and starts the transport with the configuration made from its own.
\<close>

definition transport_config :: "flags \<Rightarrow> tlsConfig option \<Rightarrow> string option \<Rightarrow> Config \<Rightarrow> TransportConfig" where
  "transport_config f tls secret c =
     \<lparr>tc_NodeID = cfg_NodeID c, tc_BindAddr = gossipBindHost f, tc_BindPort = gossipPort f, tc_RedisAddr = cfg_RedisAddr c,
      tc_TLSConfig = tls, tc_SecretKey = secret\<rparr>"

definition staticDiscoverer_Discover :: "string list \<Rightarrow> string list \<times> bool" where
  "staticDiscoverer_Discover seeds = (seeds, False)"

definition setupGossip :: "('t, 'b) env \<Rightarrow> ('c, 'q) system \<Rightarrow> string list option \<Rightarrow> TransportConfig \<Rightarrow> Config
    \<Rightarrow> start_error + Handler \<times> ('c, 'q, 'b, Handler \<times> 't Shared) memberlistTransport" where
  "setupGossip E sys seeds tc c =
     (case Transport.Start (library sys) tc (SetHandlers (gossip_handlers E) (NewMemberlistTransport tc)) of
        (err, m) \<Rightarrow>
          (case Gossip.Start (err = None) (map_option staticDiscoverer_Discover seeds) 0 [] (Gossip.New c) of
             (ok, _, g) \<Rightarrow> (case err of Some e \<Rightarrow> Inl e | None \<Rightarrow> Inr (g, m))))"

definition main :: "('t, 'b) env \<Rightarrow> lib \<Rightarrow> ('c, 'q) system \<Rightarrow> flags \<Rightarrow> fatal + ('t, 'b, 'c, 'q) started" where
  "main E L sys f =
     (let token = env_token sys
      in case find (\<lambda>host. token = [] \<and> exposed sys host) [bindHost f, gossipBindHost f] of
           Some host \<Rightarrow> Inl (AuthTokenRequired host)
         | None \<Rightarrow>
             (case (if f_nodeID f = [] then Hostname sys else Some (f_nodeID f)) of
                None \<Rightarrow> Inl NoHostname
              | Some ident \<Rightarrow>
                  let redisAddr = JoinHostPort (bindHost f) (redisPort f);
                      ringAddr = (if advertiseAddr f = [] then redisAddr else advertiseAddr f);
                      srv0 = Server.SetAuthToken token (Server.New E redisAddr ident);
                      srv1 = (if ringAddr \<noteq> redisAddr then SetAdvertiseAddr E ringAddr srv0 else srv0);
                      wc = write_concern f;
                      c = \<lparr>cfg_NodeID = ident, cfg_RedisAddr = ringAddr, ReplicaRF = replicaRF f, WriteConcern = wc, AntiEntropySec = 30\<rparr>;
                      secret = (if token \<noteq> [] then Some (sha256 L token) else None);
                      seeds = (if gossipJoin f \<noteq> [] then Some (split_on CHR '','' (gossipJoin f)) else None)
                  in (case load_tls sys f of
                        Inl err \<Rightarrow> Inl err
                      | Inr tls \<Rightarrow>
                          (case setupGossip E sys seeds (transport_config f tls secret c) c of
                             Inl err \<Rightarrow> Inl (GossipStart err)
                           | Inr (g, m) \<Rightarrow>
                               Inr \<lparr>st_server = SetWriteConcern wc (SetGossip g srv1), st_transport = m,
                                 http_addr = JoinHostPort (bindHost f) (httpPort f), http_token = token\<rparr>))))"

section \<open>Serving and shutting down\<close>

text \<open>
  The rest of \<open>main\<close>: it listens with both servers, waits for a signal, and shuts down; what it calls on the way
  is recorded. \<open>listen\<close> is \<open>net.Listen\<close>. The outcome is the fatal error, if a server cannot listen.
\<close>

datatype action = ListenRedis | ListenHTTP | AwaitSignal | ShutdownHTTP | LeaveGossip | ShutdownRedis

definition main_serve :: "(string \<Rightarrow> string option) \<Rightarrow> ('t, 'b, 'c, 'q) started \<Rightarrow> action list \<times> fatal option" where
  "main_serve listen st =
     (case Lifecycle.ListenAndServe listen (st_server st) of
        None \<Rightarrow> ([ListenRedis, ShutdownRedis, LeaveGossip], Some RedisListen)
      | Some redisSrv \<Rightarrow>
          (case Mgmt.ListenAndServe listen (Mgmt.SetAuthToken (http_token st) (Mgmt.New (http_addr st))) of
             (False, _) \<Rightarrow> ([ListenRedis, ListenHTTP, ShutdownRedis, LeaveGossip], Some HTTPListen)
           | (True, _) \<Rightarrow> ([ListenRedis, ListenHTTP, AwaitSignal, ShutdownHTTP, LeaveGossip, ShutdownRedis], None)))"

text \<open>The calls of \<open>Leave\<close> among the actions, on the handler's \<open>stopCh\<close>: \<open>None\<close> is a panic.\<close>

fun run_leaves :: "action list \<Rightarrow> bool \<Rightarrow> bool option" where
  "run_leaves [] stopped = Some stopped"
| "run_leaves (a # as) stopped =
     (if a = LeaveGossip
      then (case Gossip.Leave (None :: unit option) stopped of None \<Rightarrow> None | Some (_, stopped') \<Rightarrow> run_leaves as stopped')
      else run_leaves as stopped)"

text \<open>
  The time the shutdown takes, in milliseconds: how long the requests and the Redis connections still need
  after their server is told to stop, \<open>None\<close> if they do not end by themselves, and how long \<open>Leave\<close> takes. One
  context with a deadline of five seconds serves both servers. \<open>await_ctx\<close> is a wait for the end or for the
  deadline: whether the end came first, and when. When both are there at once the deadline is taken.
\<close>

record shutdown_times =
  http_drain :: "nat option"
  leave_time :: nat
  redis_drain :: "nat option"

definition await_ctx :: "nat \<Rightarrow> nat \<Rightarrow> nat option \<Rightarrow> bool \<times> nat" where
  "await_ctx deadline now drain =
     (case drain of
        Some d \<Rightarrow> if now + d < deadline then (True, now + d) else (False, max now deadline)
      | None \<Rightarrow> (False, max now deadline))"

definition main_shutdown :: "shutdown_times \<Rightarrow> bool \<times> bool \<times> nat" where
  "main_shutdown T =
     (let deadline = 5000;
          (http_ok, t1) = await_ctx deadline 0 (http_drain T);
          t2 = t1 + leave_time T;
          (redis_ok, t3) = await_ctx deadline t2 (redis_drain T)
      in (http_ok, redis_ok, t3))"

section \<open>Lemmas\<close>

lemma main_Inr:
  assumes "main E L sys f = Inr st"
  obtains ident addr seeds tls g srv where
    "find (\<lambda>host. env_token sys = [] \<and> exposed sys host) [bindHost f, gossipBindHost f] = None"
    "load_tls sys f = Inr tls"
    "setupGossip E sys seeds (transport_config f tls (if env_token sys \<noteq> [] then Some (sha256 L (env_token sys)) else None)
         \<lparr>cfg_NodeID = ident, cfg_RedisAddr = addr, ReplicaRF = replicaRF f, WriteConcern = write_concern f, AntiEntropySec = 30\<rparr>)
       \<lparr>cfg_NodeID = ident, cfg_RedisAddr = addr, ReplicaRF = replicaRF f, WriteConcern = write_concern f, AntiEntropySec = 30\<rparr> =
       Inr (g, st_transport st)"
    "authToken srv = env_token sys" "st_server st = SetWriteConcern (write_concern f) (SetGossip g srv)" "http_token st = env_token sys"
proof -
  let ?find = "find (\<lambda>host. env_token sys = [] \<and> exposed sys host) [bindHost f, gossipBindHost f]"
  let ?id = "if f_nodeID f = [] then Hostname sys else Some (f_nodeID f)"
  have none: "?find = None"
    using assms unfolding main_def Let_def by (cases ?find) (simp_all del: find.simps)
  obtain ident where ident: "?id = Some ident"
    using assms none unfolding main_def Let_def by (cases ?id) (simp_all del: find.simps)
  let ?redis = "JoinHostPort (bindHost f) (redisPort f)"
  let ?addr = "if advertiseAddr f = [] then ?redis else advertiseAddr f"
  let ?c = "\<lparr>cfg_NodeID = ident, cfg_RedisAddr = ?addr, ReplicaRF = replicaRF f, WriteConcern = write_concern f, AntiEntropySec = 30\<rparr>"
  let ?seeds = "if gossipJoin f \<noteq> [] then Some (split_on CHR '','' (gossipJoin f)) else None"
  let ?secret = "if env_token sys \<noteq> [] then Some (sha256 L (env_token sys)) else None"
  let ?srv0 = "Server.SetAuthToken (env_token sys) (Server.New E ?redis ident)"
  let ?srv = "if ?addr \<noteq> ?redis then SetAdvertiseAddr E ?addr ?srv0 else ?srv0"
  obtain tls where tls: "load_tls sys f = Inr tls"
    using assms none ident unfolding main_def Let_def by (cases "load_tls sys f") (simp_all del: find.simps)
  obtain g m where g: "setupGossip E sys ?seeds (transport_config f tls ?secret ?c) ?c = Inr (g, m)"
    using assms none ident tls unfolding main_def Let_def
    by (cases "setupGossip E sys ?seeds (transport_config f tls ?secret ?c) ?c") (auto simp del: find.simps)
  have st: "st = \<lparr>st_server = SetWriteConcern (write_concern f) (SetGossip g ?srv), st_transport = m,
      http_addr = JoinHostPort (bindHost f) (httpPort f), http_token = env_token sys\<rparr>"
    using assms none ident tls g unfolding main_def Let_def by (simp del: find.simps)
  have "authToken ?srv = env_token sys"
    by (simp add: Server.SetAuthToken_def SetAdvertiseAddr_def update_ring_def)
  with that [OF none tls] g st show thesis by simp
qed

lemma setupGossip_cfg:
  assumes "setupGossip E sys seeds tc c = Inr (g, m)"
  shows "ReplicaRF (cfg g) = ReplicaRF c" "cfg_NodeID (cfg g) = cfg_NodeID c"
    "WriteConcern (cfg g) = (if WriteConcern c \<le> 0 \<or> ReplicaRF c < WriteConcern c then ReplicaRF c else WriteConcern c)"
    "Transport.Start (library sys) tc (SetHandlers (gossip_handlers E) (NewMemberlistTransport tc)) = (None, m)"
  using assms by (auto simp: setupGossip_def Gossip.Start_def Gossip.New_def Let_def split: option.splits if_splits prod.splits)

text \<open>The transport of a node that started: its secret and its TLS configuration are those of the environment and the flags.\<close>

lemma main_transport:
  assumes "main E L sys f = Inr st"
  obtains mlCfg tls where "mlist (st_transport st) = Some mlCfg" "handlers (st_transport st) = gossip_handlers E" "load_tls sys f = Inr tls"
    "ml_SecretKey mlCfg = (if env_token sys \<noteq> [] then Some (sha256 L (env_token sys)) else None)"
    "ml_Transport mlCfg = (case tls of None \<Rightarrow> ml_Transport (DefaultLANConfig (library sys)) | Some c \<Rightarrow> Some (new_transport c))"
proof (rule main_Inr [OF assms])
  fix ident addr seeds tls g srv
  assume tls: "load_tls sys f = Inr tls"
    and g: "setupGossip E sys seeds (transport_config f tls (if env_token sys \<noteq> [] then Some (sha256 L (env_token sys)) else None)
         \<lparr>cfg_NodeID = ident, cfg_RedisAddr = addr, ReplicaRF = replicaRF f, WriteConcern = write_concern f, AntiEntropySec = 30\<rparr>)
       \<lparr>cfg_NodeID = ident, cfg_RedisAddr = addr, ReplicaRF = replicaRF f, WriteConcern = write_concern f, AntiEntropySec = 30\<rparr> =
       Inr (g, st_transport st)"
  note start = setupGossip_cfg(4) [OF g]
  have "handlers (st_transport st) = gossip_handlers E" using Start_handlers [OF start] by (simp add: SetHandlers_def)
  with that tls show thesis by - (rule Start_ok [OF start], simp add: transport_config_def)
qed

lemma main_token:
  assumes "main E L sys f = Inr st"
  shows "authToken (st_server st) = env_token sys" "http_token st = env_token sys"
    "exposed sys (bindHost f) \<or> exposed sys (gossipBindHost f) \<Longrightarrow> env_token sys \<noteq> []"
  by (rule main_Inr [OF assms], simp add: SetWriteConcern_def SetGossip_def split: if_splits)+

lemma main_write_concern:
  assumes "main E L sys f = Inr st"
  shows "writeConcern (st_server st) = write_concern f"
    "\<exists>g. gossip (st_server st) = Some g \<and> WriteConcern (cfg g) = write_concern f \<and> ReplicaRF (cfg g) = replicaRF f"
proof -
  obtain seeds tc c g srv where
    g: "setupGossip E sys seeds tc c = Inr (g, st_transport st)" "ReplicaRF c = replicaRF f" "WriteConcern c = write_concern f"
    and st: "st_server st = SetWriteConcern (write_concern f) (SetGossip g srv)"
    by (rule main_Inr [OF assms]) (metis Config.select_convs(3) Config.select_convs(4))
  show "writeConcern (st_server st) = write_concern f" by (simp add: st SetWriteConcern_def)
  show "\<exists>g. gossip (st_server st) = Some g \<and> WriteConcern (cfg g) = write_concern f \<and> ReplicaRF (cfg g) = replicaRF f"
    using setupGossip_cfg [OF g(1)] g(2,3) by (auto simp: st SetWriteConcern_def SetGossip_def write_concern_def)
qed

lemma write_concern_bounds: "1 \<le> replicaRF f \<Longrightarrow> 1 \<le> write_concern f \<and> write_concern f \<le> replicaRF f"
  by (auto simp: write_concern_def)

text \<open>TLS is loaded exactly if both files are named: with one of them alone the node starts without TLS.\<close>

lemma load_tls_config:
  assumes "load_tls sys f = Inr tls"
  shows "tls = None \<longleftrightarrow> tlsCert f = [] \<or> tlsKey f = []"
    "tls = Some c \<Longrightarrow> ClientAuth c = RequireAndVerifyClientCert \<and> ServerName c = ''hapartition'' \<and> MinVersion c = 771 \<and>
      ClientCAs c = (if tlsCA f = [] then SystemPool else PoolFromFile (tlsCA f)) \<and> RootCAs c = ClientCAs c"
  using assms by (auto simp: load_tls_def split: if_splits option.splits)

text \<open>On every way through \<open>main\<close> after the start of gossip, the node leaves the cluster once, and the Redis server is shut down.\<close>

lemma main_serve_leaves_once:
  "run_leaves (fst (main_serve listen st)) False = Some True" "ShutdownRedis \<in> set (fst (main_serve listen st))"
  "snd (main_serve listen st) = None \<longleftrightarrow> ShutdownHTTP \<in> set (fst (main_serve listen st))"
  by (auto simp: main_serve_def Gossip.Leave_def split: option.split prod.split bool.split)

lemma main_serve_None:
  "snd (main_serve listen st) = None \<longleftrightarrow> listen (srv_addr (st_server st)) \<noteq> None \<and> listen (http_addr st) \<noteq> None"
  by (auto simp: main_serve_def Lifecycle.ListenAndServe_def Mgmt.ListenAndServe_def Mgmt.SetAuthToken_def Mgmt.New_def Let_def
      split: option.split prod.split bool.split)

text \<open>
  The orderly shutdown ends within five seconds and the time \<open>Leave\<close> takes, and with both servers drained if all of
  it fits into five seconds. The deadline is shared, though: a request that does not end by itself, such as
  an open event stream, uses all of it up, and then Redis connections that need any time at all are not
  waited for.
\<close>

lemma shutdown_shares_deadline:
  "snd (snd (main_shutdown T)) \<le> 5000 + leave_time T \<and>
   (http_drain T = Some h \<and> redis_drain T = Some r \<and> h + leave_time T + r < 5000 \<longrightarrow>
     main_shutdown T = (True, True, h + leave_time T + r)) \<and>
   (http_drain T = None \<and> redis_drain T \<noteq> Some 0 \<longrightarrow> main_shutdown T = (False, False, 5000 + leave_time T))"
  by (auto simp: main_shutdown_def await_ctx_def Let_def split: option.split)

end
