(* ===== verification/Spec2Isabelle.thy ===== *)
theory Spec2Isabelle
  imports Store Hashring Resp Merkle Gossip Cluster Server Tls Lifecycle Transport Mgmt Startup
begin

text \<open>
  \<^bold>\<open>Hapartition\<close> is a distributed key-value server that speaks the Redis protocol. Every node holds
  versioned entries in an ordered tree, places keys on nodes with a consistent hash ring, redirects clients
  to the owner of a key, replicates writes to the key's other replicas and waits for a quorum, and repairs
  divergence by anti-entropy over a gossip transport. A management server reports on a node over HTTP.

  \<^bold>\<open>Theories and sources.\<close>
  \<^item> \<open>Prelude\<close>: the Go types and the parts of Go's standard library the sources use (\<open>strconv\<close>, \<open>sort.Search\<close>,
    the contract of \<open>sort.Slice\<close>), facts on lists and 64-bit words, and runs of labelled steps, on which the
    models of goroutines rest.
  \<^item> \<open>Store\<close> (\<open>src/pkg/store/store.go\<close>): the record \<open>Store\<close> with its tree, clock and length, and one
    function for each method. The tree is a parameter with the contract \<open>ordered_tree\<close>.
  \<^item> \<open>Hashring\<close> (\<open>src/internal/hashring/hashring.go\<close>): the ring as the sorted list of its virtual nodes, with
    every method. The hash function is any function to 64-bit words.
  \<^item> \<open>Resp\<close> (\<open>src/pkg/api\<close>): the values of the protocol, their encoding, and the reader over a byte stream
    with the buffer of \<open>bufio\<close> and every limit and error.
  \<^item> \<open>Merkle\<close> (\<open>src/pkg/merkle/merkle.go\<close>): the hash tree over a store. Its digest is a parameter; no other
    component uses it yet.
  \<^item> \<open>Gossip\<close> (\<open>src/internal/gossip/gossip.go\<close>, types of \<open>transport.go\<close>): the event log, the membership
    callbacks, replication, quorum writes and anti-entropy. Store and ring are shared with the server by
    reference and are the record \<open>Shared\<close> that every handler threads. The protobuf codec, the transport and
    the order of map iteration are the parameters of the record \<open>env\<close>, with the contract \<open>gossip_env\<close>.
  \<^item> \<open>Cluster\<close>: many nodes, which may crash and start anew, and a network that loses, repeats and reorders
    messages, as a step relation over the handlers of \<open>Gossip\<close>. It counts the crashes of each node, so that what
    is promised for a write concerns crashes after its start only.
  \<^item> \<open>Server\<close> (\<open>src/internal/server/server.go\<close>): the loop of a connection with \<open>AUTH\<close>, every command, and
    the cluster commands, over \<open>Resp\<close>, \<open>Store\<close>, \<open>Hashring\<close> and \<open>Gossip\<close>. A command returns the list of values it
    writes to the connection.
  \<^item> \<open>Lifecycle\<close> (the same file): the accept loop, the connections it starts, \<open>Shutdown\<close> and \<open>Wait\<close>, each a
    step relation, and all of them together with the gossip layer, which shares the store, the ring and the
    handler.
  \<^item> \<open>Tls\<close> (\<open>src/internal/gossip/tls_transport.go\<close>): the goroutine that turns raw connections into TLS
    connections and hands them over a channel without buffer, \<open>Shutdown\<close>, and dialling.
  \<^item> \<open>Transport\<close> (\<open>src/internal/gossip/memberlist_transport.go\<close>, types of \<open>transport.go\<close>): start and end of
    memberlist, members, metadata, broadcasts, and the callbacks into the handlers of \<open>Gossip\<close>.
  \<^item> \<open>Mgmt\<close> (\<open>src/internal/mgmt/mgmt.go\<close>): start and end, authentication, routing and handlers of the
    management server.
  \<^item> \<open>Startup\<close> (\<open>src/cmd/hapartition/main.go\<close>): from flags and environment to the node that listens, and
    the shutdown after a signal.

  \<^bold>\<open>How the code corresponds.\<close> A Go string is a list of bytes, an \<open>int64\<close> or \<open>uint64\<close> a 64-bit word with
  Go's wrap-around. A method that changes its receiver takes the record and returns it updated. Errors,
  panics and early returns are values. Locks make each operation atomic, so an operation is one function and
  concurrency is the interleaving of operations (\<open>Cluster\<close>, \<open>Lifecycle\<close>, \<open>Tls\<close>); channels are lists or,
  when only closed, truth values, and a wait group is its counter. Goroutines that wait, such as
  \<open>ReplicateWithQuorum\<close>, are split into what they do before they wait and one turn of their wait loop;
  \<open>ReplicateWithQuorum\<close> is also given as a whole, as a function of the answers it receives.

  \<^bold>\<open>Interfaces.\<close> \<open>ordered_tree\<close> (the btree library) and \<open>slice_sort\<close> are interpreted by a sorted list and
  by stable sorting. \<open>lww_replica\<close> is the contract of last-writer-wins merging, which a store and a node's
  shared state both meet. \<open>gossip_env\<close> collects what the handlers rely on, with two instances, one whose
  codec takes every message and one that refuses strings beyond ASCII. \<open>bounded_work\<close> is the contract of
  goroutines that use up what the outside gives them; the interceptor of the TLS transport and the goroutines
  of the server meet it, and their termination follows from it.

  \<^bold>\<open>What the lemmas show.\<close>
  \<^item> Store: convergence whatever the order and number of merges, the total order of entries, the exact effect
    of every operation, the length and clock invariants, and what clock overflow does.
  \<^item> Ring: a ring represents the membership its history describes; lookups agree between nodes with the same
    members, find the nearest virtual node clockwise and distinct replicas, and move no more keys than they
    must; the slots are partitioned.
  \<^item> Protocol: values are read back as written, reading ends, makes progress and keeps the limits.
  \<^item> Merkle: \<open>Build\<close> gives the Merkle tree of the readable keys; unless the digest collides, equal roots mean equal
    contents and \<open>Diff\<close> finds the differing leaves; and two faults.
  \<^item> Gossip and cluster: when a quorum write succeeds, that those of the quorum that have not crashed since then hold
    the write in every reachable state, that its readers find it after nodes have left, that replication and
    anti-entropy converge, that anti-entropy is fair, and what stops it.
  \<^item> Server, management and start: no action before a login, however connections interleave, one reply for
    each command, redirection, reading one's own writes, a reply that can be split, that an exposed node has
    a password everywhere, and that with TLS every stream comes from a verified peer.
  \<^item> Shutdown: the accept loop, the connections and the interceptor end; when a server serves nobody any more and only
    gossip still changes its state, and that the nil of \<open>Shutdown\<close> alone does not tell; how the two servers
    share one deadline.

  \<^bold>\<open>Bounds.\<close> Every function terminates; loops over streams recurse on the bytes that are left and no fuel is
  used. Goroutines are step relations, whose numbers of steps are bounded by theorems. Theorems about versions
  assume that the 64-bit clock does not overflow where this matters and say so.

  \<^bold>\<open>Not modelled.\<close> What the sources only call is a parameter: sockets, TLS handshakes, memberlist, the
  generated protobuf code, JSON, reading flags and files, signals. Logging, the dashboard page, and methods that only pass their
  arguments to a parameter (the UDP methods of the TLS transport) are left out. Time appears as
  ticks and deadlines that may come at any moment, and as durations in the shutdown of the program. In
  \<open>Lifecycle\<close> a command is one step, so a quorum write of one connection does not interleave with others or with
  gossip there; in \<open>Cluster\<close> it does. Links that corrupt messages are outside the cluster model.
\<close>

section \<open>Properties that span components\<close>

definition ex_flags :: flags where
  "ex_flags = \<lparr>f_nodeID = ''n'', bindHost = ''0.0.0.0'', gossipBindHost = ''127.0.0.1'', redisPort = ''6379'', httpPort = ''8080'',
     gossipPort = 7946, gossipJoin = [], replicaRF = 2, f_writeConcern = 0, tlsCert = [], tlsKey = [], tlsCA = [], advertiseAddr = []\<rparr>"

definition ex_library :: "(nat, unit) memberlist" where
  "ex_library = \<lparr>DefaultLANConfig = \<lparr>ml_Name = [], BindAddr = ''0.0.0.0'', BindPort = 7946, AdvertisePort = 7946, ml_SecretKey = None,
       EnableCompression = True, ml_Transport = None\<rparr>,
     NewNetTransport = \<lambda>_ port. Some port, Create = \<lambda>_. True, newQueue = ()\<rparr>"

definition ex_system :: "(nat, unit) system" where
  "ex_system = \<lparr>env_token = ''pw'', Hostname = None, LoadX509KeyPair = \<lambda>_ _. True, load_CA = \<lambda>_. True, system_CA = True,
     v6_loopback = \<lambda>_. False, library = ex_library\<rparr>"

definition ex_join_request :: request where
  "ex_join_request = \<lparr>Method = ''POST'', Segs = [''join''], Canonical = True, BasicAuth = Some (''u'', ''guess''), query_n = [],
     join_body = Inr ''10.0.0.1:7946''\<rparr>"

definition ex_mgmt_env :: mgmt_env where
  "ex_mgmt_env = \<lparr>mg_members = [], mg_join = \<lambda>_. None, mg_flusher = True, mg_stream = [], mg_json = \<lambda>_. None, mg_redirect = (301, Empty)\<rparr>"

text \<open>
  C8. A node that is reachable from other machines asks for the password everywhere: if the program starts
  with a Redis or gossip address that is not a loopback address, then the environment gave it a token,
  and with that token a Redis connection without a login gets nothing but errors and changes nothing, every
  management request without the password, the readiness check apart, is refused and joins nothing, and
  memberlist was created with the token's digest as its secret key.
\<close>

theorem exposed_node_requires_password:
  assumes "main E L sys f = Inr st" and "exposed sys (bindHost f) \<or> exposed sys (gossipBindHost f)"
    and "\<forall>v \<in> set (values_read stream). \<forall>name token. v = Array [BulkString (Some name), BulkString (Some token)] \<and>
      ToUpper (unicode_upper L) name = ''AUTH'' \<longrightarrow> sha256 L token \<noteq> sha256 L (env_token sys)"
    and "Path r \<noteq> ''/readyz''" and "\<And>user pw. BasicAuth r = Some (user, pw) \<Longrightarrow> sha256 L pw \<noteq> sha256 L (env_token sys)"
  shows "env_token sys \<noteq> [] \<and>
    (\<exists>errs. handleConn E L Cs (st_server st) stream = (map Error errs, [], st_server st)) \<and>
    serve (sha256 L) (http_token st) M r (g, sh) = (unauthorized, None, g) \<and>
    (\<exists>mlCfg. mlist (st_transport st) = Some mlCfg \<and> ml_SecretKey mlCfg = Some (sha256 L (env_token sys)))"
proof -
  note t = main_token [OF assms(1)]
  have tok: "env_token sys \<noteq> []" by (rule t(3) [OF assms(2)])
  have "\<exists>errs. handleConn E L Cs (st_server st) stream = (map Error errs, [], st_server st)"
    by (rule handleConn_locked) (use tok assms(3) in \<open>simp_all add: t(1)\<close>)
  moreover have "serve (sha256 L) (http_token st) M r (g, sh) = (unauthorized, None, g)"
    unfolding t(2) by (rule serve_refuses) (use tok assms(4,5) in blast)+
  moreover obtain mlCfg where "mlist (st_transport st) = Some mlCfg" "ml_SecretKey mlCfg = Some (sha256 L (env_token sys))"
    by (rule main_transport [OF assms(1)]) (use tok in simp)
  ultimately show ?thesis using tok by simp
qed

lemma ex_main: "\<exists>st. main ref_env ex_lib ex_system (ex_flags\<lparr>tlsCert := cert, tlsKey := key\<rparr>) = Inr st"
  by (simp add: main_def ex_system_def ex_flags_def load_tls_def setupGossip_def Gossip.Start_def Gossip.New_def
      Transport.Start_def SetHandlers_def NewMemberlistTransport_def with_tls_def ml_config_def transport_config_def NewTLSTransport_def ex_library_def Let_def)

theorem exposed_node_requires_password_witness:
  "\<exists>st. main ref_env ex_lib ex_system ex_flags = Inr st \<and>
    serve (\<lambda>s. s) (http_token st) ex_mgmt_env ex_join_request (ex_handler ''n'', ex_shared) = (unauthorized, None, ex_handler ''n'')"
proof -
  obtain st where st: "main ref_env ex_lib ex_system ex_flags = Inr st" using ex_main [of "[]" "[]"] by (auto simp: ex_flags_def)
  have "exposed ex_system (bindHost ex_flags)" by code_simp
  moreover have "\<forall>v \<in> set (values_read (''AUTH no'' @ CRLF)). \<forall>name token. v = Array [BulkString (Some name), BulkString (Some token)] \<and>
      ToUpper (unicode_upper ex_lib) name = ''AUTH'' \<longrightarrow> sha256 ex_lib token \<noteq> sha256 ex_lib (env_token ex_system)"
    unfolding ex_login by (simp add: ex_lib_def ex_system_def)
  moreover have "Path ex_join_request \<noteq> ''/readyz''" by (simp add: Path_def ex_join_request_def)
  moreover have "sha256 ex_lib pw \<noteq> sha256 ex_lib (env_token ex_system)" if "BasicAuth ex_join_request = Some (user, pw)" for user pw
    using that by (auto simp: ex_join_request_def ex_lib_def ex_system_def)
  ultimately have "serve (sha256 ex_lib) (http_token st) ex_mgmt_env ex_join_request (ex_handler ''n'', ex_shared) = (unauthorized, None, ex_handler ''n'')"
    using exposed_node_requires_password [OF st, of "''AUTH no'' @ CRLF" ex_join_request] by blast
  with st show ?thesis by (auto simp: ex_lib_def)
qed

text \<open>
  C9. With both files of the TLS flags, the gossip of a node that started is closed to strangers: memberlist was created
  with the TLS transport, and in every run of it every stream connection memberlist receives comes from a
  peer whose certificate was verified against the configured authorities, and has no deadline left on it; no connection gets
  lost, and none that passed the three checks (the deadline set, the handshake, the deadline cleared) is closed but in a shutdown. That \<open>RequireAndVerifyClientCert\<close> makes
  a handshake verify the certificate is what \<open>crypto/tls\<close> documents.
\<close>

theorem tls_peers_verified:
  assumes "main E L sys f = Inr st" and "tlsCert f \<noteq> []" and "tlsKey f \<noteq> []"
    and "\<And>tc c. ClientAuth tc = RequireAndVerifyClientCert \<Longrightarrow> Handshake V tc c \<Longrightarrow> verified (ClientCAs tc) c"
  shows "\<exists>mlCfg t0. mlist (st_transport st) = Some mlCfg \<and> ml_Transport mlCfg = Some t0 \<and>
    (\<forall>ls t c. lts_run (tls_step V) t0 ls t \<and> c \<in> set (streamCh t) \<longrightarrow>
      verified (if tlsCA f = [] then SystemPool else PoolFromFile (tlsCA f)) c \<and> ClearDeadline V c \<and> c \<notin> set (connsClosed t)) \<and>
    (\<forall>ls t c. lts_run (tls_step V) t0 ls t \<and> Arrive c \<in> set ls \<longrightarrow>
      c \<in> set (rawCh t) \<union> set_option (sending t) \<union> set (streamCh t) \<union> set (connsClosed t)) \<and>
    (\<forall>ls t c. lts_run (tls_step V) t0 ls t \<and> c \<in> set (connsClosed t) \<and> accept_conn V (t_tlsConfig t0) c \<longrightarrow> shutdownCh t)"
proof (rule main_transport [OF assms(1)])
  fix mlCfg tls
  assume m: "mlist (st_transport st) = Some mlCfg" and tls: "load_tls sys f = Inr tls"
    and tr: "ml_Transport mlCfg = (case tls of None \<Rightarrow> ml_Transport (DefaultLANConfig (library sys)) | Some c \<Rightarrow> Some (new_transport c))"
  note cfg = load_tls_config [OF tls]
  obtain tc where tc: "tls = Some tc" using cfg(1) assms(2,3) by auto
  have auth: "ClientAuth tc = RequireAndVerifyClientCert" "ClientCAs tc = (if tlsCA f = [] then SystemPool else PoolFromFile (tlsCA f))"
    using cfg(2) [OF tc] by simp_all
  have a: "verified (ClientCAs tc) c \<and> ClearDeadline V c \<and> c \<notin> set (connsClosed t)"
    if "lts_run (tls_step V) (new_transport tc) ls t" "c \<in> set (streamCh t)" for ls t c
  proof -
    have "accept_conn V tc c" "c \<notin> set (connsClosed t)"
      using tls_inv_run [OF that(1)] that(2) by (auto simp: tls_inv_def)
    then show ?thesis using assms(4) [OF auth(1)] by (auto simp: accept_conn_def split: if_splits)
  qed
  have b: "c \<in> set (rawCh t) \<union> set_option (sending t) \<union> set (streamCh t) \<union> set (connsClosed t)"
    if "lts_run (tls_step V) (new_transport tc) ls t" "Arrive c \<in> set ls" for ls t c
    using places_run [OF that(1)] that(2) by (auto simp: places_def)
  have d: "shutdownCh t"
    if "lts_run (tls_step V) (new_transport tc) ls t" "c \<in> set (connsClosed t)" "accept_conn V (t_tlsConfig (new_transport tc)) c" for ls t c
    using tls_inv_run [OF that(1)] that(2,3) by (auto simp: tls_inv_def)
  have "ml_Transport mlCfg = Some (new_transport tc)" using tr tc by simp
  with m a b d show ?thesis
    unfolding auth(2) [symmetric]
    by (intro exI [of _ mlCfg] exI [of _ "new_transport tc"]) blast
qed

theorem tls_peers_verified_witness:
  "\<exists>st mlCfg t0 t. main ref_env ex_lib ex_system (ex_flags\<lparr>tlsCert := ''c'', tlsKey := ''k''\<rparr>) = Inr st \<and>
    mlist (st_transport st) = Some mlCfg \<and> ml_Transport mlCfg = Some t0 \<and>
    lts_run (tls_step ex_tls) t0 [Arrive 1, Receive, Intercept, Intercept] t \<and> streamCh t = [1] \<and> ClearDeadline ex_tls 1 \<and> 1 \<notin> set (connsClosed t)"
proof -
  let ?f = "ex_flags\<lparr>tlsCert := ''c'', tlsKey := ''k''\<rparr>"
  obtain st where st: "main ref_env ex_lib ex_system ?f = Inr st" using ex_main by blast
  obtain mlCfg tls where m: "mlist (st_transport st) = Some mlCfg" "load_tls ex_system ?f = Inr tls"
    "ml_Transport mlCfg = (case tls of None \<Rightarrow> ml_Transport (DefaultLANConfig (library ex_system)) | Some c \<Rightarrow> Some (new_transport c))"
    by (rule main_transport [OF st])
  have "tls \<noteq> None" using load_tls_config(1) [OF m(2)] by simp
  then obtain tc where tr: "ml_Transport mlCfg = Some (new_transport tc)" using m(3) by auto
  obtain t where t: "lts_run (tls_step ex_tls) (new_transport tc) [Arrive 1, Receive, Intercept, Intercept] t" "streamCh t = [1]"
    using ex_stream_run by blast
  have "Handshake ex_tls tc c \<Longrightarrow> c = 1" for tc c by (simp add: ex_tls_def)
  with tls_peers_verified [OF st, of ex_tls "\<lambda>_ c. c = 1"] m(1) tr t have "ClearDeadline ex_tls 1 \<and> 1 \<notin> set (connsClosed t)" by fastforce
  with st m(1) tr t show ?thesis by blast
qed

text \<open>
  C2. A write survives its nodes: suppose a quorum write waited for all replicas of its key, as the program's
  default write concern does, the coordinator was one of them, and it returned nil. Then in every state the
  cluster can reach afterwards, and for any nodes that have left the ring since, those replicas that crashed after the
  write started among them, as long as one of the replicas is left, the node that now owns the key is one of those replicas,
  and it answers a \<open>GET\<close> of the key from the written entry or a newer one, and not with a redirect.
\<close>

theorem failover_read:
  assumes "gossip_env E" and "initial E W0" and "(cluster_step E)\<^sup>*\<^sup>* W0 W"
    and "res \<in> outcomes W" and "o_result res = None"
    and "ring_inv (env_hash E) r" and "o_replicas res = map NodeID (GetReplicas (env_hash E) (o_key res) rf r)"
    and "int (length (o_replicas res)) \<le> o_need res" and "o_node res \<in> set (o_replicas res)"
    and "m \<in> set (o_replicas res)" and "m \<notin> set gone" and "\<forall>n \<in> set (o_replicas res). crashes W n \<noteq> o_crashes res n \<longrightarrow> n \<in> set gone"
    and "sh_ring (srv_shared s) = fold RemoveNode gone r"
    and "fst (GetNode (env_hash E) (o_key res) (sh_ring (srv_shared s))) = nodeID s"
    and "sh_store (srv_shared s) = sh_store (nd_shared (node_of W (nodeID s)))"
  shows "nodeID s \<in> set (o_replicas res) - set gone \<and>
    (\<exists>e'. entry_rank (o_entry res) \<le> entry_rank e' \<and>
       dispatch E L C ''GET'' [BulkString (Some (o_key res))] s = ([reply_of (Some e')], [], s))"
proof -
  have "cluster_inv E W"
    by (rule gossip_env.cluster_inv_reachable [OF assms(1,3) gossip_env.cluster_inv_initial [OF assms(1,2)]])
  then have dur: "durable E W res" using assms(4) by (simp add: cluster_inv_def)
  have owner: "nodeID s \<in> set (o_replicas res) - set gone"
    using GetNode_fold_RemoveNode [OF assms(6), of m "o_key res" rf gone] assms(7,10,11,13,14) by simp
  then have "holds E W (o_crashes res) (nodeID s) (o_key res) (o_entry res)"
    using durable_all_replicas [OF dur assms(5,8,9)] by simp
  then obtain e' where e': "server_view E s (o_key res) = Some e'" "entry_rank (o_entry res) \<le> entry_rank e'"
    using assms(12,15) owner by (auto simp: holds_def server_view_def view_def)
  have "moved_to E (o_key res) s = None" using assms(14) by (auto simp: moved_to_def split: prod.split)
  with e' owner show ?thesis by (auto simp: gossip_env.dispatch_GET [OF assms(1)])
qed

lemma ex_pair:
  "ring_inv ex_hash (RemoveNode ''c'' ex_ring)" "set (ex_replicas (RemoveNode ''c'' ex_ring)) = {''a'', ''b''}"
  "length (ex_replicas (RemoveNode ''c'' ex_ring)) = 2"
proof -
  show "ring_inv ex_hash (RemoveNode ''c'' ex_ring)" by (rule ring_inv_RemoveNode [OF ex_ring_inv])
  show "set (ex_replicas (RemoveNode ''c'' ex_ring)) = {''a'', ''b''}" "length (ex_replicas (RemoveNode ''c'' ex_ring)) = 2"
    by code_simp+
qed

definition ex_survivor :: "(alist_tree, GossipMessage) world \<Rightarrow> alist_tree Server" where
  "ex_survivor W = \<lparr>srv_addr = [], ln = None, localID = ''b'',
     srv_shared = \<lparr>sh_store = sh_store (nd_shared (node_of W ''b'')), sh_ring = RemoveNode ''a'' (RemoveNode ''c'' ex_ring)\<rparr>,
     gossip = None, writeConcern = 2, authToken = []\<rparr>"

theorem failover_read_witness:
  "\<exists>W e'. (cluster_step ref_env)\<^sup>*\<^sup>* (ex_world (RemoveNode ''c'' ex_ring) (\<lambda>_. 0)) W \<and> crashes W ''a'' = 1 \<and>
     entry_rank (ex_entry ''v'' 1 ''a'' False) \<le> entry_rank e' \<and>
     dispatch ref_env ex_lib ex_command_env ''GET'' [BulkString (Some ''k'')] (ex_survivor W) = ([reply_of (Some e')], [], ex_survivor W)"
proof -
  let ?r = "RemoveNode ''c'' ex_ring"
  let ?res = "\<lparr>o_node = ''a'', o_key = ''k'', o_entry = ex_entry ''v'' 1 ''a'' False, o_replicas = ex_replicas ?r,
    o_crashes = \<lambda>_. 0, o_need = 2, o_result = None\<rparr>"
  obtain W where W: "(cluster_step ref_env)\<^sup>*\<^sup>* (ex_world ?r (\<lambda>_. 0)) W" "?res \<in> outcomes W" "crashes W = (\<lambda>_. 0)"
    using ex_run [of ?r "\<lambda>_. 0" "ex_entry ''v'' 1 ''a'' False"] by (auto simp: ex_pair(2))
  define W' where "W' = crash ''a'' (fresh_node ref_env (cfg (ex_handler ''a'')) ?r) W"
  have "cluster_step ref_env W W'"
    unfolding W'_def by (rule node_crashes) (simp add: ex_handler_def Gossip.New_def)
  then have W': "(cluster_step ref_env)\<^sup>*\<^sup>* (ex_world ?r (\<lambda>_. 0)) W'" "?res \<in> outcomes W'" "crashes W' = (\<lambda>_. 0)(''a'' := 1)"
    using W by (auto simp: W'_def)
  have "fst (GetNode ex_hash ''k'' (RemoveNode ''a'' ?r)) = ''b''" by code_simp
  then have "\<exists>e'. entry_rank (ex_entry ''v'' 1 ''a'' False) \<le> entry_rank e' \<and>
      dispatch ref_env ex_lib ex_command_env ''GET'' [BulkString (Some ''k'')] (ex_survivor W') = ([reply_of (Some e')], [], ex_survivor W')"
    using failover_read [OF ref.gossip_env_axioms ex_world_initial W'(1,2), of ?r 3 "''b''" "[''a'']" "ex_survivor W'" ex_lib ex_command_env]
      W'(3) ex_pair by (auto simp: ex_survivor_def nodeID_def ex_replicas_def)
  moreover have "crashes W' ''a'' = 1" using W'(3) by simp
  ultimately show ?thesis using W'(1) by blast
qed
end
